(* ===== verification/Outcome.thy ===== *)
theory Outcome
  imports Main "HOL-Library.Word"
begin

text \<open>
  Outcomes of the C++ code.  A function that can abort on an \<open>assert\<close>, read or write outside an
  object, or throw, returns \<open>fault + 'a\<close>: \<open>Inl\<close> carries what went wrong and \<open>Inr\<close> the value.
  The flow documented in the README compiles the simulation without \<open>NDEBUG\<close>, so every
  \<open>assert\<close> of the sources is active and a failing one ends the program (\<open>Assert_failed\<close>).
  \<open>Undefined\<close> marks an access outside an array, vector or string.  A thrown exception is
  \<open>Throw e\<close>; the exception keeps the values its message is built from, with one constructor per
  \<open>throw\<close> of the sources.

  The theory also holds the two combinators the model is written with: \<open>res_bind\<close> (sequencing)
  and \<open>foldM\<close> (a \<open>for\<close> loop over a list of indices), with their rules.
\<close>

type_synonym u8 = "8 word"
type_synonym u16 = "16 word"
type_synonym u32 = "32 word"
type_synonym u64 = "64 word"

text \<open>The messages of \<open>std::runtime_error\<close>, one constructor per throw site.\<close>

datatype runtime_msg =
    Could_not_read_word u32
  | Could_not_set_memory u32
  | Vmem_not_supported
  | Unknown_image_type string
  | Cannot_auto_detect string
  | Register_overflow string u32 u32
  | Register_duplicate string string string
  | Register_overlap string u32
  | Unknown_memory string
  | No_memory_at string string
  | No_memory_at_lma string string u32
  | Empty_field string
  | Bad_meminit_format string
  | Libelf_message string

text \<open>The messages of \<open>ElfError\<close>.\<close>

datatype elf_msg =
    Could_not_open
  | Elf_library string
  | Not_an_elf_file
  | Segment_overflows nat u32 u32
  | Segment_past_end nat nat nat
  | No_region_for u32 nat
  | Segment_top_overflow nat
  | Segment_too_large nat u32 u32 u32 string u32 u32
  | Segment_misaligned nat u32 u32 string u32

datatype exn =
    Scope_error string
  | Runtime_error runtime_msg
  | Elf_error string elf_msg

datatype fault =
    Assert_failed
  | Undefined
  | Throw exn

type_synonym 'a res = "fault + 'a"

named_theorems res_simps \<open>evaluation of outcomes\<close>

definition res_bind :: "'a res \<Rightarrow> ('a \<Rightarrow> 'b res) \<Rightarrow> 'b res" where
  "res_bind m f = (case m of Inl e \<Rightarrow> Inl e | Inr x \<Rightarrow> f x)"

lemma res_bind_simps [simp, res_simps]:
  "res_bind (Inr x) f = f x"
  "res_bind (Inl e) f = Inl e"
  by (simp_all add: res_bind_def)

lemma res_bind_Inr [simp]: "res_bind m f = Inr y \<longleftrightarrow> (\<exists>x. m = Inr x \<and> f x = Inr y)"
  by (cases m) auto

lemma res_bind_cong [fundef_cong]:
  "m = m' \<Longrightarrow> (\<And>x. m' = Inr x \<Longrightarrow> f x = g x) \<Longrightarrow> res_bind m f = res_bind m' g"
  by (cases m') auto

lemma res_bind_assoc: "res_bind (res_bind m f) g = res_bind m (\<lambda>x. res_bind (f x) g)"
  by (cases m) auto

text \<open>A \<open>for\<close> loop: the body runs for each index, and the first fault ends it.\<close>

fun foldM :: "('i \<Rightarrow> 's \<Rightarrow> 's res) \<Rightarrow> 'i list \<Rightarrow> 's \<Rightarrow> 's res" where
  "foldM body [] s = Inr s"
| "foldM body (i # is) s = res_bind (body i s) (foldM body is)"

lemma foldM_append: "foldM body (xs @ ys) s = res_bind (foldM body xs s) (foldM body ys)"
proof (induction xs arbitrary: s)
  case (Cons x xs)
  have "foldM body (xs @ ys) = (\<lambda>t. res_bind (foldM body xs t) (foldM body ys))"
    using Cons by (rule ext)
  then show ?case by (simp add: res_bind_assoc)
qed simp

lemma foldM_Suc: "foldM body [0..<Suc n] s = res_bind (foldM body [0..<n] s) (body n)"
proof -
  have "foldM body [n] = body n"
  proof
    show "foldM body [n] x = body n x" for x
      by (cases "body n x") auto
  qed
  then show ?thesis by (simp add: foldM_append)
qed

text \<open>The loop rule: an invariant indexed by the loop counter, and no fault on the way.\<close>

lemma foldM_upt_rule:
  assumes "P a s"
    and "\<And>i s. a \<le> i \<Longrightarrow> i < b \<Longrightarrow> P i s \<Longrightarrow> \<exists>s'. body i s = Inr s' \<and> P (Suc i) s'"
    and "a \<le> b"
  shows "\<exists>s'. foldM body [a..<b] s = Inr s' \<and> P b s'"
  using assms
proof (induction "b - a" arbitrary: a s)
  case 0
  then show ?case by auto
next
  case (Suc k)
  then have ab: "a < b" by simp
  obtain s1 where s1: "body a s = Inr s1" "P (Suc a) s1"
    using Suc.prems ab by blast
  have "\<exists>s'. foldM body [Suc a..<b] s1 = Inr s' \<and> P b s'"
    using Suc.hyps(1)[of "Suc a" s1] Suc.hyps(2) Suc.prems ab s1 by auto
  then show ?case using ab s1 by (simp add: upt_conv_Cons)
qed

lemma foldM_cong:
  "(\<And>i s. i \<in> set xs \<Longrightarrow> f i s = g i s) \<Longrightarrow> foldM f xs s = foldM g xs s"
  by (induction xs arbitrary: s) (auto intro: res_bind_cong)

text \<open>A loop whose body never faults is a fold.\<close>

lemma foldM_total: "(\<And>i s. i \<in> set xs \<Longrightarrow> f i s = Inr (g i s)) \<Longrightarrow> foldM f xs s = Inr (fold g xs s)"
  by (induction xs arbitrary: s) auto

definition ok :: "'a res \<Rightarrow> bool" where
  "ok r = (case r of Inl _ \<Rightarrow> False | Inr _ \<Rightarrow> True)"

lemma ok_simps [simp, res_simps]: "ok (Inr x)" "\<not> ok (Inl e)"
  by (simp_all add: ok_def)

lemma ok_iff: "ok r \<longleftrightarrow> (\<exists>x. r = Inr x)"
  by (cases r) auto

end
