(* ===== verification/Ranged_Map.thy ===== *)
theory Ranged_Map
  imports Outcome
begin

text \<open>
  \<open>ranged_map.h\<close>: the class \<open>RangedMap\<close>, a map from disjoint address ranges to values, kept in a
  \<open>std::map\<close> ordered by the low end of the range.  The \<open>std::map\<close> is its in-order list of
  entries and an iterator is an index into it (\<open>length m\<close> is \<open>end()\<close>).
\<close>

section \<open>Address ranges\<close>

datatype 'a addr_range = AddrRange (rng_lo: 'a) (rng_hi: 'a)

text \<open>The custom \<open>operator<\<close> looks at the low end only, so it is a preorder and no linear order.\<close>

definition addr_range_less :: "'a::linorder addr_range \<Rightarrow> 'a addr_range \<Rightarrow> bool" where
  "addr_range_less a b \<longleftrightarrow> rng_lo a < rng_lo b"

instantiation addr_range :: (linorder) preorder
begin

definition less_addr_range :: "'a addr_range \<Rightarrow> 'a addr_range \<Rightarrow> bool" where
  "less_addr_range = addr_range_less"

definition less_eq_addr_range :: "'a addr_range \<Rightarrow> 'a addr_range \<Rightarrow> bool" where
  "a \<le> b \<longleftrightarrow> rng_lo a \<le> rng_lo b"

instance
  by standard (auto simp: less_addr_range_def addr_range_less_def less_eq_addr_range_def)

end

lemma range_less: "a < b \<longleftrightarrow> rng_lo a < rng_lo b"
  by (simp add: less_addr_range_def addr_range_less_def)

type_synonym ('a, 'v) ranged_map = "('a addr_range \<times> 'v) list"

definition covers :: "'a::linorder addr_range \<Rightarrow> 'a \<Rightarrow> bool" where
  "covers r x \<longleftrightarrow> rng_lo r \<le> x \<and> x \<le> rng_hi r"

definition overlaps :: "'a::linorder addr_range \<Rightarrow> 'a addr_range \<Rightarrow> bool" where
  "overlaps r s \<longleftrightarrow> rng_lo r \<le> rng_hi s \<and> rng_lo s \<le> rng_hi r"

definition hull :: "'a::linorder addr_range \<Rightarrow> 'a addr_range \<Rightarrow> 'a addr_range" where
  "hull r s = AddrRange (min (rng_lo r) (rng_lo s)) (max (rng_hi r) (rng_hi s))"

section \<open>The operations of \<open>std::map\<close> the class uses\<close>

text \<open>\<open>upper_bound(k)\<close>: the first entry whose key is greater than \<open>k\<close>.\<close>

definition upper_bound :: "('a::linorder, 'v) ranged_map \<Rightarrow> 'a addr_range \<Rightarrow> nat" where
  "upper_bound m k = length (takeWhile (\<lambda>e. \<not> k < fst e) m)"

text \<open>\<open>insert\<close> leaves the map unchanged when an equivalent key is there.\<close>

fun map_insert :: "'a::linorder addr_range \<Rightarrow> 'v \<Rightarrow> ('a, 'v) ranged_map \<Rightarrow> ('a, 'v) ranged_map" where
  "map_insert k v [] = [(k, v)]"
| "map_insert k v (e # m) =
     (if k < fst e then (k, v) # e # m
      else if fst e < k then e # map_insert k v m
      else e # m)"

text \<open>\<open>erase(first, last)\<close> removes the entries of the half-open index range.\<close>

definition map_erase :: "('a, 'v) ranged_map \<Rightarrow> nat \<Rightarrow> nat \<Rightarrow> ('a, 'v) ranged_map" where
  "map_erase m hit_lo hit_hi = take hit_lo m @ drop hit_hi m"

section \<open>The operations of the class\<close>

text \<open>The loop that moves \<open>hit_hi\<close> right while the entry it points to starts at or below
  \<open>max_addr\<close>, and the loop that moves \<open>hit_lo\<close> left while the previous entry ends at or above
  \<open>min_addr\<close>.\<close>

function scan_hi :: "('a::linorder, 'v) ranged_map \<Rightarrow> 'a \<Rightarrow> nat \<Rightarrow> nat" where
  "scan_hi m max_addr hit_hi =
     (if hit_hi < length m \<and> rng_lo (fst (m ! hit_hi)) \<le> max_addr
      then scan_hi m max_addr (Suc hit_hi) else hit_hi)"
  by pat_completeness auto
termination
  by (relation "measure (\<lambda>(m, _, i). length m - i)") auto

declare scan_hi.simps [simp del]

fun scan_lo :: "('a::linorder, 'v) ranged_map \<Rightarrow> 'a \<Rightarrow> nat \<Rightarrow> nat" where
  "scan_lo m min_addr 0 = 0"
| "scan_lo m min_addr (Suc i) =
     (if min_addr \<le> rng_hi (fst (m ! i)) then scan_lo m min_addr i else Suc i)"

type_synonym ('a, 'v) merge_fun = "'a addr_range \<Rightarrow> 'v \<Rightarrow> 'a addr_range \<Rightarrow> 'v \<Rightarrow> 'v res"

definition hit_bounds :: "('a::linorder, 'v) ranged_map \<Rightarrow> 'a \<Rightarrow> 'a \<Rightarrow> nat \<times> nat" where
  "hit_bounds m min_addr max_addr =
     (if m = [] then (length m, length m)
      else let right_it = upper_bound m (AddrRange min_addr max_addr)
           in (scan_lo m min_addr right_it, scan_hi m max_addr right_it))"

text \<open>One turn of the merge loop: the accumulated range and value absorb an entry.  The source
  peels the first turn off the loop to save a move of \<open>new_val\<close>; its range then is the one passed
  in, so the turns are alike.\<close>

definition merge_step ::
    "('a::linorder, 'v) merge_fun \<Rightarrow> 'a addr_range \<times> 'v \<Rightarrow> 'a \<times> 'a \<times> 'v \<Rightarrow> ('a \<times> 'a \<times> 'v) res"
  where
  "merge_step merge e s =
     (case s of (min_addr, max_addr, acc) \<Rightarrow>
        res_bind (merge (fst e) (snd e) (AddrRange min_addr max_addr) acc) (\<lambda>acc'.
          Inr (min min_addr (rng_lo (fst e)), max max_addr (rng_hi (fst e)), acc')))"

definition Emplace ::
    "('a::linorder, 'v) merge_fun \<Rightarrow> 'a \<Rightarrow> 'a \<Rightarrow> 'v \<Rightarrow> ('a, 'v) ranged_map \<Rightarrow> ('a, 'v) ranged_map res"
  where
  "Emplace merge min_addr max_addr new_val m =
     (if \<not> min_addr \<le> max_addr then Inl Assert_failed
      else case hit_bounds m min_addr max_addr of (hit_lo, hit_hi) \<Rightarrow>
        if hit_lo = hit_hi then Inr (map_insert (AddrRange min_addr max_addr) new_val m)
        else res_bind
               (foldM (\<lambda>it. merge_step merge (m ! it)) [hit_lo..<hit_hi] (min_addr, max_addr, new_val))
               (\<lambda>(lo, hi, acc). Inr (map_insert (AddrRange lo hi) acc (map_erase m hit_lo hit_hi))))"

text \<open>
  \<open>EmplaceDisjoint\<close> returns the new map and the pointer it returns: \<open>None\<close> for \<open>nullptr\<close>, the
  entry's value when a range is in the way.
\<close>

definition EmplaceDisjoint ::
    "'a::linorder \<Rightarrow> 'a \<Rightarrow> 'v \<Rightarrow> ('a, 'v) ranged_map \<Rightarrow> (('a, 'v) ranged_map \<times> 'v option) res" where
  "EmplaceDisjoint min_addr max_addr val m =
     (if \<not> min_addr \<le> max_addr then Inl Assert_failed
      else
        let rng = AddrRange min_addr max_addr;
            right_it = upper_bound m rng
        in if m \<noteq> [] \<and> right_it < length m \<and> rng_lo (fst (m ! right_it)) \<le> max_addr
           then Inr (m, Some (snd (m ! right_it)))
           else if m \<noteq> [] \<and> right_it \<noteq> 0 \<and> min_addr \<le> rng_hi (fst (m ! (right_it - 1)))
           then Inr (m, Some (snd (m ! (right_it - 1))))
           else Inr (map_insert rng val m, None))"

definition find_addr :: "('a::linorder, 'v) ranged_map \<Rightarrow> 'a \<Rightarrow> nat" where
  "find_addr m addr =
     (if m = [] then length m
      else let it = upper_bound m (AddrRange addr addr)
           in if it = 0 then length m
              else if addr \<le> rng_hi (fst (m ! (it - 1))) then it - 1 else length m)"

section \<open>The invariant\<close>

text \<open>The ranges are not empty, ascend and do not touch each other's addresses.\<close>

definition disjoint_sorted :: "('a::linorder, 'v) ranged_map \<Rightarrow> bool" where
  "disjoint_sorted m \<longleftrightarrow>
     sorted_wrt (\<lambda>e f. rng_hi (fst e) < rng_lo (fst f)) m \<and>
     list_all (\<lambda>e. rng_lo (fst e) \<le> rng_hi (fst e)) m"

lemma disjoint_sorted_Nil [simp]: "disjoint_sorted []"
  by (simp add: disjoint_sorted_def)

lemma disjoint_sorted_append:
  "disjoint_sorted (xs @ ys) \<longleftrightarrow>
     disjoint_sorted xs \<and> disjoint_sorted ys \<and>
     (\<forall>e\<in>set xs. \<forall>f\<in>set ys. rng_hi (fst e) < rng_lo (fst f))"
  by (auto simp: disjoint_sorted_def sorted_wrt_append)

lemma disjoint_sorted_Cons:
  "disjoint_sorted (e # ys) \<longleftrightarrow>
     rng_lo (fst e) \<le> rng_hi (fst e) \<and> disjoint_sorted ys \<and>
     (\<forall>f\<in>set ys. rng_hi (fst e) < rng_lo (fst f))"
  by (auto simp: disjoint_sorted_def)

lemma disjoint_sorted_valid: "disjoint_sorted m \<Longrightarrow> e \<in> set m \<Longrightarrow> rng_lo (fst e) \<le> rng_hi (fst e)"
  by (simp add: disjoint_sorted_def list_all_iff)

text \<open>In an ascending list, what a downward-closed predicate leaves over satisfies it nowhere.\<close>

lemma sorted_wrt_dropWhile:
  assumes "sorted_wrt R xs"
    and "\<And>x y. x \<in> set xs \<Longrightarrow> y \<in> set xs \<Longrightarrow> R x y \<Longrightarrow> P y \<Longrightarrow> P x"
  shows "\<forall>x\<in>set (dropWhile P xs). \<not> P x"
  using assms by (induction xs) auto

text \<open>The parts of a map before, within and after a range.\<close>

lemma hit_split:
  assumes inv: "disjoint_sorted m" and le: "mn \<le> mx"
  obtains P H S where "m = P @ H @ S"
    and "\<forall>e\<in>set P. rng_hi (fst e) < mn"
    and "\<forall>e\<in>set H. overlaps (fst e) (AddrRange mn mx)"
    and "\<forall>e\<in>set S. mx < rng_lo (fst e)"
proof
  let ?P = "takeWhile (\<lambda>e. rng_hi (fst e) < mn) m"
  let ?D = "dropWhile (\<lambda>e. rng_hi (fst e) < mn) m"
  let ?H = "takeWhile (\<lambda>e. rng_lo (fst e) \<le> mx) ?D"
  let ?S = "dropWhile (\<lambda>e. rng_lo (fst e) \<le> mx) ?D"
  show m: "m = ?P @ ?H @ ?S" by simp
  show "\<forall>e\<in>set ?P. rng_hi (fst e) < mn" by (auto dest: set_takeWhileD)
  have asc: "sorted_wrt (\<lambda>e f. rng_hi (fst e) < rng_lo (fst f)) m"
    using inv by (simp add: disjoint_sorted_def)
  have D: "\<forall>e\<in>set ?D. \<not> rng_hi (fst e) < mn"
  proof (rule sorted_wrt_dropWhile [OF asc])
    show "rng_hi (fst x) < mn"
      if "y \<in> set m" "rng_hi (fst x) < rng_lo (fst y)" "rng_hi (fst y) < mn" for x y
      using that(2) disjoint_sorted_valid [OF inv that(1)] that(3)
      by (meson le_less_trans less_trans)
  qed
  show "\<forall>e\<in>set ?H. overlaps (fst e) (AddrRange mn mx)"
  proof
    fix e
    assume "e \<in> set ?H"
    then have "e \<in> set ?D" and "rng_lo (fst e) \<le> mx"
      by (blast dest!: set_takeWhileD)+
    with D show "overlaps (fst e) (AddrRange mn mx)"
      by (simp add: overlaps_def not_less)
  qed
  have inv': "disjoint_sorted ?D"
    using inv by (metis disjoint_sorted_append takeWhile_dropWhile_id)
  then have asc': "sorted_wrt (\<lambda>e f. rng_hi (fst e) < rng_lo (fst f)) ?D"
    by (simp add: disjoint_sorted_def)
  have "\<forall>e\<in>set ?S. \<not> rng_lo (fst e) \<le> mx"
  proof (rule sorted_wrt_dropWhile [OF asc'])
    show "rng_lo (fst x) \<le> mx"
      if "x \<in> set ?D" "rng_hi (fst x) < rng_lo (fst y)" "rng_lo (fst y) \<le> mx" for x y
      using disjoint_sorted_valid [OF inv' that(1)] that(2,3)
      by (meson less_imp_le order_trans)
  qed
  then show "\<forall>e\<in>set ?S. mx < rng_lo (fst e)" by (simp only: not_le)
qed

lemma upper_bound_split:
  assumes "disjoint_sorted (P @ H @ S)" and "mn \<le> mx"
    and "\<forall>e\<in>set P. rng_hi (fst e) < mn" and "\<forall>e\<in>set S. mx < rng_lo (fst e)"
  shows "upper_bound (P @ H @ S) (AddrRange mn y) = length P + upper_bound H (AddrRange mn y)"
proof -
  have P: "\<forall>e\<in>set P. rng_lo (fst e) \<le> mn"
    using assms(1,3) by (fastforce simp: disjoint_sorted_append dest: disjoint_sorted_valid)
  have S: "takeWhile (\<lambda>e. rng_lo (fst e) \<le> mn) S = []"
    using assms(2,4) by (cases S) auto
  have "takeWhile (\<lambda>e. rng_lo (fst e) \<le> mn) (H @ S) = takeWhile (\<lambda>e. rng_lo (fst e) \<le> mn) H"
    using S by (induction H) auto
  then show ?thesis
    using P by (simp add: upper_bound_def range_less not_less takeWhile_append2)
qed

lemma scan_lo_to:
  assumes "a \<le> k" and "\<And>i. a \<le> i \<Longrightarrow> i < k \<Longrightarrow> mn \<le> rng_hi (fst (m ! i))"
    and "a \<noteq> 0 \<Longrightarrow> \<not> mn \<le> rng_hi (fst (m ! (a - 1)))"
  shows "scan_lo m mn k = a"
  using assms
proof (induction k)
  case (Suc k)
  then show ?case by (cases "a = Suc k") auto
qed simp

lemma scan_hi_to:
  assumes "k \<le> b" and "b \<le> length m"
    and "\<And>i. k \<le> i \<Longrightarrow> i < b \<Longrightarrow> rng_lo (fst (m ! i)) \<le> mx"
    and "b < length m \<Longrightarrow> \<not> rng_lo (fst (m ! b)) \<le> mx"
  shows "scan_hi m mx k = b"
  using assms
proof (induction "b - k" arbitrary: k)
  case 0
  then show ?case by (subst scan_hi.simps) auto
next
  case (Suc d)
  then have "scan_hi m mx (Suc k) = b" by simp
  with Suc show ?case by (simp add: scan_hi.simps[of m mx k])
qed

text \<open>The two scans find exactly the entries that overlap the range.\<close>

lemma hit_bounds_split:
  assumes inv: "disjoint_sorted m" and m: "m = P @ H @ S" and le: "mn \<le> mx"
    and P: "\<forall>e\<in>set P. rng_hi (fst e) < mn"
    and H: "\<forall>e\<in>set H. overlaps (fst e) (AddrRange mn mx)"
    and S: "\<forall>e\<in>set S. mx < rng_lo (fst e)"
  shows "hit_bounds m mn mx = (length P, length P + length H)"
proof (cases "m = []")
  case False
  define k where "k = upper_bound m (AddrRange mn mx)"
  have k: "length P \<le> k" "k \<le> length P + length H"
    using upper_bound_split[of P H S mn mx mx] inv le P S m
    by (auto simp: k_def upper_bound_def length_takeWhile_le)
  have nthH: "m ! i \<in> set H" if "length P \<le> i" "i < length P + length H" for i
    using that by (auto simp: m nth_append)
  have "scan_lo m mn k = length P"
  proof (rule scan_lo_to)
    show "mn \<le> rng_hi (fst (m ! i))" if "length P \<le> i" "i < k" for i
      using nthH[of i] that k H by (auto simp: overlaps_def)
    show "\<not> mn \<le> rng_hi (fst (m ! (length P - 1)))" if "length P \<noteq> 0"
      using that P nth_mem[of "length P - 1" P] by (auto simp: m nth_append not_le)
  qed (rule k)
  moreover have "scan_hi m mx k = length P + length H"
  proof (rule scan_hi_to)
    show "rng_lo (fst (m ! i)) \<le> mx" if "k \<le> i" "i < length P + length H" for i
      using nthH[of i] that k H by (auto simp: overlaps_def)
    show "\<not> rng_lo (fst (m ! (length P + length H))) \<le> mx" if "length P + length H < length m"
      using that S nth_mem[of 0 S] by (auto simp: m nth_append not_le)
  qed (use k m in auto)
  ultimately show ?thesis
    using False by (simp add: hit_bounds_def k_def Let_def)
qed (use m in \<open>simp add: hit_bounds_def\<close>)

lemma map_insert_mid:
  assumes "\<forall>e\<in>set P. fst e < k" and "\<forall>e\<in>set S. k < fst e"
  shows "map_insert k v (P @ S) = P @ (k, v) # S"
proof -
  have "map_insert k v S = (k, v) # S"
    using assms(2) by (cases S) auto
  then show ?thesis
    using assms(1) by (induction P) (auto simp: range_less)
qed

section \<open>What the operations promise\<close>

text \<open>\<open>find\<close> returns the one entry that covers the address, or \<open>end()\<close> when none does.\<close>

lemma find_addr_correct:
  assumes inv: "disjoint_sorted m"
  shows "(find_addr m x < length m \<and> covers (fst (m ! find_addr m x)) x) \<or>
         (find_addr m x = length m \<and> (\<forall>e\<in>set m. \<not> covers (fst e) x))"
proof -
  obtain P H S where m: "m = P @ H @ S"
    and P: "\<forall>e\<in>set P. rng_hi (fst e) < x"
    and H: "\<forall>e\<in>set H. overlaps (fst e) (AddrRange x x)"
    and S: "\<forall>e\<in>set S. x < rng_lo (fst e)"
    using hit_split [OF inv order_refl] by blast
  have ub: "upper_bound m (AddrRange x x) = length P + length H"
  proof -
    have "\<forall>e\<in>set H. \<not> AddrRange x x < fst e"
      using H by (auto simp: overlaps_def range_less)
    then have "upper_bound H (AddrRange x x) = length H"
      by (simp only: upper_bound_def takeWhile_eq_all_conv [THEN iffD2])
    then show ?thesis
      using upper_bound_split [of P H S x x x] inv P S m by simp
  qed
  show ?thesis
  proof (cases "H = []")
    case True
    have "\<forall>e\<in>set m. \<not> covers (fst e) x"
      using P S True by (auto simp: m covers_def)
    moreover have "find_addr m x = length m"
      using ub True P by (cases P rule: rev_cases) (auto simp: find_addr_def Let_def m nth_append)
    ultimately show ?thesis by blast
  next
    case False
    then have "m ! (length P + length H - 1) = last H"
      by (cases H rule: rev_cases) (auto simp: m nth_append)
    moreover have "covers (fst (last H)) x"
      using H False by (auto simp: overlaps_def covers_def)
    ultimately have "find_addr m x = length P + length H - 1 \<and> covers (fst (m ! (length P + length H - 1))) x"
      using ub False by (auto simp: find_addr_def covers_def m)
    moreover have "length P + length H - 1 < length m"
      using False by (cases H) (auto simp: m)
    ultimately show ?thesis by simp
  qed
qed

text \<open>At most one entry covers an address, so the entry \<open>find\<close> returns is the one.\<close>

lemma disjoint_sorted_unique:
  assumes "disjoint_sorted m" and "i < length m" and "j < length m"
    and "covers (fst (m ! i)) x" and "covers (fst (m ! j)) x"
  shows "i = j"
proof -
  have "\<not> i < j" if "covers (fst (m ! i)) x" "covers (fst (m ! j)) x" "j < length m" for i j
    using that assms(1) sorted_wrt_nth_less[of "\<lambda>e f. rng_hi (fst e) < rng_lo (fst f)" m i j]
    by (fastforce simp: disjoint_sorted_def covers_def)
  then show ?thesis using assms by (metis nat_neq_iff)
qed

lemma find_addr_eq:
  assumes "disjoint_sorted m" and "i < length m" and "covers (fst (m ! i)) x"
  shows "find_addr m x = i"
  using find_addr_correct [OF assms(1), of x] disjoint_sorted_unique [OF assms(1)] assms(2,3)
  by (metis nth_mem)

text \<open>\<open>EmplaceDisjoint\<close> inserts exactly when no range is in the way.\<close>

lemma EmplaceDisjoint_clash:
  assumes inv: "disjoint_sorted m" and le: "mn \<le> mx"
    and hit: "\<exists>e\<in>set m. overlaps (fst e) (AddrRange mn mx)"
  shows "\<exists>r v. (r, v) \<in> set m \<and> overlaps r (AddrRange mn mx) \<and>
           EmplaceDisjoint mn mx val m = Inr (m, Some v)"
proof -
  obtain P H S where m: "m = P @ H @ S"
    and P: "\<forall>e\<in>set P. rng_hi (fst e) < mn"
    and H: "\<forall>e\<in>set H. overlaps (fst e) (AddrRange mn mx)"
    and S: "\<forall>e\<in>set S. mx < rng_lo (fst e)"
    using hit_split [OF inv le] by blast
  define k where "k = upper_bound m (AddrRange mn mx)"
  define h where "h = upper_bound H (AddrRange mn mx)"
  have k: "k = length P + h" "h \<le> length H"
    using upper_bound_split[of P H S mn mx mx] inv le P S m
    by (auto simp: k_def h_def upper_bound_def length_takeWhile_le)
  have "H \<noteq> []"
    using hit P S by (auto simp: m overlaps_def)
  show ?thesis
  proof (cases "h < length H")
    case True
    then have mem: "m ! k \<in> set H" "k < length m"
      by (auto simp: m k nth_append)
    then have "rng_lo (fst (m ! k)) \<le> mx" using H by (auto simp: overlaps_def)
    then have "EmplaceDisjoint mn mx val m = Inr (m, Some (snd (m ! k)))"
      using mem le by (auto simp: EmplaceDisjoint_def Let_def k_def [symmetric])
    then show ?thesis
      using mem H nth_mem [OF mem(2)] by (metis prod.collapse)
  next
    case False
    then have h: "h = length H" using k by simp
    have nl: "\<not> (k < length m \<and> rng_lo (fst (m ! k)) \<le> mx)"
      using S by (cases S) (auto simp: m k h nth_append)
    have mem: "m ! (k - 1) \<in> set H" "k \<noteq> 0" "k - 1 < length m"
      using \<open>H \<noteq> []\<close> by (cases H rule: rev_cases; auto simp: m k h nth_append)+
    then have "mn \<le> rng_hi (fst (m ! (k - 1)))" using H by (auto simp: overlaps_def)
    then have "EmplaceDisjoint mn mx val m = Inr (m, Some (snd (m ! (k - 1))))"
      using mem le nl by (auto simp: EmplaceDisjoint_def Let_def k_def [symmetric])
    then show ?thesis
      using mem H nth_mem [OF mem(3)] by (metis prod.collapse)
  qed
qed

lemma EmplaceDisjoint_free:
  assumes inv: "disjoint_sorted m" and le: "mn \<le> mx"
    and free: "\<forall>e\<in>set m. \<not> overlaps (fst e) (AddrRange mn mx)"
  shows "\<exists>m'. EmplaceDisjoint mn mx val m = Inr (m', None) \<and> disjoint_sorted m' \<and>
           set m' = insert (AddrRange mn mx, val) (set m)"
proof -
  obtain P H S where m: "m = P @ H @ S"
    and P: "\<forall>e\<in>set P. rng_hi (fst e) < mn"
    and "\<forall>e\<in>set H. overlaps (fst e) (AddrRange mn mx)"
    and S: "\<forall>e\<in>set S. mx < rng_lo (fst e)"
    using hit_split [OF inv le] by blast
  then have H: "H = []" using free by (cases H) auto
  have k: "upper_bound m (AddrRange mn mx) = length P"
    using upper_bound_split[of P "[]" S mn mx mx] inv le P S m H by (simp add: upper_bound_def)
  have "map_insert (AddrRange mn mx) val (P @ S) = P @ (AddrRange mn mx, val) # S"
  proof (rule map_insert_mid)
    show "\<forall>e\<in>set P. fst e < AddrRange mn mx"
      using inv P by (auto simp: m range_less disjoint_sorted_append
        dest!: disjoint_sorted_valid intro: le_less_trans)
    show "\<forall>e\<in>set S. AddrRange mn mx < fst e"
      using S le by (auto simp: range_less)
  qed
  then have ins: "map_insert (AddrRange mn mx) val m = P @ (AddrRange mn mx, val) # S"
    by (simp add: m H)
  have right: "\<not> (length P < length m \<and> rng_lo (fst (m ! length P)) \<le> mx)"
    using S by (cases S) (auto simp: m H nth_append)
  have left: "\<not> (length P \<noteq> 0 \<and> mn \<le> rng_hi (fst (m ! (length P - 1))))"
    using P by (cases P rule: rev_cases) (auto simp: m H nth_append)
  have "EmplaceDisjoint mn mx val m = Inr (P @ (AddrRange mn mx, val) # S, None)"
    using le left right by (auto simp: EmplaceDisjoint_def Let_def k ins)
  moreover have "disjoint_sorted (P @ (AddrRange mn mx, val) # S)"
    using inv le P S by (auto simp: m H disjoint_sorted_append disjoint_sorted_Cons)
  ultimately show ?thesis by (auto simp: m H)
qed

section \<open>\<open>Emplace\<close> as an overlay of contents\<close>

text \<open>
  The meaning of a map whose values describe the contents of their range: \<open>cell r v\<close> gives the
  datum that value \<open>v\<close> puts at each address of range \<open>r\<close>.
\<close>

fun contents :: "('a addr_range \<Rightarrow> 'v \<Rightarrow> 'a \<Rightarrow> 'b option) \<Rightarrow> ('a, 'v) ranged_map \<Rightarrow> 'a \<Rightarrow> 'b option" where
  "contents cell [] = Map.empty"
| "contents cell (e # m) = contents cell m ++ cell (fst e) (snd e)"

lemma contents_append: "contents cell (xs @ ys) = contents cell ys ++ contents cell xs"
  by (induction xs) (auto simp: map_add_assoc)

text \<open>The foldM over indices is a foldM over the entries between them.\<close>

lemma foldM_entries:
  "foldM (\<lambda>it. f ((P @ H @ S) ! it)) [length P..<length P + length H] s = foldM f H s"
proof (induction H arbitrary: P s)
  case (Cons e H)
  let ?g = "\<lambda>it. f ((P @ (e # H) @ S) ! it)"
  have "foldM ?g [Suc (length P)..<length P + length (e # H)] = foldM f H"
    using Cons [of "P @ [e]"] by (intro ext) (simp del: upt_Suc)
  moreover have "[length P..<length P + length (e # H)] =
      length P # [Suc (length P)..<length P + length (e # H)]"
    by (simp add: upt_conv_Cons del: upt_Suc)
  ultimately show ?case by simp
qed simp

text \<open>
  The contract \<open>RangedMap\<close> has with its client: the client's merge function, called on two
  overlapping ranges, returns a value for their hull whose contents are those of the newer value
  laid over those of the older one.
\<close>

locale segment_merge =
  fixes merge :: "('a::linorder, 'v) merge_fun"
    and seg_ok :: "'a addr_range \<Rightarrow> 'v \<Rightarrow> bool"
    and cell :: "'a addr_range \<Rightarrow> 'v \<Rightarrow> 'a \<Rightarrow> 'b option"
  assumes cell_dom: "seg_ok r v \<Longrightarrow> dom (cell r v) = {rng_lo r..rng_hi r}"
    and merge_law: "seg_ok r0 v0 \<Longrightarrow> seg_ok r1 v1 \<Longrightarrow> rng_lo r0 \<le> rng_hi r0 \<Longrightarrow> rng_lo r1 \<le> rng_hi r1 \<Longrightarrow>
      overlaps r0 r1 \<Longrightarrow>
      \<exists>v. merge r0 v0 r1 v1 = Inr v \<and> seg_ok (hull r0 r1) v \<and>
          cell (hull r0 r1) v = cell r0 v0 ++ cell r1 v1"
begin

lemma merge_loop:
  assumes "list_all (\<lambda>e. seg_ok (fst e) (snd e)) H" and "list_all (\<lambda>e. rng_lo (fst e) \<le> rng_hi (fst e)) H"
    and "list_all (\<lambda>e. overlaps (fst e) (AddrRange mn mx)) H"
    and "seg_ok (AddrRange mn mx) v" and "mn \<le> mx"
  shows "\<exists>lo hi acc. foldM (merge_step merge) H (mn, mx, v) = Inr (lo, hi, acc) \<and>
           seg_ok (AddrRange lo hi) acc \<and>
           cell (AddrRange lo hi) acc = contents cell H ++ cell (AddrRange mn mx) v \<and>
           lo \<le> mn \<and> mx \<le> hi \<and>
           (lo = mn \<or> lo \<in> (rng_lo \<circ> fst) ` set H) \<and> (hi = mx \<or> hi \<in> (rng_hi \<circ> fst) ` set H)"
  using assms
proof (induction H arbitrary: mn mx v)
  case (Cons e H)
  let ?mn = "min mn (rng_lo (fst e))" and ?mx = "max mx (rng_hi (fst e))"
  have hull: "hull (fst e) (AddrRange mn mx) = AddrRange ?mn ?mx"
    by (simp add: hull_def min.commute max.commute)
  obtain v' where v': "merge (fst e) (snd e) (AddrRange mn mx) v = Inr v'"
      "seg_ok (AddrRange ?mn ?mx) v'"
      "cell (AddrRange ?mn ?mx) v' = cell (fst e) (snd e) ++ cell (AddrRange mn mx) v"
    using merge_law [of "fst e" "snd e" "AddrRange mn mx" v] Cons.prems hull by auto
  have step: "merge_step merge e (mn, mx, v) = Inr (?mn, ?mx, v')"
    by (simp add: merge_step_def v')
  have "list_all (\<lambda>e. overlaps (fst e) (AddrRange ?mn ?mx)) H"
    using Cons.prems(3) by (auto simp: list_all_iff overlaps_def min_le_iff_disj le_max_iff_disj)
  moreover have "?mn \<le> ?mx" using Cons.prems(5) by (simp add: min_le_iff_disj le_max_iff_disj)
  ultimately obtain lo hi acc where IH:
      "foldM (merge_step merge) H (?mn, ?mx, v') = Inr (lo, hi, acc)" "seg_ok (AddrRange lo hi) acc"
      "cell (AddrRange lo hi) acc = contents cell H ++ cell (AddrRange ?mn ?mx) v'"
      "lo \<le> ?mn" "?mx \<le> hi" "lo = ?mn \<or> lo \<in> (rng_lo \<circ> fst) ` set H"
      "hi = ?mx \<or> hi \<in> (rng_hi \<circ> fst) ` set H"
    using Cons.IH [OF _ _ _ v'(2)] Cons.prems by auto
  have "lo = mn \<or> lo \<in> (rng_lo \<circ> fst) ` set (e # H)" "hi = mx \<or> hi \<in> (rng_hi \<circ> fst) ` set (e # H)"
    using IH(6,7) by (auto simp: min_def max_def split: if_splits)
  then show ?case using IH v'(3) by (auto simp: step map_add_assoc)
qed simp

lemma contents_dom:
  assumes "list_all (\<lambda>e. seg_ok (fst e) (snd e)) m"
  shows "dom (contents cell m) = {x. \<exists>e\<in>set m. covers (fst e) x}"
  using assms by (induction m) (auto simp: cell_dom covers_def)

text \<open>\<open>Emplace\<close> never faults on such a map; it keeps the invariant and lays the new value over what
  the map held.\<close>

lemma Emplace_overlay:
  assumes inv: "disjoint_sorted m" and oks: "list_all (\<lambda>e. seg_ok (fst e) (snd e)) m"
    and le: "mn \<le> mx" and new: "seg_ok (AddrRange mn mx) v"
  shows "\<exists>m'. Emplace merge mn mx v m = Inr m' \<and> disjoint_sorted m' \<and>
           list_all (\<lambda>e. seg_ok (fst e) (snd e)) m' \<and>
           contents cell m' = contents cell m ++ cell (AddrRange mn mx) v"
proof -
  obtain P H S where m: "m = P @ H @ S"
    and P: "\<forall>e\<in>set P. rng_hi (fst e) < mn"
    and H: "\<forall>e\<in>set H. overlaps (fst e) (AddrRange mn mx)"
    and S: "\<forall>e\<in>set S. mx < rng_lo (fst e)"
    using hit_split [OF inv le] by blast
  have hb: "hit_bounds m mn mx = (length P, length P + length H)"
    by (rule hit_bounds_split [OF inv m le P H S])
  have val: "\<forall>e\<in>set m. rng_lo (fst e) \<le> rng_hi (fst e)"
    using disjoint_sorted_valid [OF inv] by blast
  obtain lo hi acc where loop:
      "foldM (merge_step merge) H (mn, mx, v) = Inr (lo, hi, acc)" "seg_ok (AddrRange lo hi) acc"
      "cell (AddrRange lo hi) acc = contents cell H ++ cell (AddrRange mn mx) v"
      "lo \<le> mn" "mx \<le> hi" "lo = mn \<or> lo \<in> (rng_lo \<circ> fst) ` set H"
      "hi = mx \<or> hi \<in> (rng_hi \<circ> fst) ` set H"
    using merge_loop [of H mn mx v] oks val H new le by (auto simp: m list_all_iff)
  have PH: "\<forall>e\<in>set P. \<forall>f\<in>set H. rng_hi (fst e) < rng_lo (fst f)"
    and HS: "\<forall>e\<in>set H. \<forall>f\<in>set S. rng_hi (fst e) < rng_lo (fst f)"
    using inv by (auto simp: m disjoint_sorted_append)
  have Plo: "\<forall>e\<in>set P. rng_hi (fst e) < lo" using loop(6) P PH by auto
  have Shi: "\<forall>e\<in>set S. hi < rng_lo (fst e)" using loop(7) S HS by auto
  have lohi: "lo \<le> hi" using loop(4,5) le by order
  let ?m' = "P @ (AddrRange lo hi, acc) # S"
  have "map_insert (AddrRange lo hi) acc (P @ S) = ?m'"
  proof (rule map_insert_mid)
    show "\<forall>e\<in>set P. fst e < AddrRange lo hi"
      using val Plo by (auto simp: m range_less intro: le_less_trans)
    show "\<forall>e\<in>set S. AddrRange lo hi < fst e"
      using lohi Shi by (auto simp: range_less intro: le_less_trans)
  qed
  moreover have "H = [] \<Longrightarrow> lo = mn \<and> hi = mx \<and> acc = v"
    using loop(1) by simp
  moreover have "foldM (\<lambda>it. merge_step merge (m ! it)) [length P..<length P + length H] (mn, mx, v) =
      Inr (lo, hi, acc)"
    using loop(1) by (simp only: m foldM_entries)
  moreover have "map_erase m (length P) (length P + length H) = P @ S"
    by (simp add: map_erase_def m)
  moreover have "H = [] \<Longrightarrow> m = P @ S"
    by (simp add: m)
  ultimately have "Emplace merge mn mx v m = Inr ?m'"
    using le hb by (cases "H = []") (simp_all add: Emplace_def)
  moreover have "disjoint_sorted ?m'"
    using inv Plo Shi lohi by (auto simp: m disjoint_sorted_append disjoint_sorted_Cons)
  moreover have "list_all (\<lambda>e. seg_ok (fst e) (snd e)) ?m'"
    using oks loop(2) by (auto simp: m)
  moreover have "contents cell P ++ cell (AddrRange mn mx) v = cell (AddrRange mn mx) v ++ contents cell P"
  proof (rule map_add_comm)
    have "\<not> covers (fst e) x" if "e \<in> set P" "mn \<le> x" for e x
      using P that by (force simp: covers_def)
    then show "dom (contents cell P) \<inter> dom (cell (AddrRange mn mx) v) = {}"
      using oks by (auto simp: m contents_dom cell_dom [OF new])
  qed
  then have "contents cell ?m' = contents cell m ++ cell (AddrRange mn mx) v"
    by (simp add: m contents_append loop(3)) (metis map_add_assoc)
  ultimately show ?thesis by blast
qed

end

section \<open>Properties\<close>

text \<open>C18: \<open>EmplaceDisjoint\<close> never faults on a map of disjoint ranges.  It returns a null pointer
  exactly when no range of the map overlaps the new one, and then the new entry is added and the map
  stays ordered and disjoint; otherwise it returns the value of an overlapping entry and leaves the
  map as it was.\<close>

theorem emplace_disjoint_spec:
  assumes "disjoint_sorted m" and "mn \<le> mx"
  shows "case EmplaceDisjoint mn mx val m of
      Inl _ \<Rightarrow> False
    | Inr (m', None) \<Rightarrow> (\<forall>e\<in>set m. \<not> overlaps (fst e) (AddrRange mn mx)) \<and> disjoint_sorted m' \<and>
        set m' = insert (AddrRange mn mx, val) (set m)
    | Inr (m', Some v) \<Rightarrow> m' = m \<and> (\<exists>r. (r, v) \<in> set m \<and> overlaps r (AddrRange mn mx))"
proof (cases "\<exists>e\<in>set m. overlaps (fst e) (AddrRange mn mx)")
  case True
  from EmplaceDisjoint_clash [OF assms True, of val] show ?thesis by auto
next
  case False
  then have free: "\<forall>e\<in>set m. \<not> overlaps (fst e) (AddrRange mn mx)" by blast
  from EmplaceDisjoint_free [OF assms free, of val] free show ?thesis by auto
qed

theorem emplace_disjoint_spec_witness:
  "case EmplaceDisjoint (5 :: nat) 6 True [(AddrRange 1 3, False)] of
      Inl _ \<Rightarrow> False
    | Inr (m', None) \<Rightarrow> (\<forall>e\<in>set [(AddrRange (1 :: nat) 3, False)]. \<not> overlaps (fst e) (AddrRange 5 6)) \<and>
        disjoint_sorted m' \<and> set m' = insert (AddrRange 5 6, True) (set [(AddrRange 1 3, False)])
    | Inr (m', Some v) \<Rightarrow> m' = [(AddrRange 1 3, False)] \<and>
        (\<exists>r. (r, v) \<in> set [(AddrRange (1 :: nat) 3, False)] \<and> overlaps r (AddrRange 5 6))"
  by (rule emplace_disjoint_spec) (simp_all add: disjoint_sorted_def)

text \<open>In a map of disjoint ranges \<open>find\<close> returns the one entry whose range holds the address,
  and the end of the map when there is none.\<close>

theorem find_addr_spec:
  assumes "disjoint_sorted m"
  shows "find_addr m x = (if \<exists>e\<in>set m. covers (fst e) x
    then (LEAST i. i < length m \<and> covers (fst (m ! i)) x) else length m)"
proof (cases "\<exists>e\<in>set m. covers (fst e) x")
  case True
  then obtain i where i: "i < length m" "covers (fst (m ! i)) x" by (metis in_set_conv_nth)
  have "(LEAST i. i < length m \<and> covers (fst (m ! i)) x) = i"
    using i disjoint_sorted_unique [OF assms] by (intro Least_equality) auto
  then show ?thesis using True find_addr_eq [OF assms i] by simp
next
  case False
  then show ?thesis using find_addr_correct [OF assms, of x] by (metis nth_mem)
qed

theorem find_addr_spec_witness:
  "find_addr [(AddrRange (1 :: nat) 3, True)] 2 = (if \<exists>e\<in>set [(AddrRange (1 :: nat) 3, True)]. covers (fst e) 2
    then (LEAST i. i < length [(AddrRange (1 :: nat) 3, True)] \<and> covers (fst ([(AddrRange (1 :: nat) 3, True)] ! i)) 2)
    else length [(AddrRange (1 :: nat) 3, True)])"
  by (rule find_addr_spec) (simp add: disjoint_sorted_def)

end
