(* ===== verification/Bytes.thy ===== *)
theory Bytes
  imports Outcome
begin

unbundle bit_operations_syntax

text \<open>
  Byte vectors: \<open>std::vector<uint8_t>\<close> and \<open>uint8_t *\<close> buffers are lists of bytes.  The theory
  models the library calls that move bytes (\<open>memcpy\<close> and \<open>resize\<close>), reads a vector as a string of
  bits, least significant bit of the first byte first, and holds the lemmas on both.
\<close>

section \<open>Moving bytes\<close>

text \<open>\<open>memcpy(&dst[off], &src[src_off], n)\<close>; outside either vector it is undefined.\<close>

definition vec_copy :: "u8 list \<Rightarrow> nat \<Rightarrow> u8 list \<Rightarrow> nat \<Rightarrow> nat \<Rightarrow> u8 list res" where
  "vec_copy dst off src src_off n =
     (if off + n \<le> length dst \<and> src_off + n \<le> length src
      then Inr (take off dst @ take n (drop src_off src) @ drop (off + n) dst)
      else Inl Undefined)"

text \<open>\<open>v.resize(n)\<close>: cut off or padded with zeros.\<close>

definition vec_resize :: "u8 list \<Rightarrow> nat \<Rightarrow> u8 list" where
  "vec_resize v n = take n v @ replicate (n - length v) 0"

lemma length_vec_resize [simp]: "length (vec_resize v n) = n"
  by (simp add: vec_resize_def)

lemma nth_vec_resize: "i < n \<Longrightarrow> vec_resize v n ! i = (if i < length v then v ! i else 0)"
  by (simp add: vec_resize_def nth_append)

lemma vec_copy_Inr:
  "off + n \<le> length dst \<Longrightarrow> src_off + n \<le> length src \<Longrightarrow>
   \<exists>v. vec_copy dst off src src_off n = Inr v \<and> length v = length dst \<and>
       (\<forall>i<length dst. v ! i = (if off \<le> i \<and> i < off + n then src ! (src_off + (i - off)) else dst ! i))"
  by (auto simp: vec_copy_def nth_append)

lemma vec_copy_InrD:
  assumes "vec_copy dst off src src_off n = Inr v"
  shows "length v = length dst"
    and "i < length dst \<Longrightarrow> v ! i = (if off \<le> i \<and> i < off + n then src ! (src_off + (i - off)) else dst ! i)"
  using assms by (auto simp: vec_copy_def nth_append split: if_splits)

section \<open>Byte vectors as bit strings\<close>

definition vbit :: "u8 list \<Rightarrow> nat \<Rightarrow> bool" where
  "vbit v i = bit (v ! (i div 8)) (i mod 8)"

lemma vbit_ext:
  assumes len: "length v = length w" and bits: "\<And>i. i < 8 * length v \<Longrightarrow> vbit v i = vbit w i"
  shows "v = w"
proof (rule nth_equalityI [OF len])
  fix k
  assume k: "k < length v"
  show "v ! k = w ! k"
  proof (rule bit_word_eqI)
    fix n :: nat
    assume "n < LENGTH(8)"
    then have n: "n < 8" by simp
    have "vbit v (8 * k + n) = vbit w (8 * k + n)"
      using k n by (intro bits) simp
    then show "bit (v ! k) n = bit (w ! k) n"
      using n by (simp add: vbit_def)
  qed
qed

lemma vbit_split: "n < 8 \<Longrightarrow> vbit v (8 * k + n) = bit (v ! k) n"
  by (simp add: vbit_def)

lemma vbit_append:
  "i < 8 * (length v + length w) \<Longrightarrow>
   vbit (v @ w) i = (if i < 8 * length v then vbit v i else vbit w (i - 8 * length v))"
proof (cases "i < 8 * length v")
  case False
  then obtain j where "i = 8 * length v + j" using le_Suc_ex not_less by blast
  then show ?thesis by (simp add: vbit_def nth_append)
qed (simp add: vbit_def nth_append div_less_iff_less_mult)

lemma vbit_take: "i < 8 * n \<Longrightarrow> vbit (take n v) i = vbit v i"
  by (simp add: vbit_def div_less_iff_less_mult)

lemma vbit_replicate_0: "i < 8 * n \<Longrightarrow> \<not> vbit (replicate n 0) i"
  by (simp add: vbit_def div_less_iff_less_mult)

lemma vbit_map2_xor:
  "i < 8 * length v \<Longrightarrow> length w = length v \<Longrightarrow>
   vbit (map2 (XOR) v w) i = (vbit v i \<noteq> vbit w i)"
  by (simp add: vbit_def bit_xor_iff div_less_iff_less_mult)

text \<open>The vector of \<open>n\<close> bytes with given bits.\<close>

definition byte_of :: "(nat \<Rightarrow> bool) \<Rightarrow> u8" where
  "byte_of f = horner_sum of_bool 2 (map f [0..<8])"

definition vec_of :: "nat \<Rightarrow> (nat \<Rightarrow> bool) \<Rightarrow> u8 list" where
  "vec_of n f = map (\<lambda>k. byte_of (\<lambda>j. f (8 * k + j))) [0..<n]"

lemma bit_byte_of: "n < 8 \<Longrightarrow> bit (byte_of f) n = f n"
  by (simp add: byte_of_def bit_horner_sum_bit_word_iff del: upt_Suc)

lemma length_vec_of [simp]: "length (vec_of n f) = n"
  by (simp add: vec_of_def)

lemma vbit_vec_of: "i < 8 * n \<Longrightarrow> vbit (vec_of n f) i = f i"
  by (simp add: vbit_def vec_of_def bit_byte_of div_less_iff_less_mult)

lemma vec_of_vbit: "vec_of (length v) (vbit v) = v"
  by (rule vbit_ext) (simp_all add: vbit_vec_of)

lemma eq_vec_of:
  "length v = n \<Longrightarrow> (\<And>i. i < 8 * n \<Longrightarrow> vbit v i = f i) \<Longrightarrow> v = vec_of n f"
  by (rule vbit_ext) (simp_all add: vbit_vec_of)

end
