(* ===== verification/Staged_Mem.thy ===== *)
theory Staged_Mem
  imports Ranged_Map Bytes
begin

text \<open>
  \<open>StagedMem\<close> of \<open>dpi_memutil.h\<close> and \<open>dpi_memutil.cc\<close>: the bytes staged for one memory area, as a
  \<open>RangedMap\<close> of disjoint segments, with the smallest and largest offset that holds data.  The
  theory models \<open>MergeSegments\<close>, \<open>AddSegment\<close> and \<open>GetFlat\<close> and shows that they implement an
  abstract memory, a partial map from offsets to bytes on which a new segment is laid over the
  old contents.
\<close>

section \<open>The code\<close>

definition MergeSegments :: "(u32, u8 list) merge_fun" where
  "MergeSegments rng0 seg0 rng1 seg1 =
     (if rng_lo rng1 \<le> rng_lo rng0 \<and> rng_hi rng0 \<le> rng_hi rng1 then Inr seg1
      else
        let new_bot = min (rng_lo rng0) (rng_lo rng1);
            new_top = max (rng_hi rng0) (rng_hi rng1);
            new_len = 1 + unat (new_top - new_bot)
        in
        if \<not> new_bot \<le> new_top then Inl Assert_failed
        else if \<not> length seg0 \<le> new_len then Inl Assert_failed
        else if \<not> length seg1 \<le> new_len then Inl Assert_failed
        else if rng_lo rng1 \<le> rng_lo rng0 then
          if \<not> rng_hi rng1 < rng_hi rng0 then Inl Assert_failed
          else if new_len \<noteq> length seg1 + unat (rng_hi rng0 - rng_hi rng1) then Inl Assert_failed
          else
            let old_len = length seg1; ret = vec_resize seg1 new_len in
            if \<not> rng_lo rng0 \<le> rng_hi rng1 then Inl Assert_failed
            else
              let src_off = 1 + (rng_hi rng1 - rng_lo rng0) in
              if length seg0 \<noteq> unat (src_off + (rng_hi rng0 - rng_hi rng1)) then Inl Assert_failed
              else vec_copy ret old_len seg0 (unat src_off) (unat (rng_hi rng0 - rng_hi rng1))
        else
          let ret = vec_resize seg0 new_len; off = rng_lo rng1 - rng_lo rng0 in
          vec_copy ret (unat off) seg1 0 (length seg1))"

record staged_mem =
  min_addr :: u32
  max_addr :: u32
  segs :: "(u32, u8 list) ranged_map"

definition StagedMem :: staged_mem where
  "StagedMem = \<lparr>min_addr = NOT 0, max_addr = 0, segs = []\<rparr>"

text \<open>\<open>offset + seg.size() - 1\<close> is computed in \<open>size_t\<close> and cut to 32 bits.\<close>

definition AddSegment :: "u32 \<Rightarrow> u8 list \<Rightarrow> staged_mem \<Rightarrow> staged_mem res" where
  "AddSegment offset seg sm =
     (if seg = [] then Inr sm
      else
        let seg_top = word_of_nat (unat offset + length seg - 1) in
        if \<not> offset \<le> seg_top then Inl Assert_failed
        else
          res_bind (Emplace MergeSegments offset seg_top seg (segs sm)) (\<lambda>m.
            Inr \<lparr>min_addr = min (min_addr sm) offset,
                 max_addr = max (max_addr sm) seg_top,
                 segs = m\<rparr>))"

definition flat_step :: "u32 \<Rightarrow> u32 addr_range \<times> u8 list \<Rightarrow> u8 list \<Rightarrow> u8 list res" where
  "flat_step mn pr ret =
     (let rng = fst pr; seg = snd pr in
      if length seg \<noteq> unat (1 + (rng_hi rng - rng_lo rng)) then Inl Assert_failed
      else if \<not> mn \<le> rng_lo rng then Inl Assert_failed
      else
        let off = rng_lo rng - mn in
        if \<not> unat off + length seg \<le> length ret then Inl Assert_failed
        else vec_copy ret (unat off) seg 0 (length seg))"

definition GetFlat :: "staged_mem \<Rightarrow> u8 list res" where
  "GetFlat sm =
     (let len = 1 + unat (max_addr sm - min_addr sm) in
      foldM (flat_step (min_addr sm)) (segs sm) (replicate len 0))"

section \<open>The abstract memory\<close>

type_synonym byte_mem = "u32 \<rightharpoonup> u8"

text \<open>The bytes a segment puts at offsets from \<open>lo\<close> up.\<close>

definition seg_bytes :: "u32 \<Rightarrow> u8 list \<Rightarrow> byte_mem" where
  "seg_bytes lo seg = (\<lambda>x. if lo \<le> x \<and> unat (x - lo) < length seg then Some (seg ! unat (x - lo)) else None)"

definition seg_cell :: "u32 addr_range \<Rightarrow> u8 list \<Rightarrow> byte_mem" where
  "seg_cell r seg = (if rng_lo r \<le> rng_hi r then seg_bytes (rng_lo r) seg else Map.empty)"

text \<open>
  A segment's length matches its range, and it ends below the last 32-bit address.  (On a segment
  of exactly 4 GiB the 32-bit length check of \<open>MergeSegments\<close> would wrap to 0.)
\<close>

definition seg_ok :: "u32 addr_range \<Rightarrow> u8 list \<Rightarrow> bool" where
  "seg_ok r seg \<longleftrightarrow> length seg = 1 + unat (rng_hi r - rng_lo r) \<and> rng_lo r \<le> rng_hi r \<and> rng_hi r < NOT 0"

definition staged_bytes :: "staged_mem \<Rightarrow> byte_mem" where
  "staged_bytes sm = contents seg_cell (segs sm)"

definition staged_inv :: "staged_mem \<Rightarrow> bool" where
  "staged_inv sm \<longleftrightarrow>
     disjoint_sorted (segs sm) \<and> list_all (\<lambda>e. seg_ok (fst e) (snd e)) (segs sm) \<and>
     (if segs sm = [] then min_addr sm = NOT 0 \<and> max_addr sm = 0
      else min_addr sm \<in> dom (staged_bytes sm) \<and> max_addr sm \<in> dom (staged_bytes sm) \<and>
           dom (staged_bytes sm) \<subseteq> {min_addr sm..max_addr sm})"

lemma unat_diff: "(a::u32) \<le> b \<Longrightarrow> unat (b - a) = unat b - unat a"
  by (simp add: unat_sub)

lemma seg_bytes_nat:
  "seg_bytes lo seg x =
     (if unat lo \<le> unat x \<and> unat x < unat lo + length seg then Some (seg ! (unat x - unat lo)) else None)"
  by (auto simp: seg_bytes_def word_le_nat_alt unat_diff)

lemma seg_cell_nat:
  "seg_ok r seg \<Longrightarrow> seg_cell r seg x =
     (if unat (rng_lo r) \<le> unat x \<and> unat x \<le> unat (rng_hi r) then Some (seg ! (unat x - unat (rng_lo r))) else None)"
  by (auto simp: seg_ok_def seg_cell_def seg_bytes_nat unat_diff word_le_nat_alt)

lemma seg_ok_nat:
  "seg_ok r seg \<longleftrightarrow> length seg = 1 + (unat (rng_hi r) - unat (rng_lo r)) \<and>
     unat (rng_lo r) \<le> unat (rng_hi r) \<and> unat (rng_hi r) < 4294967295"
  by (auto simp: seg_ok_def word_le_nat_alt word_less_nat_alt unat_diff unsigned_minus_1_eq_mask mask_eq_exp_minus_1)

section \<open>\<open>MergeSegments\<close> overlays\<close>

lemma unat_hull:
  "unat (rng_lo (hull r s)) = min (unat (rng_lo r)) (unat (rng_lo s))"
  "unat (rng_hi (hull r s)) = max (unat (rng_hi r)) (unat (rng_hi s))"
  by (auto simp: hull_def min_def max_def word_le_nat_alt)

lemma MergeSegments_law:
  fixes r0 r1 :: "u32 addr_range"
  assumes ok0: "seg_ok r0 s0" and ok1: "seg_ok r1 s1" and ov: "overlaps r0 r1"
  shows "\<exists>v. MergeSegments r0 s0 r1 s1 = Inr v \<and> seg_ok (hull r0 r1) v \<and>
             seg_cell (hull r0 r1) v = seg_cell r0 s0 ++ seg_cell r1 s1"
proof -
  define l0 h0 l1 h1 where l0: "l0 = unat (rng_lo r0)" and h0: "h0 = unat (rng_hi r0)"
    and l1: "l1 = unat (rng_lo r1)" and h1: "h1 = unat (rng_hi r1)"
  note [simp] = l0 [symmetric] h0 [symmetric] l1 [symmetric] h1 [symmetric]
  have le: "l0 \<le> h0" "l1 \<le> h1" "h0 < 4294967295" "h1 < 4294967295" "l0 \<le> h1" "l1 \<le> h0"
    and len0: "length s0 = 1 + (h0 - l0)" and len1: "length s1 = 1 + (h1 - l1)"
    using ok0 ok1 ov by (simp_all add: seg_ok_nat overlaps_def word_le_nat_alt)
  have top: "unat (max (rng_hi r0) (rng_hi r1) - min (rng_lo r0) (rng_lo r1)) = max h0 h1 - min l0 l1"
    using le by (subst unat_diff) (auto simp: min_def max_def word_le_nat_alt)
  have *: ?thesis
    if "MergeSegments r0 s0 r1 s1 = Inr v" "length v = 1 + (max h0 h1 - min l0 l1)"
      "\<And>i. i < length v \<Longrightarrow> v ! i = (if l1 \<le> min l0 l1 + i \<and> min l0 l1 + i \<le> h1
         then s1 ! (min l0 l1 + i - l1) else s0 ! (min l0 l1 + i - l0))" for v
  proof -
    note lenv = that(2)
    have okv: "seg_ok (hull r0 r1) v"
      using lenv le by (auto simp: seg_ok_nat unat_hull)
    have "seg_cell (hull r0 r1) v x = (seg_cell r0 s0 ++ seg_cell r1 s1) x" for x
    proof (cases "min l0 l1 \<le> unat x \<and> unat x \<le> max h0 h1")
      case True
      then obtain i where i: "unat x = min l0 l1 + i" using le_Suc_ex by blast
      then have "i < length v" using True lenv by linarith
      then have "v ! i =
          (if l1 \<le> unat x \<and> unat x \<le> h1 then s1 ! (unat x - l1) else s0 ! (unat x - l0))"
        using that(3) [of i] i by simp
      then have "v ! (unat x - min l0 l1) =
          (if l1 \<le> unat x \<and> unat x \<le> h1 then s1 ! (unat x - l1) else s0 ! (unat x - l0))"
        by (simp only: i add_diff_cancel_left')
      moreover have "\<not> (l1 \<le> unat x \<and> unat x \<le> h1) \<Longrightarrow> l0 \<le> unat x \<and> unat x \<le> h0"
        using True le by linarith
      ultimately show ?thesis
        using True by (auto simp: seg_cell_nat [OF okv] seg_cell_nat [OF ok0] seg_cell_nat [OF ok1] unat_hull map_add_def)
    next
      case False
      then have "\<not> (l0 \<le> unat x \<and> unat x \<le> h0)" "\<not> (l1 \<le> unat x \<and> unat x \<le> h1)"
        by linarith+
      then show ?thesis using False
        by (simp add: seg_cell_nat [OF okv] seg_cell_nat [OF ok0] seg_cell_nat [OF ok1] unat_hull map_add_def)
    qed
    then show ?thesis using that(1) okv by blast
  qed
  consider (inside) "l1 \<le> l0" "h0 \<le> h1" | (right) "l1 \<le> l0" "h1 < h0" | (left) "l0 < l1"
    by linarith
  then show ?thesis
  proof cases
    case inside
    then show ?thesis
      using le len1 by (intro *[of s1]) (auto simp: MergeSegments_def word_le_nat_alt)
  next
    case right
    have so: "unat (1 + (rng_hi r1 - rng_lo r0)) = 1 + (h1 - l0)"
      using le by (simp add: unat_word_ariths unat_diff word_le_nat_alt)
    have d: "unat (rng_hi r0 - rng_hi r1) = h0 - h1"
      using right by (simp add: unat_diff word_le_nat_alt)
    have so': "unat (1 + (rng_hi r0 - rng_lo r0)) = 1 + (h0 - l0)" "unat (rng_hi r0 - rng_lo r1) = h0 - l1"
      using le by (simp_all add: unat_word_ariths unat_diff word_le_nat_alt)
    have mm: "min l0 l1 = l1" "max h0 h1 = h0" using right by auto
    let ?n = "1 + (h0 - l1)"
    obtain v where v: "vec_copy (vec_resize s1 ?n) (length s1) s0 (1 + (h1 - l0)) (h0 - h1) = Inr v"
        "length v = ?n"
        "\<forall>i<?n. v ! i = (if length s1 \<le> i \<and> i < length s1 + (h0 - h1)
            then s0 ! (1 + (h1 - l0) + (i - length s1)) else vec_resize s1 ?n ! i)"
      using vec_copy_Inr [of "length s1" "h0 - h1" "vec_resize s1 ?n" "1 + (h1 - l0)" s0] le len0 len1 right
      by auto
    show ?thesis
    proof (rule * [of v])
      show "MergeSegments r0 s0 r1 s1 = Inr v"
        using v(1) le len0 len1 right
        by (simp add: MergeSegments_def Let_def top mm so so' d word_le_nat_alt word_less_nat_alt)
          (simp add: diff_le_mono diff_le_mono2)
      show "v ! i = (if l1 \<le> min l0 l1 + i \<and> min l0 l1 + i \<le> h1
         then s1 ! (min l0 l1 + i - l1) else s0 ! (min l0 l1 + i - l0))" if "i < length v" for i
      proof (cases "i < length s1")
        case True
        moreover from True have "l1 + i \<le> h1" using len1 le by linarith
        ultimately show ?thesis using that v len1 by (simp add: mm nth_vec_resize)
      next
        case False
        then have "1 + (h1 - l0) + (i - length s1) = l1 + i - l0"
          using le right len1 by linarith
        then show ?thesis using that v(2,3) len1 le right False by (auto simp: mm)
      qed
    qed (use v(2) mm in simp)
  next
    case left
    have d: "unat (rng_lo r1 - rng_lo r0) = l1 - l0"
      using left by (simp add: unat_diff word_le_nat_alt)
    have mm: "min l0 l1 = l0" using left by auto
    let ?n = "1 + (max h0 h1 - l0)"
    have c1: "l1 - l0 + length s1 \<le> ?n" and c2: "length s0 \<le> ?n"
      using len0 len1 le left max.cobounded2[of h1 h0] max.cobounded1[of h0 h1] by linarith+
    have nl: "\<not> rng_lo r1 \<le> rng_lo r0"
      using left by (simp add: word_le_nat_alt)
    have nb: "min (rng_lo r0) (rng_lo r1) \<le> max (rng_hi r0) (rng_hi r1)"
      using le by (simp add: min_le_iff_disj le_max_iff_disj) (simp add: word_le_nat_alt)
    obtain v where v: "vec_copy (vec_resize s0 ?n) (l1 - l0) s1 0 (length s1) = Inr v" "length v = ?n"
        "\<forall>i<?n. v ! i = (if l1 - l0 \<le> i \<and> i < l1 - l0 + length s1
            then s1 ! (0 + (i - (l1 - l0))) else vec_resize s0 ?n ! i)"
      using vec_copy_Inr [of "l1 - l0" "length s1" "vec_resize s0 ?n" 0 s1] c1 by auto
    show ?thesis
    proof (rule * [of v])
      show "MergeSegments r0 s0 r1 s1 = Inr v"
        using v(1) c1 c2 nb nl by (simp only: MergeSegments_def Let_def top mm d) simp
      show "v ! i = (if l1 \<le> min l0 l1 + i \<and> min l0 l1 + i \<le> h1
         then s1 ! (min l0 l1 + i - l1) else s0 ! (min l0 l1 + i - l0))" if "i < length v" for i
      proof (cases "l1 \<le> l0 + i \<and> l0 + i \<le> h1")
        case True
        then have "i - (l1 - l0) = l0 + i - l1" using left by linarith
        then show ?thesis using True that v(2,3) len1 left by (auto simp: mm)
      next
        case False
        then have "\<not> (l1 - l0 \<le> i \<and> i < l1 - l0 + length s1)" using left len1 le by linarith
        moreover have "i < length s0"
          using False that v(2) len0 le left by (auto simp: max_def split: if_splits)
        ultimately show ?thesis using that v(2,3) False by (auto simp: mm nth_vec_resize)
      qed
    qed (use v(2) mm in simp)
  qed
qed

section \<open>The staging area implements the abstract memory\<close>

lemma dom_seg_cell: "seg_ok r seg \<Longrightarrow> dom (seg_cell r seg) = {rng_lo r..rng_hi r}"
  by (auto simp: seg_cell_nat word_le_nat_alt split: if_splits)

interpretation staged: segment_merge MergeSegments seg_ok seg_cell
  by unfold_locales (simp_all add: dom_seg_cell MergeSegments_law)

lemma staged_inv_empty: "staged_inv StagedMem"
  by (simp add: staged_inv_def StagedMem_def)

lemma segs_empty: "segs StagedMem = []"
  by (simp add: StagedMem_def)

lemma staged_bytes_empty: "staged_bytes StagedMem = Map.empty"
  by (simp add: staged_bytes_def StagedMem_def)

text \<open>Segments of which the last byte stays below the last address.\<close>

definition fits32 :: "u32 \<Rightarrow> u8 list \<Rightarrow> bool" where
  "fits32 offset seg \<longleftrightarrow> unat offset + length seg < 2 ^ 32"

lemma extend_bounds:
  fixes a b c d :: "'a::linorder"
  assumes "a \<in> D" and "b \<in> D" and "D \<subseteq> {a..b}" and "c \<le> d"
  shows "min a c \<in> D \<union> {c..d}" and "max b d \<in> D \<union> {c..d}"
    and "D \<union> {c..d} \<subseteq> {min a c..max b d}"
  using assms by (auto simp: min_def max_def) (force dest: subsetD)+

lemma AddSegment_refines:
  assumes inv: "staged_inv sm" and fits: "fits32 offset seg"
  shows "\<exists>sm'. AddSegment offset seg sm = Inr sm' \<and> staged_inv sm' \<and>
           staged_bytes sm' = staged_bytes sm ++ seg_bytes offset seg"
proof (cases "seg = []")
  case True
  then show ?thesis using inv by (auto simp: AddSegment_def seg_bytes_def map_add_def)
next
  case False
  define top :: u32 where "top = word_of_nat (unat offset + length seg - 1)"
  have top: "unat top = unat offset + length seg - 1"
    using fits by (simp add: top_def fits32_def unsigned_of_nat take_bit_nat_eq_self)
  have len: "0 < length seg" using False by simp
  have le: "offset \<le> top" unfolding word_le_nat_alt top using len by linarith
  have okseg: "seg_ok (AddrRange offset top) seg"
    unfolding seg_ok_nat fits32_def top addr_range.sel
    using len fits unfolding fits32_def by (cases "length seg") auto
  have cell: "seg_cell (AddrRange offset top) seg = seg_bytes offset seg"
    using le by (simp add: seg_cell_def)
  obtain m where m: "Emplace MergeSegments offset top seg (segs sm) = Inr m" "disjoint_sorted m"
      "list_all (\<lambda>e. seg_ok (fst e) (snd e)) m"
      "contents seg_cell m = contents seg_cell (segs sm) ++ seg_bytes offset seg"
    using staged.Emplace_overlay [of "segs sm" offset top seg] inv le okseg cell
    by (auto simp: staged_inv_def)
  have dom_seg: "dom (seg_bytes offset seg) = {offset..top}"
    using dom_seg_cell [OF okseg] cell by simp
  let ?sm = "\<lparr>min_addr = min (min_addr sm) offset, max_addr = max (max_addr sm) top, segs = m\<rparr>"
  have bytes: "staged_bytes ?sm = staged_bytes sm ++ seg_bytes offset seg"
    by (simp add: staged_bytes_def m(4))
  have dom: "dom (contents seg_cell m) = dom (staged_bytes sm) \<union> {offset..top}"
    by (simp add: m(4) staged_bytes_def dom_seg Un_commute)
  have "m \<noteq> []"
    using dom le by auto
  moreover have "min_addr ?sm \<in> dom (staged_bytes ?sm) \<and> max_addr ?sm \<in> dom (staged_bytes ?sm) \<and>
     dom (staged_bytes ?sm) \<subseteq> {min_addr ?sm..max_addr ?sm}"
  proof (cases "segs sm = []")
    case True
    then have "staged_bytes sm = Map.empty" by (simp add: staged_bytes_def)
    moreover have "min (- 1) offset = offset" "max 0 top = top"
      by (simp_all add: min_absorb2 max_absorb2)
    ultimately show ?thesis
      using True inv le dom by (simp add: staged_bytes_def [of ?sm] staged_inv_def)
        (simp add: staged_bytes_def)
  next
    case False
    then have "min_addr sm \<in> dom (staged_bytes sm)" "max_addr sm \<in> dom (staged_bytes sm)"
      "dom (staged_bytes sm) \<subseteq> {min_addr sm..max_addr sm}"
      using inv by (simp_all add: staged_inv_def)
    then show ?thesis
      unfolding staged_bytes_def [of ?sm] staged_mem.simps dom using le by (intro conjI extend_bounds)
  qed
  ultimately have "staged_inv ?sm"
    using m by (simp add: staged_inv_def)
  moreover have "AddSegment offset seg sm = Inr ?sm"
    unfolding AddSegment_def Let_def top_def [symmetric] using False le m(1) by simp
  ultimately show ?thesis using bytes by blast
qed

text \<open>A run of \<open>AddSegment\<close> calls, later ones over earlier ones.\<close>

lemma AddSegments_refine:
  assumes "staged_inv sm" and "list_all (\<lambda>(off, seg). fits32 off seg) xs"
  shows "\<exists>sm'. foldM (\<lambda>(off, seg). AddSegment off seg) xs sm = Inr sm' \<and> staged_inv sm' \<and>
           staged_bytes sm' = fold (\<lambda>(off, seg) b. b ++ seg_bytes off seg) xs (staged_bytes sm)"
  using assms
proof (induction xs arbitrary: sm)
  case (Cons x xs)
  obtain off seg where x: "x = (off, seg)" by fastforce
  obtain sm1 where sm1: "AddSegment off seg sm = Inr sm1" "staged_inv sm1"
      "staged_bytes sm1 = staged_bytes sm ++ seg_bytes off seg"
    using AddSegment_refines [of sm off seg] Cons.prems x by auto
  then show ?case using Cons.IH [OF sm1(2)] Cons.prems(2) by (auto simp: x)
qed simp

lemma flat_step_bytes:
  assumes okr: "seg_ok r seg" and mn: "mn \<le> rng_lo r"
    and fit: "unat (rng_hi r) < unat mn + length ret"
  shows "\<exists>ret'. flat_step mn (r, seg) ret = Inr ret' \<and> length ret' = length ret \<and>
     (\<forall>x. mn \<le> x \<longrightarrow> unat (x - mn) < length ret \<longrightarrow>
        ret' ! unat (x - mn) = (case seg_cell r seg x of None \<Rightarrow> ret ! unat (x - mn) | Some b \<Rightarrow> b))"
proof -
  have off: "unat (rng_lo r - mn) = unat (rng_lo r) - unat mn" using mn by (rule unat_diff)
  have lh: "unat mn \<le> unat (rng_lo r)" "unat (rng_lo r) \<le> unat (rng_hi r)" "unat (rng_hi r) < 4294967295"
    and len: "length seg = 1 + (unat (rng_hi r) - unat (rng_lo r))"
    using okr mn by (auto simp: seg_ok_nat word_le_nat_alt)
  have sz: "unat (1 + (rng_hi r - rng_lo r)) = length seg"
    using lh len by (simp add: unat_word_ariths unat_diff word_le_nat_alt)
  have fits: "unat (rng_lo r) - unat mn + length seg \<le> length ret"
    using fit lh len by linarith
  then obtain v where v: "vec_copy ret (unat (rng_lo r - mn)) seg 0 (length seg) = Inr v"
      "length v = length ret"
      "\<And>i. i < length ret \<Longrightarrow> v ! i = (if unat (rng_lo r) - unat mn \<le> i \<and> i < unat (rng_lo r) - unat mn + length seg
          then seg ! (i - (unat (rng_lo r) - unat mn)) else ret ! i)"
    using vec_copy_Inr [of "unat (rng_lo r - mn)" "length seg" ret 0 seg] by (auto simp: off)
  have "v ! unat (x - mn) = (case seg_cell r seg x of None \<Rightarrow> ret ! unat (x - mn) | Some b \<Rightarrow> b)"
    if x: "mn \<le> x" "unat (x - mn) < length ret" for x
  proof -
    have xm: "unat (x - mn) = unat x - unat mn" "unat mn \<le> unat x"
      using x(1) by (simp_all add: unat_diff word_le_nat_alt)
    have "(unat (rng_lo r) - unat mn \<le> unat x - unat mn \<and>
           unat x - unat mn < unat (rng_lo r) - unat mn + length seg) \<longleftrightarrow>
          unat (rng_lo r) \<le> unat x \<and> unat x \<le> unat (rng_hi r)"
      using xm lh len by linarith
    moreover have "unat (rng_lo r) \<le> unat x \<Longrightarrow>
        unat x - unat mn - (unat (rng_lo r) - unat mn) = unat x - unat (rng_lo r)"
      using xm lh by linarith
    ultimately show ?thesis
      using v(3) [OF x(2)] by (simp add: xm seg_cell_nat [OF okr])
  qed
  then show ?thesis
    using v(1,2) sz mn fits by (auto simp: flat_step_def Let_def off)
qed

lemma flat_loop:
  assumes "disjoint_sorted m" and "list_all (\<lambda>e. seg_ok (fst e) (snd e)) m"
    and "\<forall>e\<in>set m. mn \<le> rng_lo (fst e) \<and> unat (rng_hi (fst e)) < unat mn + length ret"
  shows "\<exists>ret'. foldM (flat_step mn) m ret = Inr ret' \<and> length ret' = length ret \<and>
     (\<forall>x. mn \<le> x \<longrightarrow> unat (x - mn) < length ret \<longrightarrow>
        ret' ! unat (x - mn) = (case contents seg_cell m x of None \<Rightarrow> ret ! unat (x - mn) | Some b \<Rightarrow> b))"
  using assms
proof (induction m arbitrary: ret)
  case (Cons e m)
  obtain r seg where e: "e = (r, seg)" by fastforce
  obtain r1 where r1: "flat_step mn e ret = Inr r1" "length r1 = length ret"
     "\<And>x. mn \<le> x \<Longrightarrow> unat (x - mn) < length ret \<Longrightarrow>
        r1 ! unat (x - mn) = (case seg_cell r seg x of None \<Rightarrow> ret ! unat (x - mn) | Some b \<Rightarrow> b)"
    using flat_step_bytes [of r seg mn ret] Cons.prems by (auto simp: e)
  obtain r2 where r2: "foldM (flat_step mn) m r1 = Inr r2" "length r2 = length r1"
     "\<And>x. mn \<le> x \<Longrightarrow> unat (x - mn) < length r1 \<Longrightarrow>
        r2 ! unat (x - mn) = (case contents seg_cell m x of None \<Rightarrow> r1 ! unat (x - mn) | Some b \<Rightarrow> b)"
    using Cons.IH [of r1] Cons.prems r1(2) by (auto simp: disjoint_sorted_Cons)
  have "dom (seg_cell r seg) \<inter> dom (contents seg_cell m) = {}"
  proof -
    have "\<not> covers (fst f) x" if "x \<le> rng_hi r" "f \<in> set m" for f x
      using that Cons.prems(1) by (force simp: e disjoint_sorted_Cons covers_def)
    then show ?thesis
      using Cons.prems(2) by (auto simp: e staged.contents_dom dom_seg_cell)
  qed
  then have "contents seg_cell (e # m) = seg_cell r seg ++ contents seg_cell m"
    by (simp add: e map_add_comm Int_commute)
  then show ?case
    using r1 r2 by (auto simp: map_add_def split: option.splits)
qed simp

text \<open>\<open>GetFlat\<close> returns every byte from the smallest to the largest staged offset, gaps as zeros.\<close>

lemma GetFlat_bytes:
  assumes inv: "staged_inv sm" and ne: "segs sm \<noteq> []"
  shows "\<exists>bs. GetFlat sm = Inr bs \<and> length bs = 1 + unat (max_addr sm - min_addr sm) \<and>
     (\<forall>x. min_addr sm \<le> x \<and> x \<le> max_addr sm \<longrightarrow>
        bs ! unat (x - min_addr sm) = (case staged_bytes sm x of None \<Rightarrow> 0 | Some b \<Rightarrow> b))"
proof -
  let ?mn = "min_addr sm" and ?mx = "max_addr sm"
  have oks: "disjoint_sorted (segs sm)" "list_all (\<lambda>e. seg_ok (fst e) (snd e)) (segs sm)"
    and dom: "dom (staged_bytes sm) \<subseteq> {?mn..?mx}" "?mn \<in> dom (staged_bytes sm)"
    using inv ne by (auto simp: staged_inv_def)
  then have le: "?mn \<le> ?mx" by auto
  have bound: "?mn \<le> rng_lo (fst e) \<and> rng_hi (fst e) \<le> ?mx" if "e \<in> set (segs sm)" for e
  proof -
    have "rng_lo (fst e) \<in> dom (staged_bytes sm)" "rng_hi (fst e) \<in> dom (staged_bytes sm)"
      using that disjoint_sorted_valid [OF oks(1) that]
      unfolding staged_bytes_def staged.contents_dom [OF oks(2)] by (auto simp: covers_def intro!: bexI [of _ e])
    then show ?thesis using dom(1) by auto
  qed
  have len: "unat ?mx < unat ?mn + (1 + unat (?mx - ?mn))"
    using le by (simp add: unat_diff word_le_nat_alt)
  obtain bs where "foldM (flat_step ?mn) (segs sm) (replicate (1 + unat (?mx - ?mn)) 0) = Inr bs"
     "length bs = 1 + unat (?mx - ?mn)"
     "\<And>x. ?mn \<le> x \<Longrightarrow> unat (x - ?mn) < 1 + unat (?mx - ?mn) \<Longrightarrow>
        bs ! unat (x - ?mn) = (case staged_bytes sm x of None \<Rightarrow> replicate (1 + unat (?mx - ?mn)) 0 ! unat (x - ?mn) | Some b \<Rightarrow> b)"
    using flat_loop [of "segs sm" ?mn "replicate (1 + unat (?mx - ?mn)) 0"] oks bound len
    by (fastforce simp: staged_bytes_def word_le_nat_alt)
  moreover have "unat (x - ?mn) < 1 + unat (?mx - ?mn)" if "?mn \<le> x" "x \<le> ?mx" for x
    using that le by (simp add: unat_diff word_le_nat_alt)
  ultimately show ?thesis
    by (auto simp: GetFlat_def Let_def nth_replicate split: option.splits simp del: replicate_Suc)
qed

section \<open>Aligned segments\<close>

text \<open>Segments that start at a multiple of \<open>w\<close>, and with \<open>full\<close> also end at one, keep doing so when
  overlapping ones are merged.\<close>

definition aligned_seg :: "nat \<Rightarrow> bool \<Rightarrow> u32 addr_range \<Rightarrow> u8 list \<Rightarrow> bool" where
  "aligned_seg w full r seg \<longleftrightarrow> seg_ok r seg \<and> unat (rng_lo r) mod w = 0 \<and> (full \<longrightarrow> length seg mod w = 0)"

lemma aligned_hull:
  assumes "aligned_seg w full r0 s0" and "aligned_seg w full r1 s1" and "seg_ok (hull r0 r1) v"
  shows "aligned_seg w full (hull r0 r1) v"
proof -
  have lo: "unat (rng_lo (hull r0 r1)) mod w = 0"
    using assms(1,2) by (simp add: aligned_seg_def unat_hull min_def)
  have "length v mod w = 0" if full
  proof -
    have len: "length s = Suc (unat (rng_hi r)) - unat (rng_lo r)" "unat (rng_lo r) \<le> unat (rng_hi r)" if "seg_ok r s" for r s
      using that by (auto simp: seg_ok_nat)
    have dvd: "w dvd Suc (unat (rng_hi r))" if "aligned_seg w full r s" for r s
    proof -
      have "w dvd length s + unat (rng_lo r)" using that \<open>full\<close> by (simp add: aligned_seg_def mod_eq_0_iff_dvd)
      moreover have "length s + unat (rng_lo r) = Suc (unat (rng_hi r))" using len [of r s] that by (simp add: aligned_seg_def)
      ultimately show ?thesis by simp
    qed
    have "w dvd Suc (unat (rng_hi (hull r0 r1)))"
      using dvd [OF assms(1)] dvd [OF assms(2)] by (simp add: unat_hull max_def)
    then have "w dvd Suc (unat (rng_hi (hull r0 r1))) - unat (rng_lo (hull r0 r1))"
      using lo by (intro dvd_diff_nat) (simp_all add: mod_eq_0_iff_dvd)
    then show ?thesis using len [OF assms(3)] by (simp add: mod_eq_0_iff_dvd)
  qed
  then show ?thesis using assms(3) lo by (simp add: aligned_seg_def)
qed

interpretation aligned: segment_merge MergeSegments "aligned_seg w full" seg_cell for w full
proof
  fix r and v :: "u8 list"
  assume "aligned_seg w full r v"
  then show "dom (seg_cell r v) = {rng_lo r..rng_hi r}" by (simp add: aligned_seg_def dom_seg_cell)
next
  fix r0 r1 and v0 v1 :: "u8 list"
  assume al: "aligned_seg w full r0 v0" "aligned_seg w full r1 v1" and "overlaps r0 r1"
  then obtain v where v: "MergeSegments r0 v0 r1 v1 = Inr v" "seg_ok (hull r0 r1) v"
    "seg_cell (hull r0 r1) v = seg_cell r0 v0 ++ seg_cell r1 v1"
    using MergeSegments_law [of r0 v0 r1 v1] by (auto simp: aligned_seg_def)
  then show "\<exists>v. MergeSegments r0 v0 r1 v1 = Inr v \<and> aligned_seg w full (hull r0 r1) v \<and>
      seg_cell (hull r0 r1) v = seg_cell r0 v0 ++ seg_cell r1 v1"
    using aligned_hull [OF al v(2)] by blast
qed

lemma AddSegment_aligned:
  assumes "AddSegment off seg sm = Inr sm'" and "disjoint_sorted (segs sm)"
    and "list_all (\<lambda>e. aligned_seg w full (fst e) (snd e)) (segs sm)"
    and "unat off mod w = 0" and "full \<longrightarrow> length seg mod w = 0" and "fits32 off seg"
  shows "list_all (\<lambda>e. aligned_seg w full (fst e) (snd e)) (segs sm')"
proof (cases "seg = []")
  case True
  then show ?thesis using assms by (simp add: AddSegment_def)
next
  case False
  define tp :: u32 where "tp = word_of_nat (unat off + length seg - 1)"
  have tp: "unat tp = unat off + length seg - 1"
    using assms(6) by (simp add: tp_def fits32_def unsigned_of_nat take_bit_nat_eq_self)
  have len: "0 < length seg" using False by simp
  have le: "off \<le> tp" unfolding word_le_nat_alt tp using len by linarith
  have "seg_ok (AddrRange off tp) seg"
    unfolding seg_ok_nat tp addr_range.sel using len assms(6) unfolding fits32_def by (cases "length seg") auto
  then have "aligned_seg w full (AddrRange off tp) seg" using assms(4,5) by (simp add: aligned_seg_def)
  from aligned.Emplace_overlay [OF assms(2,3) le this] obtain m where
    "Emplace MergeSegments off tp seg (segs sm) = Inr m" "list_all (\<lambda>e. aligned_seg w full (fst e) (snd e)) m" by blast
  then show ?thesis using assms(1) False le unfolding AddSegment_def Let_def tp_def [symmetric] by auto
qed

text \<open>Some segment that is not empty leaves a byte.\<close>

lemma overlay_nonempty:
  "list_ex (\<lambda>(off, seg). seg \<noteq> []) xs \<or> b \<noteq> Map.empty \<Longrightarrow>
    fold (\<lambda>(off, seg) b. b ++ seg_bytes off seg) xs b \<noteq> Map.empty"
proof (induction xs arbitrary: b)
  case (Cons p ps)
  obtain off seg where p: "p = (off, seg)" by (cases p)
  have "seg_bytes off seg off \<noteq> None" if "seg \<noteq> []" using that by (simp add: seg_bytes_def)
  then have "list_ex (\<lambda>(off, seg). seg \<noteq> []) ps \<or> b ++ seg_bytes off seg \<noteq> Map.empty"
    using Cons.prems p by (auto simp: map_add_None fun_eq_iff)
  from Cons.IH [OF this] show ?case by (simp add: p)
qed simp

section \<open>Properties\<close>

text \<open>C3: Staging segments one after the other never fails an assertion when each ends below the
  last 32-bit address.  The object keeps its invariant (disjoint ordered segments of the right
  lengths, and bounds that are the smallest and largest staged offset), and it holds at each offset
  the byte of the last segment staged there.\<close>

theorem staged_segments_overlay:
  assumes "list_all (\<lambda>(off, seg). fits32 off seg) xs"
  shows "\<exists>sm. foldM (\<lambda>(off, seg). AddSegment off seg) xs StagedMem = Inr sm \<and> staged_inv sm \<and>
    staged_bytes sm = fold (\<lambda>(off, seg) b. b ++ seg_bytes off seg) xs Map.empty"
  using AddSegments_refine [OF staged_inv_empty assms] by (simp add: staged_bytes_empty)

theorem staged_segments_overlay_witness:
  "\<exists>sm. foldM (\<lambda>(off, seg). AddSegment off seg) [(4, [1, 2]), (5, [7])] StagedMem = Inr sm \<and> staged_inv sm \<and>
    staged_bytes sm = fold (\<lambda>(off, seg) b. b ++ seg_bytes off seg) [(4, [1, 2]), (5, [7])] Map.empty"
  by (rule staged_segments_overlay) (simp add: fits32_def)

text \<open>C23: \<open>GetFlat\<close> of staged segments is the image from the smallest to the largest staged offset:
  the byte last staged at an offset, and zero in the gaps.  The bounds of the object are those two offsets:
  bytes are staged at both, and at no offset outside them.\<close>

theorem staged_flat_image:
  assumes "list_all (\<lambda>(off, seg). fits32 off seg) xs" and "list_ex (\<lambda>(off, seg). seg \<noteq> []) xs"
    and "img = fold (\<lambda>(off, seg) b. b ++ seg_bytes off seg) xs Map.empty"
  shows "\<exists>sm bs. foldM (\<lambda>(off, seg). AddSegment off seg) xs StagedMem = Inr sm \<and> GetFlat sm = Inr bs \<and>
    min_addr sm \<in> dom img \<and> max_addr sm \<in> dom img \<and> dom img \<subseteq> {min_addr sm..max_addr sm} \<and>
    length bs = 1 + unat (max_addr sm - min_addr sm) \<and>
    (\<forall>x. min_addr sm \<le> x \<and> x \<le> max_addr sm \<longrightarrow>
      bs ! unat (x - min_addr sm) = (case img x of None \<Rightarrow> 0 | Some b \<Rightarrow> b))"
proof -
  obtain sm where sm: "foldM (\<lambda>(off, seg). AddSegment off seg) xs StagedMem = Inr sm" "staged_inv sm" "staged_bytes sm = img"
    using AddSegments_refine [OF staged_inv_empty assms(1)] by (auto simp: staged_bytes_empty assms(3))
  have "img \<noteq> Map.empty" unfolding assms(3) by (rule overlay_nonempty) (rule disjI1 [OF assms(2)])
  then have segs: "segs sm \<noteq> []" using sm(3) by (auto simp: staged_bytes_def)
  then have bounds: "min_addr sm \<in> dom img" "max_addr sm \<in> dom img" "dom img \<subseteq> {min_addr sm..max_addr sm}"
    using sm(2) unfolding staged_inv_def sm(3) by simp_all
  obtain bs where "GetFlat sm = Inr bs" "length bs = 1 + unat (max_addr sm - min_addr sm)"
    "\<forall>x. min_addr sm \<le> x \<and> x \<le> max_addr sm \<longrightarrow> bs ! unat (x - min_addr sm) = (case img x of None \<Rightarrow> 0 | Some b \<Rightarrow> b)"
    using GetFlat_bytes [OF sm(2) segs] unfolding sm(3) by blast
  then show ?thesis using sm(1) bounds by blast
qed

theorem staged_flat_image_witness:
  "\<exists>sm. foldM (\<lambda>(off, seg). AddSegment off seg) [(4, [1, 2]), (9, [7])] StagedMem = Inr sm \<and>
    min_addr sm \<in> {4, 5, 9} \<and> max_addr sm \<in> {4, 5, 9} \<and> {4, 5, 9} \<subseteq> {min_addr sm..max_addr sm} \<and>
    (\<exists>bs. GetFlat sm = Inr bs \<and> length bs = 6)"
proof -
  let ?img = "fold (\<lambda>(off, seg) b. b ++ seg_bytes off seg) [(4, [1, 2]), (9, [7])] Map.empty"
  have "seg_bytes 4 [1, 2] x = None \<longleftrightarrow> \<not> (x = 4 \<or> x = 5)" "seg_bytes 9 [7] x = None \<longleftrightarrow> x \<noteq> 9" for x
    by (simp_all add: seg_bytes_nat word_unat_eq_iff) arith+
  then have dom: "dom ?img = {4, 5, 9}" by (auto simp: dom_def map_add_None)
  have prem: "list_all (\<lambda>(off, seg). fits32 off seg) [(4 :: u32, [1, 2 :: u8]), (9, [7])]"
    "list_ex (\<lambda>(off, seg). seg \<noteq> []) [(4 :: u32, [1, 2 :: u8]), (9, [7])]" by (simp_all add: fits32_def)
  obtain sm bs where sm: "foldM (\<lambda>(off, seg). AddSegment off seg) [(4, [1, 2]), (9, [7])] StagedMem = Inr sm"
    "GetFlat sm = Inr bs" "min_addr sm \<in> {4, 5, 9}" "max_addr sm \<in> {4, 5, 9}" "{4, 5, 9} \<subseteq> {min_addr sm..max_addr sm}"
    "length bs = 1 + unat (max_addr sm - min_addr sm)"
    using staged_flat_image [OF prem refl] unfolding dom by blast
  from sm(3-5) have "min_addr sm = 4" "max_addr sm = 9" by auto
  then show ?thesis using sm by auto
qed

end
