(* ===== verification/Xor_Linear.thy ===== *)
theory Xor_Linear
  imports Outcome
begin

unbundle bit_operations_syntax

text \<open>
  Functions on machine words that are linear over exclusive or.  The diffusion layers of the cipher
  and the check-bit encoders are of this kind, and such a function is determined by its values on
  the words with one bit set.  The theory also holds the weight of a word, its number of set bits.
\<close>

section \<open>Words as sums of single bits\<close>

definition xor_sum :: "'a::len word list \<Rightarrow> 'a word" where
  "xor_sum ws = foldr (XOR) ws 0"

lemma xor_sum_simps [simp]: "xor_sum [] = 0" "xor_sum (w # ws) = w XOR xor_sum ws"
  by (simp_all add: xor_sum_def)

lemma xor_sum_append: "xor_sum (xs @ ys) = xor_sum xs XOR xor_sum ys"
  by (induction xs) (auto simp: xor.assoc)

definition one_bit :: "nat \<Rightarrow> 'a::len word" where
  "one_bit i = push_bit i 1"

lemma bit_one_bit: "bit (one_bit i :: 'a::len word) n \<longleftrightarrow> n = i \<and> i < LENGTH('a)"
  by (auto simp: one_bit_def bit_exp_iff)

lemma take_bit_as_sum:
  fixes w :: "'a::len word"
  shows "n \<le> LENGTH('a) \<Longrightarrow> xor_sum (map one_bit (filter (bit w) [0..<n])) = take_bit n w"
proof (induction n)
  case (Suc n)
  have "take_bit (Suc n) w = take_bit n w XOR (if bit w n then one_bit n else 0)"
    using Suc.prems by (intro bit_word_eqI) (auto simp: bit_take_bit_iff bit_xor_iff bit_one_bit less_Suc_eq)
  then show ?case using Suc by (simp add: xor_sum_append)
qed simp

lemma word_as_sum: "(w :: 'a::len word) = xor_sum (map one_bit (filter (bit w) [0..<LENGTH('a)]))"
  using take_bit_as_sum [of "LENGTH('a)" w] by (simp add: take_bit_word_eq_self)

section \<open>Linear functions\<close>

locale xor_linear =
  fixes f :: "'a::len word \<Rightarrow> 'b::len word"
  assumes f_xor: "f (x XOR y) = f x XOR f y"
begin

lemma f_0: "f 0 = 0"
  using f_xor [of 0 0] by simp

lemma f_sum: "f (xor_sum ws) = xor_sum (map f ws)"
  by (induction ws) (simp_all add: f_0 f_xor)

lemma f_bits: "f w = xor_sum (map (\<lambda>i. f (one_bit i)) (filter (bit w) [0..<LENGTH('a)]))"
proof -
  have "f w = f (xor_sum (map one_bit (filter (bit w) [0..<LENGTH('a)])))"
    using word_as_sum [of w] by simp
  also have "\<dots> = xor_sum (map f (map one_bit (filter (bit w) [0..<LENGTH('a)])))"
    by (rule f_sum)
  finally show ?thesis by (simp add: comp_def)
qed

end

text \<open>Two linear functions that agree on single bits agree.\<close>

lemma xor_linear_eqI:
  fixes f g :: "'a::len word \<Rightarrow> 'b::len word"
  assumes "xor_linear f" and "xor_linear g"
    and "list_all (\<lambda>i. f (one_bit i) = g (one_bit i)) [0..<LENGTH('a)]"
  shows "f w = g w"
proof -
  have "map (\<lambda>i. f (one_bit i)) (filter (bit w) [0..<LENGTH('a)]) =
        map (\<lambda>i. g (one_bit i)) (filter (bit w) [0..<LENGTH('a)])"
    using assms(3) by (auto simp: list_all_iff)
  then show ?thesis
    using xor_linear.f_bits [OF assms(1), of w] xor_linear.f_bits [OF assms(2), of w]
    by (metis (no_types))
qed

lemma xor_linear_comp: "xor_linear f \<Longrightarrow> xor_linear g \<Longrightarrow> xor_linear (\<lambda>x. f (g x))"
  by (simp add: xor_linear_def)

lemma xor_linear_id: "xor_linear (\<lambda>x. x)"
  by (simp add: xor_linear_def)

lemma xor_0_eq:
  assumes "x XOR y = 0"
  shows "x = (y :: 'a::len word)"
proof -
  have "x = (x XOR y) XOR y" by (simp add: xor.assoc)
  then show ?thesis using assms by simp
qed

section \<open>Weights\<close>

definition weight :: "'a::len word \<Rightarrow> nat" where
  "weight w = card {i. bit w i}"

lemma finite_bits [simp]: "finite {i. bit (w :: 'a::len word) i}"
  by (rule finite_subset [of _ "{..<LENGTH('a)}"]) (auto dest: bit_imp_le_length)

lemma weight_0 [simp]: "weight 0 = 0"
  by (simp add: weight_def)

lemma weight_0_iff: "weight w = 0 \<longleftrightarrow> w = 0"
  by (auto simp: weight_def intro: bit_word_eqI)

lemma odd_card_sym_diff:
  assumes "finite A" and "finite B"
  shows "odd (card ((A - B) \<union> (B - A))) \<longleftrightarrow> odd (card A) \<noteq> odd (card B)"
proof -
  have "card ((A - B) \<union> (B - A)) = card (A - B) + card (B - A)"
    using assms by (intro card_Un_disjoint) auto
  moreover have "card A = card (A - B) + card (A \<inter> B)"
    using assms by (metis card_Diff_subset_Int card_mono diff_add finite_Int inf_le1)
  moreover have "card B = card (B - A) + card (A \<inter> B)"
    using assms by (metis card_Diff_subset_Int card_mono diff_add finite_Int inf_commute inf_le1)
  ultimately show ?thesis by auto
qed

lemma odd_weight_xor: "odd (weight (v XOR w)) \<longleftrightarrow> odd (weight v) \<noteq> odd (weight w)"
proof -
  have "{i. bit (v XOR w) i} = ({i. bit v i} - {i. bit w i}) \<union> ({i. bit w i} - {i. bit v i})"
    by (auto simp: bit_xor_iff)
  then show ?thesis by (simp add: weight_def odd_card_sym_diff)
qed

lemma weight_one_bit: "i < LENGTH('a) \<Longrightarrow> weight (one_bit i :: 'a::len word) = 1"
  by (simp add: weight_def bit_one_bit)

text \<open>A word of positive weight is a single bit and a word of one less.\<close>

lemma weight_split:
  fixes w :: "'a::len word"
  assumes "weight w = Suc n"
  obtains i v where "i < LENGTH('a)" "w = one_bit i XOR v" "\<not> bit v i" "weight v = n"
proof -
  obtain i where i: "bit w i"
    using assms by (fastforce simp: weight_def card_Suc_eq)
  then have il: "i < LENGTH('a)" by (rule bit_imp_le_length)
  let ?v = "one_bit i XOR w"
  have "{j. bit ?v j} = {j. bit w j} - {i}"
    using i il by (auto simp: bit_xor_iff bit_one_bit)
  then have "weight ?v = n"
    using assms i by (simp add: weight_def)
  moreover have "\<not> bit ?v i" using i il by (simp add: bit_xor_iff bit_one_bit)
  moreover have "w = one_bit i XOR ?v" by (simp add: xor.assoc [symmetric])
  ultimately show thesis using il that by blast
qed

lemma weight_filter [code]: "weight (w :: 'a::len word) = length (filter (bit w) [0..<LENGTH('a)])"
proof -
  have "{i. bit w i} = set (filter (bit w) [0..<LENGTH('a)])"
    by (auto dest: bit_imp_le_length)
  then have "weight w = card (set (filter (bit w) [0..<LENGTH('a)]))"
    by (simp only: weight_def)
  also have "\<dots> = length (filter (bit w) [0..<LENGTH('a)])"
    by (rule distinct_card) simp
  finally show ?thesis .
qed

end
