(* ===== verification/Secded.thy ===== *)
theory Secded
  imports Xor_Linear
begin

text \<open>
  \<open>secded_enc.c\<close>: the encoders that compute the integrity (check) bits of a data word, one function
  per word width, in a plain and in an inverted variant.  A byte array argument is a list of bytes.
  The theory shows that a check bit is the parity of the data bits its mask selects, that the
  inverted encoders differ from the plain ones by a constant, and that the (39,32) code used by the
  memory areas notices every corruption of one, two or three of the 39 stored bits.
\<close>

section \<open>The code\<close>

text \<open>The loop of \<open>calc_parity\<close>: shift the word down until it is 0, toggling on every set bit.\<close>

function parity_loop :: "u64 \<Rightarrow> bool \<Rightarrow> bool" where
  "parity_loop word parity =
     (if word = 0 then parity
      else parity_loop (drop_bit 1 word) (if word AND 1 \<noteq> 0 then \<not> parity else parity))"
  by pat_completeness auto
termination
proof (relation "measure (\<lambda>(word, _). unat word)")
  show "((drop_bit 1 word, if word AND 1 \<noteq> 0 then \<not> parity else parity), word, parity)
      \<in> measure (\<lambda>(word, _). unat word)" if "word \<noteq> 0" for word :: u64 and parity
  proof -
    have "unat (word div 2) = unat word div 2" by (simp add: unat_div)
    moreover have "0 < unat word" using that by (simp add: unat_gt_0)
    ultimately show ?thesis by (simp add: drop_bit_eq_div)
  qed
qed simp

declare parity_loop.simps [simp del]

definition calc_parity :: "u64 \<Rightarrow> bool \<Rightarrow> u8" where
  "calc_parity word invert = of_bool (parity_loop word False \<noteq> invert)"

text \<open>The little-endian reads at the top of the encoders.\<close>

definition read_word_2 :: "u8 list \<Rightarrow> u16" where
  "read_word_2 bytes = push_bit 0 (ucast (bytes ! 0)) OR push_bit 8 (ucast (bytes ! 1))"

definition read_word_3 :: "u8 list \<Rightarrow> u32" where
  "read_word_3 bytes =
     push_bit 0 (ucast (bytes ! 0)) OR push_bit 8 (ucast (bytes ! 1)) OR
     push_bit 16 (ucast (bytes ! 2))"

definition read_word_4 :: "u8 list \<Rightarrow> u32" where
  "read_word_4 bytes =
     push_bit 0 (ucast (bytes ! 0)) OR push_bit 8 (ucast (bytes ! 1)) OR
     push_bit 16 (ucast (bytes ! 2)) OR push_bit 24 (ucast (bytes ! 3))"

definition read_word_8 :: "u8 list \<Rightarrow> u64" where
  "read_word_8 bytes =
     push_bit 0 (ucast (bytes ! 0)) OR push_bit 8 (ucast (bytes ! 1)) OR
     push_bit 16 (ucast (bytes ! 2)) OR push_bit 24 (ucast (bytes ! 3)) OR
     push_bit 32 (ucast (bytes ! 4)) OR push_bit 40 (ucast (bytes ! 5)) OR
     push_bit 48 (ucast (bytes ! 6)) OR push_bit 56 (ucast (bytes ! 7))"

text \<open>The check bits of a word.  \<open>word & mask\<close> is widened to the 64 bits of the parameter.\<close>

definition checks_secded_22_16 :: "u64 \<Rightarrow> u8" where
  "checks_secded_22_16 word =
     push_bit 0 (calc_parity (word AND 0x496e) False) OR
     push_bit 1 (calc_parity (word AND 0xf20b) False) OR
     push_bit 2 (calc_parity (word AND 0x8ed8) False) OR
     push_bit 3 (calc_parity (word AND 0x7714) False) OR
     push_bit 4 (calc_parity (word AND 0xaca5) False) OR
     push_bit 5 (calc_parity (word AND 0x11f3) False)"

definition checks_secded_28_22 :: "u64 \<Rightarrow> u8" where
  "checks_secded_28_22 word =
     push_bit 0 (calc_parity (word AND 0x3003ff) False) OR
     push_bit 1 (calc_parity (word AND 0x10fc0f) False) OR
     push_bit 2 (calc_parity (word AND 0x271c71) False) OR
     push_bit 3 (calc_parity (word AND 0x3b6592) False) OR
     push_bit 4 (calc_parity (word AND 0x3daaa4) False) OR
     push_bit 5 (calc_parity (word AND 0x3ed348) False)"

definition checks_secded_39_32 :: "u64 \<Rightarrow> u8" where
  "checks_secded_39_32 word =
     push_bit 0 (calc_parity (word AND 0x2606bd25) False) OR
     push_bit 1 (calc_parity (word AND 0xdeba8050) False) OR
     push_bit 2 (calc_parity (word AND 0x413d89aa) False) OR
     push_bit 3 (calc_parity (word AND 0x31234ed1) False) OR
     push_bit 4 (calc_parity (word AND 0xc2c1323b) False) OR
     push_bit 5 (calc_parity (word AND 0x2dcc624c) False) OR
     push_bit 6 (calc_parity (word AND 0x98505586) False)"

definition checks_secded_64_57 :: "u64 \<Rightarrow> u8" where
  "checks_secded_64_57 word =
     push_bit 0 (calc_parity (word AND 0x103fff800007fff) False) OR
     push_bit 1 (calc_parity (word AND 0x17c1ff801ff801f) False) OR
     push_bit 2 (calc_parity (word AND 0x1bde1f87e0781e1) False) OR
     push_bit 3 (calc_parity (word AND 0x1deee3b8e388e22) False) OR
     push_bit 4 (calc_parity (word AND 0x1ef76cdb2c93244) False) OR
     push_bit 5 (calc_parity (word AND 0x1f7bb56d5525488) False) OR
     push_bit 6 (calc_parity (word AND 0x1fbdda769a46910) False)"

definition checks_secded_72_64 :: "u64 \<Rightarrow> u8" where
  "checks_secded_72_64 word =
     push_bit 0 (calc_parity (word AND 0xb9000000001fffff) False) OR
     push_bit 1 (calc_parity (word AND 0x5e00000fffe0003f) False) OR
     push_bit 2 (calc_parity (word AND 0x67003ff003e007c1) False) OR
     push_bit 3 (calc_parity (word AND 0xcd0fc0f03c207842) False) OR
     push_bit 4 (calc_parity (word AND 0xb671c711c4438884) False) OR
     push_bit 5 (calc_parity (word AND 0xb5b65926488c9108) False) OR
     push_bit 6 (calc_parity (word AND 0xcbdaaa4a91152210) False) OR
     push_bit 7 (calc_parity (word AND 0x7aed348d221a4420) False)"

definition checks_secded_inv_22_16 :: "u64 \<Rightarrow> u8" where
  "checks_secded_inv_22_16 word =
     push_bit 0 (calc_parity (word AND 0x496e) False) OR
     push_bit 1 (calc_parity (word AND 0xf20b) True) OR
     push_bit 2 (calc_parity (word AND 0x8ed8) False) OR
     push_bit 3 (calc_parity (word AND 0x7714) True) OR
     push_bit 4 (calc_parity (word AND 0xaca5) False) OR
     push_bit 5 (calc_parity (word AND 0x11f3) True)"

definition checks_secded_inv_28_22 :: "u64 \<Rightarrow> u8" where
  "checks_secded_inv_28_22 word =
     push_bit 0 (calc_parity (word AND 0x3003ff) False) OR
     push_bit 1 (calc_parity (word AND 0x10fc0f) True) OR
     push_bit 2 (calc_parity (word AND 0x271c71) False) OR
     push_bit 3 (calc_parity (word AND 0x3b6592) True) OR
     push_bit 4 (calc_parity (word AND 0x3daaa4) False) OR
     push_bit 5 (calc_parity (word AND 0x3ed348) True)"

definition checks_secded_inv_39_32 :: "u64 \<Rightarrow> u8" where
  "checks_secded_inv_39_32 word =
     push_bit 0 (calc_parity (word AND 0x2606bd25) False) OR
     push_bit 1 (calc_parity (word AND 0xdeba8050) True) OR
     push_bit 2 (calc_parity (word AND 0x413d89aa) False) OR
     push_bit 3 (calc_parity (word AND 0x31234ed1) True) OR
     push_bit 4 (calc_parity (word AND 0xc2c1323b) False) OR
     push_bit 5 (calc_parity (word AND 0x2dcc624c) True) OR
     push_bit 6 (calc_parity (word AND 0x98505586) False)"

definition checks_secded_inv_64_57 :: "u64 \<Rightarrow> u8" where
  "checks_secded_inv_64_57 word =
     push_bit 0 (calc_parity (word AND 0x103fff800007fff) False) OR
     push_bit 1 (calc_parity (word AND 0x17c1ff801ff801f) True) OR
     push_bit 2 (calc_parity (word AND 0x1bde1f87e0781e1) False) OR
     push_bit 3 (calc_parity (word AND 0x1deee3b8e388e22) True) OR
     push_bit 4 (calc_parity (word AND 0x1ef76cdb2c93244) False) OR
     push_bit 5 (calc_parity (word AND 0x1f7bb56d5525488) True) OR
     push_bit 6 (calc_parity (word AND 0x1fbdda769a46910) False)"

definition checks_secded_inv_72_64 :: "u64 \<Rightarrow> u8" where
  "checks_secded_inv_72_64 word =
     push_bit 0 (calc_parity (word AND 0xb9000000001fffff) False) OR
     push_bit 1 (calc_parity (word AND 0x5e00000fffe0003f) True) OR
     push_bit 2 (calc_parity (word AND 0x67003ff003e007c1) False) OR
     push_bit 3 (calc_parity (word AND 0xcd0fc0f03c207842) True) OR
     push_bit 4 (calc_parity (word AND 0xb671c711c4438884) False) OR
     push_bit 5 (calc_parity (word AND 0xb5b65926488c9108) True) OR
     push_bit 6 (calc_parity (word AND 0xcbdaaa4a91152210) False) OR
     push_bit 7 (calc_parity (word AND 0x7aed348d221a4420) True)"

text \<open>The encoders; an array shorter than the parameter's bound is read outside.\<close>

definition enc_secded_22_16 :: "u8 list \<Rightarrow> u8 res" where
  "enc_secded_22_16 bytes = (if length bytes < 2 then Inl Undefined else Inr (checks_secded_22_16 (ucast (read_word_2 bytes))))"

definition enc_secded_28_22 :: "u8 list \<Rightarrow> u8 res" where
  "enc_secded_28_22 bytes = (if length bytes < 3 then Inl Undefined else Inr (checks_secded_28_22 (ucast (read_word_3 bytes))))"

definition enc_secded_39_32 :: "u8 list \<Rightarrow> u8 res" where
  "enc_secded_39_32 bytes = (if length bytes < 4 then Inl Undefined else Inr (checks_secded_39_32 (ucast (read_word_4 bytes))))"

definition enc_secded_64_57 :: "u8 list \<Rightarrow> u8 res" where
  "enc_secded_64_57 bytes = (if length bytes < 8 then Inl Undefined else Inr (checks_secded_64_57 (read_word_8 bytes)))"

definition enc_secded_72_64 :: "u8 list \<Rightarrow> u8 res" where
  "enc_secded_72_64 bytes = (if length bytes < 8 then Inl Undefined else Inr (checks_secded_72_64 (read_word_8 bytes)))"

definition enc_secded_inv_22_16 :: "u8 list \<Rightarrow> u8 res" where
  "enc_secded_inv_22_16 bytes = (if length bytes < 2 then Inl Undefined else Inr (checks_secded_inv_22_16 (ucast (read_word_2 bytes))))"

definition enc_secded_inv_28_22 :: "u8 list \<Rightarrow> u8 res" where
  "enc_secded_inv_28_22 bytes = (if length bytes < 3 then Inl Undefined else Inr (checks_secded_inv_28_22 (ucast (read_word_3 bytes))))"

definition enc_secded_inv_39_32 :: "u8 list \<Rightarrow> u8 res" where
  "enc_secded_inv_39_32 bytes = (if length bytes < 4 then Inl Undefined else Inr (checks_secded_inv_39_32 (ucast (read_word_4 bytes))))"

definition enc_secded_inv_64_57 :: "u8 list \<Rightarrow> u8 res" where
  "enc_secded_inv_64_57 bytes = (if length bytes < 8 then Inl Undefined else Inr (checks_secded_inv_64_57 (read_word_8 bytes)))"

definition enc_secded_inv_72_64 :: "u8 list \<Rightarrow> u8 res" where
  "enc_secded_inv_72_64 bytes = (if length bytes < 8 then Inl Undefined else Inr (checks_secded_inv_72_64 (read_word_8 bytes)))"

section \<open>Check bits are parities\<close>

lemma parity_loop_weight: "parity_loop word parity \<longleftrightarrow> parity \<noteq> odd (weight word)"
proof (induction word parity rule: parity_loop.induct)
  case (1 word parity)
  show ?case
  proof (cases "word = 0")
    case False
    have bits: "{i. bit word i} = (if odd word then {0} else {}) \<union> Suc ` {i. bit (drop_bit 1 word) i}"
    proof (intro set_eqI)
      show "i \<in> {i. bit word i} \<longleftrightarrow>
        i \<in> (if odd word then {0} else {}) \<union> Suc ` {i. bit (drop_bit 1 word) i}" for i
        by (cases i) (auto simp: bit_0 bit_drop_bit_eq image_iff)
    qed
    have "weight word = (if odd word then 1 else 0) + weight (drop_bit 1 word)"
      unfolding weight_def bits by (subst card_Un_disjoint) (auto simp: card_image)
    moreover have "word AND 1 \<noteq> 0 \<longleftrightarrow> odd word"
      by (simp add: and_one_eq mod_2_eq_odd)
    ultimately show ?thesis
      using 1 False by (subst parity_loop.simps) auto
  qed (simp add: parity_loop.simps)
qed

lemma calc_parity_weight: "calc_parity word invert = of_bool (odd (weight word) \<noteq> invert)"
  by (simp add: calc_parity_def parity_loop_weight)

text \<open>A list of parities as a byte, and the linear map a list of masks stands for.\<close>

fun pack_bits :: "nat \<Rightarrow> bool list \<Rightarrow> u8" where
  "pack_bits k [] = 0"
| "pack_bits k (b # bs) = push_bit k (of_bool b) OR pack_bits (Suc k) bs"

lemma bit_pack_bits: "bit (pack_bits k bs) n \<longleftrightarrow> n < 8 \<and> k \<le> n \<and> n - k < length bs \<and> bs ! (n - k)"
proof (induction k bs rule: pack_bits.induct)
  case (2 k b bs)
  have "bit (push_bit k (of_bool b) :: u8) n \<longleftrightarrow> n < 8 \<and> n = k \<and> b"
    by (auto simp: bit_push_bit_iff bit_of_bool_iff)
  then show ?case using 2 by (cases "n = k") (auto simp: bit_or_iff nth_Cons' Suc_diff_Suc le_eq_less_or_eq Suc_le_eq)
qed simp

definition mask_checks :: "u64 list \<Rightarrow> u64 \<Rightarrow> u8" where
  "mask_checks masks word = pack_bits 0 (map (\<lambda>m. odd (weight (word AND m))) masks)"

lemma mask_checks_linear: "xor_linear (mask_checks masks)"
proof
  fix x y :: u64
  have "(x XOR y) AND m = (x AND m) XOR (y AND m)" for m
    by (rule bit_word_eqI) (auto simp: bit_and_iff bit_xor_iff)
  then show "mask_checks masks (x XOR y) = mask_checks masks x XOR mask_checks masks y"
    by (intro bit_word_eqI) (auto simp: mask_checks_def bit_pack_bits bit_xor_iff odd_weight_xor)
qed

lemma pack_bits_inverted:
  "length bs = length invs \<Longrightarrow>
   pack_bits k (map2 (\<noteq>) bs invs) = pack_bits k bs XOR pack_bits k invs"
  by (intro bit_word_eqI) (auto simp: bit_pack_bits bit_xor_iff)

text \<open>The column of the code for data bit \<open>i\<close>: which masks hold the bit.\<close>

lemma mask_checks_one_bit:
  assumes "i < 64"
  shows "mask_checks masks (one_bit i) = pack_bits 0 (map (\<lambda>m. bit m i) masks)"
proof -
  have "odd (weight (one_bit i AND m)) \<longleftrightarrow> bit m i" for m :: u64
  proof -
    have "one_bit i AND m = (if bit m i then one_bit i else 0)"
      by (rule bit_word_eqI) (auto simp: bit_and_iff bit_one_bit)
    then show ?thesis using assms by (simp add: weight_one_bit)
  qed
  then show ?thesis by (simp add: mask_checks_def)
qed

section \<open>The encoders as masks\<close>

definition masks_22_16 :: "u64 list" where
  "masks_22_16 = [0x496e, 0xf20b, 0x8ed8, 0x7714, 0xaca5, 0x11f3]"

lemma checks_secded_22_16_masks: "checks_secded_22_16 = mask_checks masks_22_16"
  by (rule ext) (simp add: checks_secded_22_16_def mask_checks_def masks_22_16_def calc_parity_weight)

definition masks_28_22 :: "u64 list" where
  "masks_28_22 = [0x3003ff, 0x10fc0f, 0x271c71, 0x3b6592, 0x3daaa4, 0x3ed348]"

lemma checks_secded_28_22_masks: "checks_secded_28_22 = mask_checks masks_28_22"
  by (rule ext) (simp add: checks_secded_28_22_def mask_checks_def masks_28_22_def calc_parity_weight)

definition masks_39_32 :: "u64 list" where
  "masks_39_32 = [0x2606bd25, 0xdeba8050, 0x413d89aa, 0x31234ed1, 0xc2c1323b, 0x2dcc624c, 0x98505586]"

lemma checks_secded_39_32_masks: "checks_secded_39_32 = mask_checks masks_39_32"
  by (rule ext) (simp add: checks_secded_39_32_def mask_checks_def masks_39_32_def calc_parity_weight)

definition masks_64_57 :: "u64 list" where
  "masks_64_57 = [0x103fff800007fff, 0x17c1ff801ff801f, 0x1bde1f87e0781e1, 0x1deee3b8e388e22, 0x1ef76cdb2c93244, 0x1f7bb56d5525488, 0x1fbdda769a46910]"

lemma checks_secded_64_57_masks: "checks_secded_64_57 = mask_checks masks_64_57"
  by (rule ext) (simp add: checks_secded_64_57_def mask_checks_def masks_64_57_def calc_parity_weight)

definition masks_72_64 :: "u64 list" where
  "masks_72_64 = [0xb9000000001fffff, 0x5e00000fffe0003f, 0x67003ff003e007c1, 0xcd0fc0f03c207842, 0xb671c711c4438884, 0xb5b65926488c9108, 0xcbdaaa4a91152210, 0x7aed348d221a4420]"

lemma checks_secded_72_64_masks: "checks_secded_72_64 = mask_checks masks_72_64"
  by (rule ext) (simp add: checks_secded_72_64_def mask_checks_def masks_72_64_def calc_parity_weight)

lemma checks_secded_inv_22_16_xor: "checks_secded_inv_22_16 word = checks_secded_22_16 word XOR 0x2a"
proof -
  have "checks_secded_inv_22_16 word = pack_bits 0 (map2 (\<noteq>) (map (\<lambda>m. odd (weight (word AND m))) masks_22_16) [False, True, False, True, False, True])"
    by (simp add: checks_secded_inv_22_16_def masks_22_16_def calc_parity_weight)
  also have "\<dots> = mask_checks masks_22_16 word XOR pack_bits 0 [False, True, False, True, False, True]"
    unfolding mask_checks_def by (rule pack_bits_inverted) (simp add: masks_22_16_def)
  finally show ?thesis by (simp add: checks_secded_22_16_masks)
qed

lemma checks_secded_inv_28_22_xor: "checks_secded_inv_28_22 word = checks_secded_28_22 word XOR 0x2a"
proof -
  have "checks_secded_inv_28_22 word = pack_bits 0 (map2 (\<noteq>) (map (\<lambda>m. odd (weight (word AND m))) masks_28_22) [False, True, False, True, False, True])"
    by (simp add: checks_secded_inv_28_22_def masks_28_22_def calc_parity_weight)
  also have "\<dots> = mask_checks masks_28_22 word XOR pack_bits 0 [False, True, False, True, False, True]"
    unfolding mask_checks_def by (rule pack_bits_inverted) (simp add: masks_28_22_def)
  finally show ?thesis by (simp add: checks_secded_28_22_masks)
qed

lemma checks_secded_inv_39_32_xor: "checks_secded_inv_39_32 word = checks_secded_39_32 word XOR 0x2a"
proof -
  have "checks_secded_inv_39_32 word = pack_bits 0 (map2 (\<noteq>) (map (\<lambda>m. odd (weight (word AND m))) masks_39_32) [False, True, False, True, False, True, False])"
    by (simp add: checks_secded_inv_39_32_def masks_39_32_def calc_parity_weight)
  also have "\<dots> = mask_checks masks_39_32 word XOR pack_bits 0 [False, True, False, True, False, True, False]"
    unfolding mask_checks_def by (rule pack_bits_inverted) (simp add: masks_39_32_def)
  finally show ?thesis by (simp add: checks_secded_39_32_masks)
qed

lemma checks_secded_inv_64_57_xor: "checks_secded_inv_64_57 word = checks_secded_64_57 word XOR 0x2a"
proof -
  have "checks_secded_inv_64_57 word = pack_bits 0 (map2 (\<noteq>) (map (\<lambda>m. odd (weight (word AND m))) masks_64_57) [False, True, False, True, False, True, False])"
    by (simp add: checks_secded_inv_64_57_def masks_64_57_def calc_parity_weight)
  also have "\<dots> = mask_checks masks_64_57 word XOR pack_bits 0 [False, True, False, True, False, True, False]"
    unfolding mask_checks_def by (rule pack_bits_inverted) (simp add: masks_64_57_def)
  finally show ?thesis by (simp add: checks_secded_64_57_masks)
qed

lemma checks_secded_inv_72_64_xor: "checks_secded_inv_72_64 word = checks_secded_72_64 word XOR 0xaa"
proof -
  have "checks_secded_inv_72_64 word = pack_bits 0 (map2 (\<noteq>) (map (\<lambda>m. odd (weight (word AND m))) masks_72_64) [False, True, False, True, False, True, False, True])"
    by (simp add: checks_secded_inv_72_64_def masks_72_64_def calc_parity_weight)
  also have "\<dots> = mask_checks masks_72_64 word XOR pack_bits 0 [False, True, False, True, False, True, False, True]"
    unfolding mask_checks_def by (rule pack_bits_inverted) (simp add: masks_72_64_def)
  finally show ?thesis by (simp add: checks_secded_72_64_masks)
qed

section \<open>Codes with distinct odd columns\<close>

text \<open>
  The contract between an encoder and the reader that compares stored with recomputed check bits:
  linear check bits, and columns that are distinct, of odd weight and of weight at least three.  It
  makes the distance between two code words at least four.
\<close>

locale odd_column_code =
  fixes E :: "u64 \<Rightarrow> u8" and k :: nat
  assumes linear: "xor_linear E" and width: "k \<le> 64"
    and columns_odd: "list_all (\<lambda>i. odd (weight (E (one_bit i))) \<and> 3 \<le> weight (E (one_bit i))) [0..<k]"
    and columns_distinct: "distinct (map (\<lambda>i. E (one_bit i)) [0..<k])"
begin

lemma column: "i < k \<Longrightarrow> odd (weight (E (one_bit i)))" "i < k \<Longrightarrow> 3 \<le> weight (E (one_bit i))"
  using columns_odd by (auto simp: list_all_iff)

lemma columns_differ: "i < k \<Longrightarrow> j < k \<Longrightarrow> i \<noteq> j \<Longrightarrow> E (one_bit i) \<noteq> E (one_bit j)"
  using columns_distinct by (auto simp: distinct_map inj_on_def)

lemma odd_weight_E:
  assumes "\<forall>i\<ge>k. \<not> bit e i"
  shows "odd (weight (E e)) \<longleftrightarrow> odd (weight e)"
  using assms
proof (induction "weight e" arbitrary: e)
  case 0
  then have "e = 0" by (simp add: weight_0_iff)
  then show ?case by (simp add: xor_linear.f_0 [OF linear])
next
  case (Suc n)
  from Suc.hyps(2) obtain i v where v: "i < 64" "e = one_bit i XOR v" "\<not> bit v i" "weight v = n"
    using weight_split [of e n] by (auto simp flip: Suc.hyps(2))
  have "bit e i" using v by (simp add: bit_xor_iff bit_one_bit)
  then have ik: "i < k" using Suc.prems by (meson not_less)
  have "\<not> bit v j" if "k \<le> j" for j
    using Suc.prems that ik by (auto simp: v(2) bit_xor_iff bit_one_bit)
  then have "odd (weight (E v)) \<longleftrightarrow> odd n"
    using Suc.hyps(1) [of v] v(4) by simp
  moreover have "weight e = Suc n" using Suc.hyps(2) by simp
  ultimately show ?case
    using column(1) [OF ik] by (simp add: v(2) xor_linear.f_xor [OF linear] odd_weight_xor weight_one_bit v(1,4))
qed

text \<open>No error pattern of one to three flipped bits, in data and check bits together, leads from a
  code word to another.\<close>

lemma error_detected:
  assumes e: "\<forall>i\<ge>k. \<not> bit e i" and some: "0 < weight e + weight c" and few: "weight e + weight c \<le> 3"
  shows "E e \<noteq> c"
proof
  assume c: "E e = c"
  have parity: "odd (weight c) \<longleftrightarrow> odd (weight e)" using odd_weight_E [OF e] c by simp
  have inside: "i < k" if "bit e i" for i using e that by (meson not_less)
  consider "weight e = 0" | "weight e = 1" | "weight e = 2" | "weight e = 3" using few by linarith
  then show False
  proof cases
    case 1
    then have "e = 0" by (simp add: weight_0_iff)
    then show False using some c by (simp add: xor_linear.f_0 [OF linear])
  next
    case 2
    then obtain i v where "i < 64" "e = one_bit i XOR v" "\<not> bit v i" "weight v = 0"
      using weight_split [of e 0] by auto
    then have "e = one_bit i" "i < k" using inside by (auto simp: weight_0_iff bit_one_bit)
    then show False using column(2) [of i] c few 2 by auto
  next
    case 3
    then have "weight e = Suc 1" by simp
    from weight_split [OF this] obtain i v where
      v: "i < 64" "e = one_bit i XOR v" "\<not> bit v i" "weight v = 1" by auto
    then obtain j u where u: "j < 64" "v = one_bit j XOR u" "\<not> bit u j" "weight u = 0"
      using weight_split [of v 0] by auto
    have e2: "e = one_bit i XOR one_bit j" and ij: "i \<noteq> j"
      using v u by (auto simp: weight_0_iff bit_one_bit)
    have "i < k" "j < k" using inside v(1) u(1) ij by (auto simp: e2 bit_xor_iff bit_one_bit)
    moreover have "c = 0" using few 3 parity by (auto simp: weight_0_iff [symmetric] intro: ccontr)
    then have "E (one_bit i) XOR E (one_bit j) = 0"
      using c by (simp add: e2 xor_linear.f_xor [OF linear])
    then have "E (one_bit i) = E (one_bit j)" by (rule xor_0_eq)
    ultimately show False using columns_differ ij by blast
  next
    case 4
    then show False using few parity by auto
  qed
qed

end

text \<open>All five codes are of this kind: their columns are evaluated.\<close>

interpretation code_22_16: odd_column_code "mask_checks masks_22_16" 16
proof unfold_locales
  show "mask_checks masks_22_16 (x XOR y) = mask_checks masks_22_16 x XOR mask_checks masks_22_16 y" for x y
    by (rule xor_linear.f_xor [OF mask_checks_linear])
  show "list_all (\<lambda>i. odd (weight (mask_checks masks_22_16 (one_bit i))) \<and>
      3 \<le> weight (mask_checks masks_22_16 (one_bit i))) [0..<16]"
    by (simp add: mask_checks_one_bit masks_22_16_def upt_rec weight_filter)
  show "distinct (map (\<lambda>i. mask_checks masks_22_16 (one_bit i)) [0..<16])"
    by (simp add: mask_checks_one_bit masks_22_16_def upt_rec)
qed simp

interpretation code_28_22: odd_column_code "mask_checks masks_28_22" 22
proof unfold_locales
  show "mask_checks masks_28_22 (x XOR y) = mask_checks masks_28_22 x XOR mask_checks masks_28_22 y" for x y
    by (rule xor_linear.f_xor [OF mask_checks_linear])
  show "list_all (\<lambda>i. odd (weight (mask_checks masks_28_22 (one_bit i))) \<and>
      3 \<le> weight (mask_checks masks_28_22 (one_bit i))) [0..<22]"
    by (simp add: mask_checks_one_bit masks_28_22_def upt_rec weight_filter)
  show "distinct (map (\<lambda>i. mask_checks masks_28_22 (one_bit i)) [0..<22])"
    by (simp add: mask_checks_one_bit masks_28_22_def upt_rec)
qed simp

interpretation code_39_32: odd_column_code "mask_checks masks_39_32" 32
proof unfold_locales
  show "mask_checks masks_39_32 (x XOR y) = mask_checks masks_39_32 x XOR mask_checks masks_39_32 y" for x y
    by (rule xor_linear.f_xor [OF mask_checks_linear])
  show "list_all (\<lambda>i. odd (weight (mask_checks masks_39_32 (one_bit i))) \<and>
      3 \<le> weight (mask_checks masks_39_32 (one_bit i))) [0..<32]"
    by (simp add: mask_checks_one_bit masks_39_32_def upt_rec weight_filter)
  show "distinct (map (\<lambda>i. mask_checks masks_39_32 (one_bit i)) [0..<32])"
    by (simp add: mask_checks_one_bit masks_39_32_def upt_rec)
qed simp

interpretation code_64_57: odd_column_code "mask_checks masks_64_57" 57
proof unfold_locales
  show "mask_checks masks_64_57 (x XOR y) = mask_checks masks_64_57 x XOR mask_checks masks_64_57 y" for x y
    by (rule xor_linear.f_xor [OF mask_checks_linear])
  show "list_all (\<lambda>i. odd (weight (mask_checks masks_64_57 (one_bit i))) \<and>
      3 \<le> weight (mask_checks masks_64_57 (one_bit i))) [0..<57]"
    by (simp add: mask_checks_one_bit masks_64_57_def upt_rec weight_filter)
  show "distinct (map (\<lambda>i. mask_checks masks_64_57 (one_bit i)) [0..<57])"
    by (simp add: mask_checks_one_bit masks_64_57_def upt_rec)
qed simp

interpretation code_72_64: odd_column_code "mask_checks masks_72_64" 64
proof unfold_locales
  show "mask_checks masks_72_64 (x XOR y) = mask_checks masks_72_64 x XOR mask_checks masks_72_64 y" for x y
    by (rule xor_linear.f_xor [OF mask_checks_linear])
  show "list_all (\<lambda>i. odd (weight (mask_checks masks_72_64 (one_bit i))) \<and>
      3 \<le> weight (mask_checks masks_72_64 (one_bit i))) [0..<64]"
    by (simp add: mask_checks_one_bit masks_72_64_def upt_rec weight_filter)
  show "distinct (map (\<lambda>i. mask_checks masks_72_64 (one_bit i)) [0..<64])"
    by (simp add: mask_checks_one_bit masks_72_64_def upt_rec)
qed simp

section \<open>Properties\<close>

text \<open>C20: None of the ten encoders maps two words that differ in up to three places, counting flipped
  data bits \<open>e\<close> and flipped check bits \<open>c\<close> together, to matching check bits: every corruption of one,
  two or three bits of a stored code word is noticed.\<close>

theorem secded_detects_three:
  assumes "(enc, k) \<in> set [(checks_secded_22_16, 16), (checks_secded_28_22, 22), (checks_secded_39_32, 32),
      (checks_secded_64_57, 57), (checks_secded_72_64, 64), (checks_secded_inv_22_16, 16),
      (checks_secded_inv_28_22, 22), (checks_secded_inv_39_32, 32), (checks_secded_inv_64_57, 57),
      (checks_secded_inv_72_64, 64)]"
    and "\<forall>i\<ge>k. \<not> bit e i" and "0 < weight e + weight c" and "weight e + weight c \<le> 3"
  shows "enc (w XOR e) \<noteq> enc w XOR c"
proof -
  have lin: "mask_checks ms (w XOR e) = mask_checks ms w XOR mask_checks ms e" for ms
    by (rule xor_linear.f_xor [OF mask_checks_linear])
  have cancel: "a XOR b \<noteq> a XOR c" if "b \<noteq> c" for a b :: u8
  proof
    assume eq: "a XOR b = a XOR c"
    have "b = a XOR (a XOR b)" by (simp add: xor.assoc [symmetric])
    also have "\<dots> = c" unfolding eq by (simp add: xor.assoc [symmetric])
    finally show False using that by simp
  qed
  have cancel': "(a XOR b) XOR d \<noteq> (a XOR d) XOR c" if "b \<noteq> c" for a b d :: u8
  proof -
    have "(a XOR b) XOR d = (a XOR d) XOR b" by (rule bit_word_eqI) (auto simp: bit_xor_iff)
    then show ?thesis using cancel [OF that, of "a XOR d"] by metis
  qed
  note masks = checks_secded_22_16_masks checks_secded_28_22_masks checks_secded_39_32_masks
    checks_secded_64_57_masks checks_secded_72_64_masks
  note inverted = checks_secded_inv_22_16_xor checks_secded_inv_28_22_xor checks_secded_inv_39_32_xor
    checks_secded_inv_64_57_xor checks_secded_inv_72_64_xor
  have detected:
    "k = 16 \<Longrightarrow> mask_checks masks_22_16 e \<noteq> c" "k = 22 \<Longrightarrow> mask_checks masks_28_22 e \<noteq> c"
    "k = 32 \<Longrightarrow> mask_checks masks_39_32 e \<noteq> c" "k = 57 \<Longrightarrow> mask_checks masks_64_57 e \<noteq> c"
    "k = 64 \<Longrightarrow> mask_checks masks_72_64 e \<noteq> c"
    using assms(2-4)
    by (simp_all add: code_22_16.error_detected code_28_22.error_detected code_39_32.error_detected
      code_64_57.error_detected code_72_64.error_detected)
  show ?thesis
    using assms(1) unfolding list.set insert_iff prod.inject empty_iff
    by (elim disjE conjE)
      (simp_all only: inverted masks lin, ((rule cancel' | rule cancel), rule detected, assumption)+)
qed

theorem secded_detects_three_witness:
  "checks_secded_39_32 (0x12345678 XOR 5) \<noteq> checks_secded_39_32 0x12345678 XOR 1"
proof (rule secded_detects_three [where k = 32])
  show "\<forall>i\<ge>32. \<not> bit (5 :: u64) i"
  proof (intro allI impI)
    fix i :: nat assume "32 \<le> i"
    moreover have "take_bit 32 (5 :: u64) = 5" by simp
    ultimately show "\<not> bit (5 :: u64) i" by (metis bit_take_bit_iff not_le)
  qed
qed (simp_all add: weight_filter upt_rec)

end
