(* ===== verification/Prince.thy ===== *)
theory Prince
  imports Xor_Linear
begin

text \<open>
  \<open>prince_ref.h\<close>: the PRINCE block cipher with a variable number of half rounds and two key
  schedules.  \<open>uint64_t\<close> is \<open>64 word\<close>, \<open>unsigned int\<close> is \<open>32 word\<close>; the loop counters are \<open>nat\<close>.
  The theory shows that the substitution and diffusion layers invert each other and that decryption
  inverts encryption for every key, both schedules and every number of half rounds the table of
  round constants allows.
\<close>

section \<open>Bytes and words\<close>

definition bytes_to_uint64 :: "u8 list \<Rightarrow> u64" where
  "bytes_to_uint64 inp = fold (\<lambda>i out. push_bit 8 out OR ucast (inp ! i)) [0..<8] 0"

definition uint64_to_bytes :: "u64 \<Rightarrow> u8 list" where
  "uint64_to_bytes inp = map (\<lambda>i. ucast (drop_bit ((7 - i) * 8) inp)) [0..<8]"

section \<open>The layers of the cipher\<close>

definition prince_k0_to_k0_prime :: "u64 \<Rightarrow> u64" where
  "prince_k0_to_k0_prime k0 =
     (let k0_ror1 = drop_bit 1 k0 OR push_bit 63 k0 in k0_ror1 XOR drop_bit 63 k0)"

definition round_constants :: "u64 list" where
  "round_constants =
     [0x0000000000000000, 0x13198a2e03707344, 0xa4093822299f31d0,
      0x082efa98ec4e6c89, 0x452821e638d01377, 0xbe5466cf34e90c6c,
      0x7ef84f78fd955cb1, 0x85840851f1ac43aa, 0xc882d32f25323c54,
      0x64a51195e0e3610d, 0xd3b5a399ca0c2399, 0xc0ac29b7c97c50dd]"

text \<open>Reading the table of 12 constants past its end is undefined.\<close>

definition prince_round_constant :: "nat \<Rightarrow> u64 res" where
  "prince_round_constant round =
     (if round < length round_constants then Inr (round_constants ! round) else Inl Undefined)"

definition prince_sbox :: "u32 \<Rightarrow> u32" where
  "prince_sbox nibble =
     [0xb, 0xf, 0x3, 0x2, 0xa, 0xc, 0x9, 0x1,
      0x6, 0x7, 0x8, 0x0, 0xe, 0x5, 0xd, 0x4] ! unat (nibble AND 0xF)"

definition prince_sbox_inv :: "u32 \<Rightarrow> u32" where
  "prince_sbox_inv nibble =
     [0xb, 0x7, 0x3, 0x2, 0xf, 0xd, 0x8, 0x9,
      0xa, 0x6, 0x4, 0x0, 0x5, 0xe, 0xc, 0x1] ! unat (nibble AND 0xF)"

definition prince_s_layer :: "u64 \<Rightarrow> u64" where
  "prince_s_layer s_in =
     fold (\<lambda>i s_out.
       let shift = i * 4;
           sbox_in = ucast (drop_bit shift s_in);
           sbox_out = ucast (prince_sbox sbox_in)
       in s_out OR push_bit shift sbox_out) [0..<16] 0"

definition prince_s_inv_layer :: "u64 \<Rightarrow> u64" where
  "prince_s_inv_layer s_inv_in =
     fold (\<lambda>i s_inv_out.
       let shift = i * 4;
           sbox_in = ucast (drop_bit shift s_inv_in);
           sbox_out = ucast (prince_sbox_inv sbox_in)
       in s_inv_out OR push_bit shift sbox_out) [0..<16] 0"

definition gf2_mat_mult16_1 :: "u64 \<Rightarrow> u64 list \<Rightarrow> u64" where
  "gf2_mat_mult16_1 inp mat =
     fold (\<lambda>i out. if drop_bit i inp AND 1 \<noteq> 0 then out XOR mat ! i else out) [0..<16] 0"

text \<open>The builder of the two 16 by 16 matrices, of which the next function has the result as a
  table.\<close>

definition m4 :: "u64 list list" where
  "m4 = [[0x0, 0x2, 0x4, 0x8], [0x1, 0x0, 0x4, 0x8], [0x1, 0x2, 0x0, 0x8], [0x1, 0x2, 0x4, 0x0]]"

definition prince_m16_matrices :: "u64 list \<times> u64 list" where
  "prince_m16_matrices =
     (let row0 = (\<lambda>i. let base = i div 4 in
            push_bit 8 (m4 ! ((base + 3) mod 4) ! (i mod 4)) OR
            push_bit 4 (m4 ! ((base + 2) mod 4) ! (i mod 4)) OR
            push_bit 0 (m4 ! ((base + 1) mod 4) ! (i mod 4)) OR
            push_bit 12 (m4 ! ((base + 0) mod 4) ! (i mod 4)))
      in (map row0 [0..<16],
          map (\<lambda>i. drop_bit 12 (row0 i) OR (0xFFFF AND push_bit 4 (row0 i))) [0..<16]))"

definition m16_0 :: "u64 list" where
  "m16_0 = [0x0111, 0x2220, 0x4404, 0x8088, 0x1011, 0x0222, 0x4440, 0x8808,
            0x1101, 0x2022, 0x0444, 0x8880, 0x1110, 0x2202, 0x4044, 0x0888]"

definition m16_1 :: "u64 list" where
  "m16_1 = [0x1110, 0x2202, 0x4044, 0x0888, 0x0111, 0x2220, 0x4404, 0x8088,
            0x1011, 0x0222, 0x4440, 0x8808, 0x1101, 0x2022, 0x0444, 0x8880]"

definition prince_m_prime_layer :: "u64 \<Rightarrow> u64" where
  "prince_m_prime_layer m_prime_in =
     (let chunk0 = gf2_mat_mult16_1 (drop_bit (0 * 16) m_prime_in) m16_0;
          chunk1 = gf2_mat_mult16_1 (drop_bit (1 * 16) m_prime_in) m16_1;
          chunk2 = gf2_mat_mult16_1 (drop_bit (2 * 16) m_prime_in) m16_1;
          chunk3 = gf2_mat_mult16_1 (drop_bit (3 * 16) m_prime_in) m16_0
      in push_bit (3 * 16) chunk3 OR push_bit (2 * 16) chunk2 OR
         push_bit (1 * 16) chunk1 OR push_bit (0 * 16) chunk0)"

text \<open>
  For \<open>i = 0\<close> one of the two shifts is by 64, which C leaves undefined.  The model shifts all bits
  out; \<open>shift_rows_oversize\<close> below shows that a machine that shifts by the count modulo 64 computes
  the same.
\<close>

definition prince_shift_rows :: "u64 \<Rightarrow> bool \<Rightarrow> u64" where
  "prince_shift_rows inp invert =
     fold (\<lambda>i shift_rows_out.
       let row = inp AND drop_bit (4 * i) 0xF000F000F000F000;
           shift = if invert then i * 16 else 64 - i * 16
       in shift_rows_out OR (drop_bit shift row OR push_bit (64 - shift) row)) [0..<4] 0"

definition prince_m_layer :: "u64 \<Rightarrow> u64" where
  "prince_m_layer m_in = prince_shift_rows (prince_m_prime_layer m_in) False"

definition prince_m_inv_layer :: "u64 \<Rightarrow> u64" where
  "prince_m_inv_layer m_inv_in = prince_m_prime_layer (prince_shift_rows m_inv_in True)"

section \<open>The cipher\<close>

text \<open>One turn of the loop before the middle layer, and of the one after it.\<close>

definition forward_round :: "u64 \<Rightarrow> u64 \<Rightarrow> nat \<Rightarrow> u64 \<Rightarrow> u64 res" where
  "forward_round k0_new k1 round round_input =
     (let s_out = prince_s_layer round_input; m_out = prince_m_layer s_out in
      res_bind (prince_round_constant round) (\<lambda>rc.
        Inr (if round mod 2 = 1 then m_out XOR k0_new XOR rc else m_out XOR k1 XOR rc)))"

text \<open>\<open>10 - num_half_rounds + round\<close> is an \<open>int\<close> converted to an unsigned index.\<close>

definition backward_round :: "u64 \<Rightarrow> u64 \<Rightarrow> int \<Rightarrow> nat \<Rightarrow> u64 \<Rightarrow> u64 res" where
  "backward_round k0_new k1 num_half_rounds round round_input =
     (let constant_idx = nat ((10 - num_half_rounds + int round) mod 2 ^ 32) in
      res_bind (prince_round_constant constant_idx) (\<lambda>rc.
        let m_inv_in = if (num_half_rounds + int round + 1) mod 2 = 1
                       then round_input XOR k0_new XOR rc else round_input XOR k1 XOR rc;
            s_inv_in = prince_m_inv_layer m_inv_in
        in Inr (prince_s_inv_layer s_inv_in)))"

definition prince_core :: "u64 \<Rightarrow> u64 \<Rightarrow> u64 \<Rightarrow> int \<Rightarrow> u64 res" where
  "prince_core core_input k0_new k1 num_half_rounds =
     res_bind (prince_round_constant 0) (\<lambda>rc0.
     res_bind (foldM (forward_round k0_new k1) [1..<Suc (nat num_half_rounds)]
                (core_input XOR k1 XOR rc0)) (\<lambda>round_input.
     let middle_round_s_out = prince_s_layer round_input;
         m_prime_out = prince_m_prime_layer middle_round_s_out;
         middle_round_s_inv_out = prince_s_inv_layer m_prime_out
     in
     res_bind (foldM (backward_round k0_new k1 num_half_rounds) [1..<Suc (nat num_half_rounds)]
                middle_round_s_inv_out) (\<lambda>round_input.
     res_bind (prince_round_constant 11) (\<lambda>rc11.
     Inr (round_input XOR k1 XOR rc11)))))"

definition prince_alpha :: u64 where
  "prince_alpha = 0xc0ac29b7c97c50dd"

definition prince_enc_dec_uint64 :: "u64 \<Rightarrow> u64 \<Rightarrow> u64 \<Rightarrow> bool \<Rightarrow> int \<Rightarrow> bool \<Rightarrow> u64 res" where
  "prince_enc_dec_uint64 input enc_k0 enc_k1 decrypt num_half_rounds old_key_schedule =
     (let k1 = enc_k1 XOR (if decrypt then prince_alpha else 0);
          k0_new = if old_key_schedule then k1 else enc_k0 XOR (if decrypt then prince_alpha else 0);
          enc_k0_prime = prince_k0_to_k0_prime enc_k0;
          k0 = if decrypt then enc_k0_prime else enc_k0;
          k0_prime = if decrypt then enc_k0 else enc_k0_prime;
          core_input = input XOR k0
      in res_bind (prince_core core_input k0_new k1 num_half_rounds) (\<lambda>core_output.
           Inr (core_output XOR k0_prime)))"

text \<open>The byte-oriented functions; arrays shorter than the parameters' bounds are accessed outside.
  The bytes written to \<open>out_bytes\<close> are the result.\<close>

definition prince_enc_dec :: "u8 list \<Rightarrow> u8 list \<Rightarrow> bool \<Rightarrow> int \<Rightarrow> bool \<Rightarrow> u8 list res" where
  "prince_enc_dec in_bytes key_bytes decrypt num_half_rounds old_key_schedule =
     (if length in_bytes < 8 \<or> length key_bytes < 16 then Inl Undefined
      else
        let input = bytes_to_uint64 in_bytes;
            enc_k0 = bytes_to_uint64 key_bytes;
            enc_k1 = bytes_to_uint64 (drop 8 key_bytes)
        in res_bind (prince_enc_dec_uint64 input enc_k0 enc_k1 decrypt num_half_rounds old_key_schedule)
             (\<lambda>output. Inr (uint64_to_bytes output)))"

definition prince_encrypt :: "u8 list \<Rightarrow> u8 list \<Rightarrow> int \<Rightarrow> bool \<Rightarrow> u8 list res" where
  "prince_encrypt in_bytes key_bytes num_half_rounds old_key_schedule =
     prince_enc_dec in_bytes key_bytes False num_half_rounds old_key_schedule"

definition prince_decrypt :: "u8 list \<Rightarrow> u8 list \<Rightarrow> int \<Rightarrow> bool \<Rightarrow> u8 list res" where
  "prince_decrypt in_bytes key_bytes num_half_rounds old_key_schedule =
     prince_enc_dec in_bytes key_bytes True num_half_rounds old_key_schedule"

section \<open>The tables\<close>

lemma m16_tables: "prince_m16_matrices = (m16_0, m16_1)"
  by code_simp

text \<open>The constants are symmetric up to \<open>alpha\<close>, which the cipher's reflection property rests on.\<close>

lemma round_constants_reflect:
  "i < 12 \<Longrightarrow> round_constants ! i XOR round_constants ! (11 - i) = prince_alpha"
proof -
  have "list_all (\<lambda>i. round_constants ! i XOR round_constants ! (11 - i) = prince_alpha) [0..<12]"
    by code_simp
  then show "i < 12 \<Longrightarrow> ?thesis" by (simp add: list_all_iff)
qed

section \<open>The diffusion layers\<close>

lemma gf2_mat_mult16_1_linear: "xor_linear (\<lambda>x. gf2_mat_mult16_1 x mat)"
proof
  fix x y :: u64
  have odd_bit: "drop_bit i (z :: u64) AND 1 \<noteq> 0 \<longleftrightarrow> bit z i" for i z
    by (simp add: and_one_eq bit_iff_odd_drop_bit odd_iff_mod_2_eq_one)
  have "fold (\<lambda>i out. if bit (x XOR y) i then out XOR mat ! i else out) is (a XOR b) =
      fold (\<lambda>i out. if bit x i then out XOR mat ! i else out) is a XOR
      fold (\<lambda>i out. if bit y i then out XOR mat ! i else out) is b" for "is" a b
  proof (induction "is" arbitrary: a b)
    case (Cons i "is")
    have "(if bit (x XOR y) i then (a XOR b) XOR mat ! i else a XOR b) =
        (if bit x i then a XOR mat ! i else a) XOR (if bit y i then b XOR mat ! i else b)"
      by (rule bit_word_eqI) (auto simp: bit_xor_iff)
    then show ?case using Cons by simp
  qed simp
  from this [of "[0..<16]" 0 0]
  show "gf2_mat_mult16_1 (x XOR y) mat = gf2_mat_mult16_1 x mat XOR gf2_mat_mult16_1 y mat"
    unfolding gf2_mat_mult16_1_def odd_bit by simp
qed

lemma gf2_fold_bit:
  "gf2_mat_mult16_1 x mat = fold (\<lambda>i out. if bit x i then out XOR mat ! i else out) [0..<16] 0"
  by (simp add: gf2_mat_mult16_1_def and_one_eq bit_iff_odd_drop_bit odd_iff_mod_2_eq_one)

lemma gf2_cong:
  assumes "\<And>i. i < 16 \<Longrightarrow> bit x i = bit y i"
  shows "gf2_mat_mult16_1 x mat = gf2_mat_mult16_1 y mat"
  unfolding gf2_fold_bit using assms by (intro fold_cong) auto

lemma gf2_high:
  assumes "\<forall>m\<in>set mat. \<not> bit m n" and "length mat = 16"
  shows "\<not> bit (gf2_mat_mult16_1 x mat) n"
proof -
  have "\<not> bit (fold (\<lambda>i out. if bit x i then out XOR mat ! i else out) is a) n"
    if "\<not> bit a n" "\<forall>i\<in>set is. i < 16" for "is" a
    using that
  proof (induction "is" arbitrary: a)
    case (Cons i "is")
    then have "\<not> bit (mat ! i) n" using assms by simp
    then have "\<not> bit (if bit x i then a XOR mat ! i else a) n"
      using Cons.prems(1) by (simp add: bit_xor_iff)
    then show ?case using Cons by simp
  qed simp
  then show ?thesis by (simp add: gf2_fold_bit)
qed

lemma bit_below_16:
  assumes "w < 2 ^ 16" and "16 \<le> n"
  shows "\<not> bit (w :: u64) n"
proof -
  have "take_bit 16 w = w" using assms(1) by (simp add: take_bit_word_eq_self less_mask_eq take_bit_eq_mask)
  then show ?thesis using assms(2) by (metis bit_take_bit_iff not_le)
qed

lemma gf2_high_0:
  assumes "16 \<le> n"
  shows "\<not> bit (gf2_mat_mult16_1 x m16_0) n"
proof (rule gf2_high)
  have "\<forall>m\<in>set m16_0. m < 2 ^ 16" by (simp add: m16_0_def)
  then show "\<forall>m\<in>set m16_0. \<not> bit m n" using assms bit_below_16 by blast
qed (simp add: m16_0_def)

lemma gf2_high_1:
  assumes "16 \<le> n"
  shows "\<not> bit (gf2_mat_mult16_1 x m16_1) n"
proof (rule gf2_high)
  have "\<forall>m\<in>set m16_1. m < 2 ^ 16" by (simp add: m16_1_def)
  then show "\<forall>m\<in>set m16_1. \<not> bit m n" using assms bit_below_16 by blast
qed (simp add: m16_1_def)

text \<open>Both matrices are their own inverses: checked on the 16 single bits.\<close>

lemma upt_16: "[0..<16] = [0, 1, 2, 3, 4, 5, 6, 7, 8, 9, 10, 11, 12, 13, 14, 15 :: nat]"
  by (simp add: upt_rec)

lemma gf2_involution_by_bits:
  assumes "list_all (\<lambda>i. gf2_mat_mult16_1 (gf2_mat_mult16_1 (one_bit i) mat) mat = one_bit i) [0..<16]"
  shows "gf2_mat_mult16_1 (gf2_mat_mult16_1 x mat) mat = take_bit 16 x"
proof (rule xor_linear_eqI [where f = "\<lambda>x. gf2_mat_mult16_1 (gf2_mat_mult16_1 x mat) mat"])
  let ?f = "\<lambda>x. gf2_mat_mult16_1 x mat"
  show "xor_linear (\<lambda>x. ?f (?f x))"
    by (rule xor_linear_comp) (rule gf2_mat_mult16_1_linear)+
  show "xor_linear (take_bit 16 :: u64 \<Rightarrow> u64)"
    by standard simp
  have "?f (one_bit i) = 0" if "16 \<le> i" for i
  proof -
    have "?f (one_bit i) = ?f 0" using that by (intro gf2_cong) (simp add: bit_one_bit)
    then show ?thesis by (simp add: xor_linear.f_0 [OF gf2_mat_mult16_1_linear])
  qed
  moreover have "take_bit 16 (one_bit i :: u64) = (if i < 16 then one_bit i else 0)" for i
    by (rule bit_word_eqI) (auto simp: bit_take_bit_iff bit_one_bit)
  ultimately show "list_all (\<lambda>i. ?f (?f (one_bit i)) = take_bit 16 (one_bit i)) [0..<LENGTH(64)]"
    using assms by (auto simp: list_all_iff xor_linear.f_0 [OF gf2_mat_mult16_1_linear])
qed

lemma m16_0_involution: "gf2_mat_mult16_1 (gf2_mat_mult16_1 x m16_0) m16_0 = take_bit 16 x"
  by (rule gf2_involution_by_bits)
    (simp only: upt_16 list.pred_inject, simp add: upt_16 gf2_mat_mult16_1_def m16_0_def one_bit_def)

lemma m16_1_involution: "gf2_mat_mult16_1 (gf2_mat_mult16_1 x m16_1) m16_1 = take_bit 16 x"
  by (rule gf2_involution_by_bits)
    (simp only: upt_16 list.pred_inject, simp add: upt_16 gf2_mat_mult16_1_def m16_1_def one_bit_def)

text \<open>\<open>M'\<close> works on the four 16-bit chunks apart.\<close>

lemma bit_m_prime_layer:
  assumes "j < 16"
  shows "bit (prince_m_prime_layer x) j = bit (gf2_mat_mult16_1 x m16_0) j"
    and "bit (prince_m_prime_layer x) (16 + j) = bit (gf2_mat_mult16_1 (drop_bit 16 x) m16_1) j"
    and "bit (prince_m_prime_layer x) (32 + j) = bit (gf2_mat_mult16_1 (drop_bit 32 x) m16_1) j"
    and "bit (prince_m_prime_layer x) (48 + j) = bit (gf2_mat_mult16_1 (drop_bit 48 x) m16_0) j"
  using assms
  by (auto simp: prince_m_prime_layer_def Let_def bit_or_iff bit_push_bit_iff gf2_high_0 gf2_high_1)

lemma prince_m_prime_involution: "prince_m_prime_layer (prince_m_prime_layer x) = x"
proof (rule bit_word_eqI)
  fix n :: nat
  assume "n < LENGTH(64)"
  then consider "n < 16" | j where "n = 16 + j" "j < 16" | j where "n = 32 + j" "j < 16"
    | j where "n = 48 + j" "j < 16"
    by (cases "n < 16"; cases "n < 32"; cases "n < 48") (auto simp: not_less le_iff_add)
  then show "bit (prince_m_prime_layer (prince_m_prime_layer x)) n = bit x n"
  proof cases
    case 1
    have "gf2_mat_mult16_1 (prince_m_prime_layer x) m16_0 = gf2_mat_mult16_1 (gf2_mat_mult16_1 x m16_0) m16_0"
      by (rule gf2_cong) (rule bit_m_prime_layer)
    then show ?thesis using 1 by (simp add: bit_m_prime_layer m16_0_involution bit_take_bit_iff)
  next
    case 2
    have "gf2_mat_mult16_1 (drop_bit 16 (prince_m_prime_layer x)) m16_1 =
        gf2_mat_mult16_1 (gf2_mat_mult16_1 (drop_bit 16 x) m16_1) m16_1"
      by (rule gf2_cong) (simp add: bit_drop_bit_eq bit_m_prime_layer)
    then show ?thesis using 2 by (simp add: bit_m_prime_layer m16_1_involution bit_take_bit_iff bit_drop_bit_eq)
  next
    case 3
    have "gf2_mat_mult16_1 (drop_bit 32 (prince_m_prime_layer x)) m16_1 =
        gf2_mat_mult16_1 (gf2_mat_mult16_1 (drop_bit 32 x) m16_1) m16_1"
      by (rule gf2_cong) (simp add: bit_drop_bit_eq bit_m_prime_layer)
    then show ?thesis using 3 by (simp add: bit_m_prime_layer m16_1_involution bit_take_bit_iff bit_drop_bit_eq)
  next
    case 4
    have "gf2_mat_mult16_1 (drop_bit 48 (prince_m_prime_layer x)) m16_0 =
        gf2_mat_mult16_1 (gf2_mat_mult16_1 (drop_bit 48 x) m16_0) m16_0"
      by (rule gf2_cong) (simp add: bit_drop_bit_eq bit_m_prime_layer)
    then show ?thesis using 4 by (simp add: bit_m_prime_layer m16_0_involution bit_take_bit_iff bit_drop_bit_eq)
  qed
qed

section \<open>The substitution layers\<close>

lemma bit_fold_nibbles:
  assumes "\<And>i. g i < (16 :: u64)" and "k < 16" and "j < 4"
  shows "bit (fold (\<lambda>i out. out OR push_bit (i * 4) (g i)) [0..<16] 0) (k * 4 + j) = bit (g k) j"
proof -
  have fold: "bit (fold (\<lambda>i out. out OR push_bit (i * 4) (g i)) is a) n =
      (bit a n \<or> (\<exists>i\<in>set is. bit (push_bit (i * 4) (g i)) n))" for "is" a n
    by (induction "is" arbitrary: a) (auto simp: bit_or_iff)
  have high: "\<not> bit (g i) m" if "4 \<le> m" for i m
  proof -
    have "g i < 2 ^ 4" using assms(1) [of i] by simp
    then have "take_bit 4 (g i) = g i" by (simp add: less_mask_eq take_bit_eq_mask)
    then show ?thesis using that by (metis bit_take_bit_iff not_le)
  qed
  have "bit (push_bit (i * 4) (g i)) (k * 4 + j) \<longleftrightarrow> i = k \<and> bit (g k) j" for i
  proof (cases "i = k")
    case False
    then have "i * 4 \<le> k * 4 + j \<Longrightarrow> 4 \<le> k * 4 + j - i * 4" using assms(3) by linarith
    then show ?thesis using False high by (auto simp: bit_push_bit_iff)
  qed (use assms in \<open>simp add: bit_push_bit_iff\<close>)
  then show ?thesis using assms(2) by (auto simp: fold)
qed

lemma sbox_nibble: "unat (a AND 0xF :: u32) < 16"
proof -
  have "a AND 0xF = take_bit 4 a" by (simp add: take_bit_eq_mask mask_numeral)
  moreover have "unat (take_bit 4 a) < 2 ^ 4"
    unfolding unsigned_take_bit_eq by (rule take_bit_nat_less_exp)
  ultimately show ?thesis by simp
qed

lemma nibble_cases:
  assumes "\<forall>m\<in>set [0..<16]. P (word_of_nat m :: u32)"
  shows "P (a AND 0xF)"
proof -
  have "word_of_nat (unat (a AND 0xF)) = a AND 0xF" by simp
  then show ?thesis using assms sbox_nibble [of a] by (metis atLeastLessThan_iff atLeast_upt set_upt zero_le)
qed

lemma sbox_and: "prince_sbox (a AND 0xF) = prince_sbox a" "prince_sbox_inv (a AND 0xF) = prince_sbox_inv a"
  by (simp_all add: prince_sbox_def prince_sbox_inv_def)

lemma sbox_bound: "prince_sbox a < 16" "prince_sbox_inv a < 16"
proof -
  have "prince_sbox (a AND 0xF) < 16" "prince_sbox_inv (a AND 0xF) < 16"
    by (rule nibble_cases [where P = "\<lambda>b. prince_sbox b < 16"],
        simp add: upt_16 prince_sbox_def)
      (rule nibble_cases [where P = "\<lambda>b. prince_sbox_inv b < 16"],
        simp add: upt_16 prince_sbox_inv_def)
  then show "prince_sbox a < 16" "prince_sbox_inv a < 16" by (simp_all add: sbox_and)
qed

lemma sbox_inverts:
  "prince_sbox_inv (prince_sbox a) = a AND 0xF" "prince_sbox (prince_sbox_inv a) = a AND 0xF"
proof -
  have "prince_sbox_inv (prince_sbox (a AND 0xF)) = a AND 0xF"
    by (rule nibble_cases [where P = "\<lambda>b. prince_sbox_inv (prince_sbox b) = b"])
      (simp add: upt_16 prince_sbox_def prince_sbox_inv_def)
  moreover have "prince_sbox (prince_sbox_inv (a AND 0xF)) = a AND 0xF"
    by (rule nibble_cases [where P = "\<lambda>b. prince_sbox (prince_sbox_inv b) = b"])
      (simp add: upt_16 prince_sbox_def prince_sbox_inv_def)
  ultimately show "prince_sbox_inv (prince_sbox a) = a AND 0xF" "prince_sbox (prince_sbox_inv a) = a AND 0xF"
    by (simp_all add: sbox_and)
qed


definition s_layer_with :: "(u32 \<Rightarrow> u32) \<Rightarrow> u64 \<Rightarrow> u64" where
  "s_layer_with box x =
     fold (\<lambda>i out. out OR push_bit (i * 4) (ucast (box (ucast (drop_bit (i * 4) x))))) [0..<16] 0"

lemma s_layers_with:
  "prince_s_layer = s_layer_with prince_sbox" "prince_s_inv_layer = s_layer_with prince_sbox_inv"
  by (simp_all add: fun_eq_iff s_layer_with_def prince_s_layer_def prince_s_inv_layer_def Let_def)

lemma bit_s_layer_with:
  assumes "\<And>a. box a < 16" and "k < 16" and "j < 4"
  shows "bit (s_layer_with box x) (k * 4 + j) = bit (box (ucast (drop_bit (k * 4) x))) j"
proof -
  have "(ucast (box a) :: u64) < 16" for a
    using assms(1) [of a] by (simp add: word_less_nat_alt unsigned_ucast_eq take_bit_nat_eq_self)
  then show ?thesis
    using assms(2,3) unfolding s_layer_with_def by (simp add: bit_fold_nibbles bit_ucast_iff)
qed

lemma nibble_split:
  assumes "n < (64 :: nat)"
  obtains k j where "n = k * 4 + j" and "k < 16" and "j < 4"
  using assms by (rule_tac that [of "n div 4" "n mod 4"]) auto

lemma s_layer_with_inverts:
  assumes "\<And>a. box a < 16" and "\<And>a. xob a < 16" and "\<And>a. xob (box a) = a AND 0xF"
    and low: "\<And>a. xob (a AND 0xF) = xob a"
  shows "s_layer_with xob (s_layer_with box x) = x"
proof (rule bit_word_eqI)
  fix n :: nat
  assume "n < LENGTH(64)"
  then obtain k j where n: "n = k * 4 + j" "k < 16" "j < 4" by (auto elim: nibble_split)
  let ?a = "ucast (drop_bit (k * 4) x) :: u32"
  have mask: "bit (a AND 0xF) m \<longleftrightarrow> bit a m \<and> m < 4" for a :: u32 and m
  proof -
    have "a AND 0xF = take_bit 4 a" by (simp add: take_bit_eq_mask mask_numeral)
    then show ?thesis by (auto simp: bit_take_bit_iff)
  qed
  have "ucast (drop_bit (k * 4) (s_layer_with box x)) AND 0xF = (box ?a AND 0xF)"
    using n assms(1) by (intro bit_word_eqI)
      (auto simp: mask bit_ucast_iff bit_drop_bit_eq bit_s_layer_with)
  then have "xob (ucast (drop_bit (k * 4) (s_layer_with box x))) = xob (box ?a)"
    by (metis low)
  then show "bit (s_layer_with xob (s_layer_with box x)) n = bit x n"
    using n assms(2) by (simp add: bit_s_layer_with assms(3) mask bit_ucast_iff bit_drop_bit_eq)
qed

lemma s_layers_inverse:
  "prince_s_inv_layer (prince_s_layer x) = x" "prince_s_layer (prince_s_inv_layer x) = x"
  unfolding s_layers_with
  by (rule s_layer_with_inverts; simp add: sbox_bound sbox_inverts sbox_and)+

section \<open>Shifting the rows\<close>

text \<open>Bit \<open>n\<close> of the result comes from the bit 16 times its row number away.\<close>

definition row_source :: "bool \<Rightarrow> nat \<Rightarrow> nat" where
  "row_source invert n =
     (let i = 3 - n mod 16 div 4 in (n + (if invert then 16 * i else 64 - 16 * i)) mod 64)"

lemma upt_4: "[0..<4] = [0, 1, 2, 3 :: nat]"
  by (simp add: upt_rec)

lemma bit_row_mask:
  "bit (0xF000F000F000F000 :: u64) n \<longleftrightarrow> n < 64 \<and> n mod 16 div 4 = 3"
proof (cases "n < 64")
  case True
  have "list_all (\<lambda>n. bit (0xF000F000F000F000 :: u64) n \<longleftrightarrow> n mod 16 div 4 = 3) [0..<64]"
    by code_simp
  then show ?thesis using True by (simp add: list_all_iff)
qed (use bit_imp_le_length in force)

lemma row_number:
  assumes "i < 4" and "m < 64" and "m mod 16 = n mod (16 :: nat)"
  shows "(4 * i + m < 64 \<and> (4 * i + m) mod 16 div 4 = 3) = (n mod 16 div 4 = 3 - i)"
proof -
  define k c d where "k = m div 16" and "c = m mod 16 div 4" and "d = m mod 4"
  have "m mod 16 mod 4 = d" unfolding d_def by (rule mod_mod_cancel) simp
  moreover have "m = 16 * k + m mod 16" "m mod 16 = 4 * c + m mod 16 mod 4"
    unfolding k_def c_def by (metis mult_div_mod_eq)+
  ultimately have m: "m = 16 * k + 4 * c + d" by linarith
  have bounds: "c < 4" "d < 4" "k < 4"
    using assms(2) by (auto simp: k_def c_def d_def)
  have col: "(16 * q + (4 * r + d)) mod 16 div 4 = r" if "r < 4" for q r
    using that bounds by simp
  show ?thesis
  proof (cases "c + i < 4")
    case True
    then have "4 * i + m = 16 * k + (4 * (c + i) + d)" using m by simp
    then have "(4 * i + m) mod 16 div 4 = c + i" using col [OF True, of k] by (simp only:)
    moreover have "4 * i + m < 64" using m True bounds by linarith
    ultimately show ?thesis using True unfolding assms(3) [symmetric] c_def [symmetric] by auto
  next
    case False
    then have "4 * i + m = 16 * Suc k + (4 * (c + i - 4) + d)" using m by simp
    moreover have "c + i - 4 < 4" using bounds assms(1) by linarith
    ultimately have "(4 * i + m) mod 16 div 4 = c + i - 4"
      using col [of "c + i - 4" "Suc k"] by (simp only:)
    then show ?thesis using False bounds assms(1)
      unfolding assms(3) [symmetric] c_def [symmetric] by auto
  qed
qed

lemma bit_rotated_row:
  assumes "i < 4" and "s \<in> {0, 16, 32, 48, 64}" and "n < 64"
  shows "bit (drop_bit s (x AND drop_bit (4 * i) 0xF000F000F000F000) OR
       push_bit (64 - s) (x AND drop_bit (4 * i) (0xF000F000F000F000 :: u64))) n \<longleftrightarrow>
      n mod 16 div 4 = 3 - i \<and> bit x ((n + s) mod 64)"
proof -
  have row: "bit (x AND drop_bit (4 * i) (0xF000F000F000F000 :: u64)) m \<longleftrightarrow>
      bit x m \<and> 4 * i + m < 64 \<and> (4 * i + m) mod 16 div 4 = 3" for m
    by (simp only: bit_and_iff bit_drop_bit_eq o_apply bit_row_mask)
  show ?thesis
  proof (cases "n + s < 64")
    case True
    have "s = 16 * (s div 16)" using assms(2) by auto
    then have "(n + s) mod 16 = n mod 16" by (metis mod_mult_self2)
    from row_number [OF assms(1) True this] True
    have "bit (drop_bit s (x AND drop_bit (4 * i) (0xF000F000F000F000 :: u64))) n \<longleftrightarrow>
        n mod 16 div 4 = 3 - i \<and> bit x (n + s)"
      by (simp only: row bit_drop_bit_eq o_apply add.commute [of s n]) blast
    moreover have "\<not> 64 - s \<le> n" "(n + s) mod 64 = n + s" using True by auto
    ultimately show ?thesis by (simp only: bit_or_iff bit_push_bit_iff) blast
  next
    case False
    then have high: "\<not> bit (x AND drop_bit (4 * i) (0xF000F000F000F000 :: u64)) (s + n)"
      using bit_imp_le_length by force
    have "s \<le> 64" using assms(2) by auto
    have "n + s = (n + s - 64) + 16 * 4" "s = 16 * (s div 16)" using False assms(2) by auto
    then have "(n + s - 64) mod 16 = n mod 16" by (metis mod_mult_self2)
    from row_number [OF assms(1) _ this] assms(2,3)
    have "bit (x AND drop_bit (4 * i) (0xF000F000F000F000 :: u64)) (n + s - 64) \<longleftrightarrow>
        n mod 16 div 4 = 3 - i \<and> bit x (n + s - 64)"
      by (simp only: row) auto
    moreover have "n - (64 - s) = n + s - 64" "(n + s) mod 64 = n + s - 64" "64 - s \<le> n"
      using False assms(3) \<open>s \<le> 64\<close> by (simp_all add: le_mod_geq)
    ultimately have "bit (push_bit (64 - s) (x AND drop_bit (4 * i) (0xF000F000F000F000 :: u64))) n \<longleftrightarrow>
        n mod 16 div 4 = 3 - i \<and> bit x ((n + s) mod 64)"
      using assms(3) by (simp only: bit_push_bit_iff) simp
    then show ?thesis using high by (simp only: bit_or_iff bit_drop_bit_eq o_apply) blast
  qed
qed

lemma bit_shift_rows:
  assumes "n < 64"
  shows "bit (prince_shift_rows x invert) n = bit x (row_source invert n)"
proof -
  let ?s = "\<lambda>i. if invert then i * 16 else 64 - i * 16 :: nat"
  let ?row = "\<lambda>i. x AND drop_bit (4 * i) (0xF000F000F000F000 :: u64)"
  let ?rot = "\<lambda>i. drop_bit (?s i) (?row i) OR push_bit (64 - ?s i) (?row i)"
  have "prince_shift_rows x invert = 0 OR ?rot 0 OR ?rot 1 OR ?rot 2 OR ?rot 3"
    unfolding prince_shift_rows_def Let_def upt_4 fold.simps(2) fold.simps(1) o_apply id_apply or.left_neutral
    by (simp only: or.assoc)
  then have bits: "bit (prince_shift_rows x invert) n \<longleftrightarrow>
      bit (?rot 0) n \<or> bit (?rot 1) n \<or> bit (?rot 2) n \<or> bit (?rot 3) n"
    by (simp only: bit_or_iff bit_0_eq bot_apply) simp
  have rots: "bit (?rot i) n \<longleftrightarrow> n mod 16 div 4 = 3 - i \<and> bit x ((n + ?s i) mod 64)"
    if "i \<in> {0, 1, 2, 3}" for i
    by (rule bit_rotated_row) (use that assms in auto)
  have "n mod 16 div 4 < 4" by auto
  then consider "n mod 16 div 4 = 0" | "n mod 16 div 4 = 1" | "n mod 16 div 4 = 2" | "n mod 16 div 4 = 3"
    by linarith
  then show ?thesis unfolding bits using rots [of 0] rots [of 1] rots [of 2] rots [of 3]
    by cases (simp_all add: row_source_def mult.commute)
qed

lemma row_source_turn:
  "row_source b n = (n + 16 * (if b then 3 - n mod 16 div 4 else 1 + n mod 16 div 4)) mod 64"
proof -
  have "n mod 16 div 4 \<le> 3" by auto
  then have "64 - 16 * (3 - c) = 16 * (1 + c)" if "c = n mod 16 div 4" for c
    using that by (simp add: diff_mult_distrib2)
  then show ?thesis unfolding row_source_def Let_def by presburger
qed

lemma row_source_twice:
  assumes "n < 64"
  shows "row_source (\<not> b) (row_source b n) = n"
proof -
  have row: "row_source b n mod 16 = n mod 16"
    unfolding row_source_turn by (simp add: mod_mod_cancel)
  have turn: "((n + 16 * k) mod 64 + 16 * l) mod 64 = n" if "k + l = 4" for k l
  proof -
    have "((n + 16 * k) mod 64 + 16 * l) mod 64 = (n + 16 * k + 16 * l) mod 64"
      by (simp only: mod_add_left_eq)
    also have "n + 16 * k + 16 * l = n + 64" using that by simp
    finally show ?thesis using assms by simp
  qed
  have "n mod 16 div 4 \<le> 3" by auto
  then show ?thesis
    unfolding row_source_turn [of "\<not> b"] row
    unfolding row_source_turn by (cases b) (simp_all add: turn del: mult_Suc_right distrib_left_numeral)
qed

lemma shift_rows_inverse: "prince_shift_rows (prince_shift_rows x b) (\<not> b) = x"
proof -
  have "row_source b n < 64" for b n by (simp add: row_source_def Let_def)
  then show ?thesis
    using row_source_twice [of _ "\<not> b"]
    by (intro bit_word_eqI) (simp add: bit_shift_rows)
qed

lemma shift_rows_oversize:
  "prince_shift_rows x invert =
     fold (\<lambda>i out.
       let row = x AND drop_bit (4 * i) 0xF000F000F000F000;
           shift = if invert then i * 16 else 64 - i * 16
       in out OR (drop_bit (shift mod 64) row OR push_bit ((64 - shift) mod 64) row)) [0..<4] 0"
proof -
  have "drop_bit 64 r = 0" "push_bit 64 r = 0" for r :: u64
    by (rule bit_word_eqI, simp add: bit_drop_bit_eq bit_push_bit_iff bit_imp_le_length, use bit_imp_le_length in force)+
  then show ?thesis by (cases invert) (simp_all add: prince_shift_rows_def Let_def upt_4)
qed

lemma m_layers_inverse:
  "prince_m_inv_layer (prince_m_layer x) = x" "prince_m_layer (prince_m_inv_layer x) = x"
  using shift_rows_inverse [of _ False] shift_rows_inverse [of _ True]
  by (simp_all add: prince_m_layer_def prince_m_inv_layer_def prince_m_prime_involution)

section \<open>The rounds\<close>

text \<open>The two rounds as functions of the value they add, and the value added in round \<open>i\<close>.\<close>

definition fwd :: "u64 \<Rightarrow> u64 \<Rightarrow> u64" where
  "fwd k x = prince_m_layer (prince_s_layer x) XOR k"

definition bwd :: "u64 \<Rightarrow> u64 \<Rightarrow> u64" where
  "bwd k x = prince_s_inv_layer (prince_m_inv_layer (x XOR k))"

definition round_key :: "u64 \<Rightarrow> u64 \<Rightarrow> nat \<Rightarrow> u64" where
  "round_key k0_new k1 i = (if i mod 2 = 1 then k0_new else k1)"

definition rc :: "nat \<Rightarrow> u64" where
  "rc i = round_constants ! i"

definition middle :: "u64 \<Rightarrow> u64" where
  "middle x = prince_s_inv_layer (prince_m_prime_layer (prince_s_layer x))"

lemma rounds_inverse: "bwd k (fwd k x) = x" "fwd k (bwd k x) = x" "middle (middle x) = x"
  by (simp_all add: fwd_def bwd_def middle_def m_layers_inverse s_layers_inverse
      prince_m_prime_involution xor.assoc)

lemma rc_reflect: "i < 12 \<Longrightarrow> rc (11 - i) = rc i XOR prince_alpha"
  using round_constants_reflect [of i] unfolding rc_def
  by (metis xor.assoc xor_self_eq xor.right_neutral xor.left_neutral)

lemma length_round_constants: "length round_constants = 12"
  by (simp add: round_constants_def)

lemma prince_round_constant_eq: "i < 12 \<Longrightarrow> prince_round_constant i = Inr (rc i)"
  by (simp add: prince_round_constant_def rc_def length_round_constants)

lemma forward_loop:
  assumes "n \<le> 11"
  shows "foldM (forward_round k0_new k1) [1..<Suc n] x =
    Inr (fold (\<lambda>i. fwd (round_key k0_new k1 i XOR rc i)) [1..<Suc n] x)"
proof (rule foldM_total)
  fix i s assume "i \<in> set [1..<Suc n]"
  then have "i < 12" using assms by auto
  then show "forward_round k0_new k1 i s = Inr (fwd (round_key k0_new k1 i XOR rc i) s)"
    by (simp add: forward_round_def prince_round_constant_eq fwd_def round_key_def xor.assoc Let_def
        del: res_bind_Inr)
qed

lemma backward_loop:
  assumes "n \<le> 11"
  shows "foldM (backward_round k0_new k1 (int n)) [1..<Suc n] x =
    Inr (fold (\<lambda>i. bwd (round_key k0_new k1 i XOR rc (11 - i))) (rev [1..<Suc n]) x)"
proof -
  have "foldM (backward_round k0_new k1 (int n)) [1..<Suc n] x =
      Inr (fold (\<lambda>i. bwd (round_key k0_new k1 (n + 1 - i) XOR rc (11 - (n + 1 - i)))) [1..<Suc n] x)"
  proof (rule foldM_total)
    fix i s assume "i \<in> set [1..<Suc n]"
    then have i: "1 \<le> i" "i \<le> n" by auto
    have "(10 - int n + int i) mod 2 ^ 32 = 10 - int n + int i"
      using i assms by (intro mod_pos_pos_trivial) auto
    then have idx: "nat ((10 - int n + int i) mod 2 ^ 32) = 11 - (n + 1 - i)"
      using i assms by simp
    have par: "(int n + int i + 1) mod 2 = 1 \<longleftrightarrow> (n + 1 - i) mod 2 = 1"
      using i by presburger
    show "backward_round k0_new k1 (int n) i s =
        Inr (bwd (round_key k0_new k1 (n + 1 - i) XOR rc (11 - (n + 1 - i))) s)"
      unfolding backward_round_def idx Let_def par
      using i assms by (simp add: prince_round_constant_eq bwd_def round_key_def xor.assoc)
  qed
  also have "fold (\<lambda>i. bwd (round_key k0_new k1 (n + 1 - i) XOR rc (11 - (n + 1 - i)))) [1..<Suc n] x =
      fold (\<lambda>i. bwd (round_key k0_new k1 i XOR rc (11 - i))) (map (\<lambda>i. n + 1 - i) [1..<Suc n]) x"
    by (simp add: fold_map comp_def)
  also have "map (\<lambda>i. n + 1 - i) [1..<Suc n] = rev [1..<Suc n]"
    by (rule nth_equalityI) (simp_all add: rev_nth del: upt_Suc)
  finally show ?thesis .
qed

lemma prince_core_eq:
  assumes "n \<le> 11"
  shows "prince_core c k0_new k1 (int n) =
    Inr (fold (\<lambda>i. bwd (round_key k0_new k1 i XOR rc (11 - i))) (rev [1..<Suc n])
      (middle (fold (\<lambda>i. fwd (round_key k0_new k1 i XOR rc i)) [1..<Suc n] (c XOR k1 XOR rc 0)))
      XOR k1 XOR rc 11)"
  using forward_loop [OF assms] backward_loop [OF assms]
  by (simp add: prince_core_def prince_round_constant_eq middle_def Let_def)

lemma fold_undo:
  "(\<And>i x. i \<in> set is \<Longrightarrow> g i (f i x) = x) \<Longrightarrow> fold g (rev is) (fold f is x) = x"
  by (induction "is" arbitrary: x) auto

text \<open>With the keys changed by \<open>alpha\<close> the core is its own inverse: the reflection property.\<close>

lemma prince_core_reflection:
  assumes "n \<le> 11" and "prince_core c k0_new k1 (int n) = Inr d"
  shows "prince_core d (k0_new XOR prince_alpha) (k1 XOR prince_alpha) (int n) = Inr c"
proof -
  let ?a = prince_alpha
  let ?f = "\<lambda>i. fwd (round_key k0_new k1 i XOR rc i)"
  let ?b = "\<lambda>i. bwd (round_key k0_new k1 i XOR rc (11 - i))"
  define p where "p = fold ?f [1..<Suc n] (c XOR k1 XOR rc 0)"
  define q where "q = fold ?b (rev [1..<Suc n]) (middle p)"
  have d: "d = q XOR k1 XOR rc 11"
    using assms by (simp add: prince_core_eq p_def q_def)
  have key: "round_key (k0_new XOR ?a) (k1 XOR ?a) i XOR rc i = round_key k0_new k1 i XOR rc (11 - i)"
    "round_key (k0_new XOR ?a) (k1 XOR ?a) i XOR rc (11 - i) = round_key k0_new k1 i XOR rc i"
    if "i \<in> set [1..<Suc n]" for i
    using that assms(1) rc_reflect [of i] by (auto simp: round_key_def xor.assoc xor.commute xor.left_commute)
  have "d XOR (k1 XOR ?a) XOR rc 0 = q"
    using rc_reflect [of 0] by (simp add: d xor.assoc xor.commute xor.left_commute)
  moreover have "fold (\<lambda>i. fwd (round_key (k0_new XOR ?a) (k1 XOR ?a) i XOR rc i)) [1..<Suc n] q = middle p"
  proof -
    have "fold (\<lambda>i. fwd (round_key (k0_new XOR ?a) (k1 XOR ?a) i XOR rc i)) [1..<Suc n] q =
        fold (\<lambda>i. fwd (round_key k0_new k1 i XOR rc (11 - i))) (rev (rev [1..<Suc n])) q"
      by (simp only: rev_rev_ident, rule fold_cong) (simp_all add: key)
    also have "\<dots> = middle p"
      unfolding q_def by (rule fold_undo) (rule rounds_inverse)
    finally show ?thesis .
  qed
  moreover have "fold (\<lambda>i. bwd (round_key (k0_new XOR ?a) (k1 XOR ?a) i XOR rc (11 - i))) (rev [1..<Suc n]) p =
      c XOR k1 XOR rc 0"
  proof -
    have "fold (\<lambda>i. bwd (round_key (k0_new XOR ?a) (k1 XOR ?a) i XOR rc (11 - i))) (rev [1..<Suc n]) p =
        fold (\<lambda>i. bwd (round_key k0_new k1 i XOR rc i)) (rev [1..<Suc n]) p"
      by (rule fold_cong) (simp_all add: key)
    also have "\<dots> = c XOR k1 XOR rc 0"
      unfolding p_def by (rule fold_undo) (rule rounds_inverse)
    finally show ?thesis .
  qed
  moreover have "(c XOR k1 XOR rc 0) XOR (k1 XOR ?a) XOR rc 11 = c"
    using rc_reflect [of 0] by (simp add: xor.assoc xor.commute xor.left_commute)
  ultimately show ?thesis
    using assms(1) by (simp add: prince_core_eq rounds_inverse del: upt_Suc)
qed

lemma upt_8: "[0..<8] = [0, 1, 2, 3, 4, 5, 6, 7 :: nat]"
  by (simp add: upt_rec)

section \<open>Bytes\<close>

lemma bit_bytes_fold:
  assumes "j < 8" and "8 * k + j < 64"
  shows "bit (fold (\<lambda>i out. push_bit 8 out OR (ucast (inp ! i) :: u64)) [0..<m] 0) (8 * k + j) \<longleftrightarrow>
    k < m \<and> bit (inp ! (m - 1 - k) :: u8) j"
  using assms
proof (induction m arbitrary: k)
  case (Suc m)
  have split: "[0..<Suc m] = [0..<m] @ [m]" by simp
  show ?case
  proof (cases k)
    case 0
    then show ?thesis using Suc.prems
      unfolding split by (simp add: bit_or_iff bit_push_bit_iff bit_ucast_iff)
  next
    case (Suc k')
    have "\<not> bit (inp ! m) (8 + (8 * k' + j))" using bit_imp_le_length by force
    then show ?thesis using Suc.prems Suc.IH [of k'] Suc
      unfolding split by (simp add: bit_or_iff bit_push_bit_iff bit_ucast_iff add.assoc)
  qed
qed simp

lemma bit_bytes_to_uint64:
  assumes "n < 64"
  shows "bit (bytes_to_uint64 inp) n = bit (inp ! (7 - n div 8)) (n mod 8)"
proof -
  have n: "n = 8 * (n div 8) + n mod 8" by simp
  have "n div 8 < 8" using assms by simp
  then show ?thesis
    using bit_bytes_fold [of "n mod 8" "n div 8" inp 8] assms n
    unfolding bytes_to_uint64_def by (simp del: mult_div_mod_eq)
qed

lemma length_uint64_to_bytes [simp]: "length (uint64_to_bytes x) = 8"
  by (simp add: uint64_to_bytes_def)

lemma bytes_uint64_bytes [simp]: "bytes_to_uint64 (uint64_to_bytes x) = x"
proof (rule bit_word_eqI)
  fix n :: nat
  assume "n < LENGTH(64)"
  then have n: "n < 64" "n div 8 < 8" by simp_all
  then have "7 - (7 - n div 8) = n div 8" by simp
  then show "bit (bytes_to_uint64 (uint64_to_bytes x)) n = bit x n"
    using n by (simp add: bit_bytes_to_uint64 uint64_to_bytes_def bit_ucast_iff bit_drop_bit_eq del: upt_Suc)
qed

lemma uint64_bytes_uint64:
  assumes "length bs = 8"
  shows "uint64_to_bytes (bytes_to_uint64 bs) = bs"
proof (rule nth_equalityI)
  fix i assume "i < length (uint64_to_bytes (bytes_to_uint64 bs))"
  then have i: "i < 8" by simp
  have "bit (ucast (drop_bit ((7 - i) * 8) (bytes_to_uint64 bs)) :: u8) n = bit (bs ! i) n"
    if "n < 8" for n
  proof -
    have "(7 - i) * 8 + n < 64" using i that by simp
    moreover have "((7 - i) * 8 + n) div 8 = 7 - i" "((7 - i) * 8 + n) mod 8 = n" using that by simp_all
    moreover have "7 - (7 - i) = i" using i by simp
    ultimately show ?thesis using that by (simp add: bit_ucast_iff bit_drop_bit_eq bit_bytes_to_uint64)
  qed
  then have "ucast (drop_bit ((7 - i) * 8) (bytes_to_uint64 bs)) = bs ! i"
    by (intro bit_word_eqI) simp
  then show "uint64_to_bytes (bytes_to_uint64 bs) ! i = bs ! i"
    using i by (simp add: uint64_to_bytes_def del: upt_Suc)
qed (simp add: assms)

section \<open>Decryption\<close>

text \<open>Within the table of constants the cipher returns, and decryption inverts it.\<close>

lemma prince_enc_dec_uint64_inverse:
  assumes "n \<le> 11"
  shows "\<exists>c. prince_enc_dec_uint64 m k0 k1 False n old = Inr c \<and>
             prince_enc_dec_uint64 c k0 k1 True n old = Inr m"
proof -
  have neg: "prince_core c k k' n = prince_core c k k' 0" if "n < 0" for c k k'
    using that by (simp add: prince_core_def)
  obtain l :: nat where l: "l \<le> 11" "\<And>c k k'. prince_core c k k' n = prince_core c k k' (int l)"
    using neg assms by (cases "n < 0") (force, metis nat_0_le nat_le_iff of_nat_numeral linorder_not_less)
  let ?k = "if old then k1 else k0"
  obtain d where d: "prince_core (m XOR k0) ?k k1 n = Inr d"
    using l by (simp add: prince_core_eq del: upt_Suc)
  have "prince_core d (?k XOR prince_alpha) (k1 XOR prince_alpha) n = Inr (m XOR k0)"
    using d l prince_core_reflection [of l] by simp
  then show ?thesis
    using d by (cases old) (simp_all add: prince_enc_dec_uint64_def Let_def xor.assoc)
qed

lemma prince_decrypts_bytes:
  assumes "length bs = 8" and "16 \<le> length key" and "n \<le> 11"
  shows "\<exists>cs. prince_encrypt bs key n old = Inr cs \<and> length cs = 8 \<and>
              prince_decrypt cs key n old = Inr bs"
proof -
  obtain c where "prince_enc_dec_uint64 (bytes_to_uint64 bs) (bytes_to_uint64 key)
        (bytes_to_uint64 (drop 8 key)) False n old = Inr c"
      "prince_enc_dec_uint64 c (bytes_to_uint64 key) (bytes_to_uint64 (drop 8 key)) True n old =
        Inr (bytes_to_uint64 bs)"
    using prince_enc_dec_uint64_inverse [OF assms(3)] by blast
  then show ?thesis using assms
    by (simp add: prince_encrypt_def prince_decrypt_def prince_enc_dec_def Let_def uint64_bytes_uint64)
qed

text \<open>More half rounds than constants: the table is read past its end, whatever the input.\<close>

lemma prince_core_undefined:
  assumes "11 < n"
  shows "prince_core c k0_new k1 n = Inl Undefined"
proof -
  define m where "m = nat n - 12"
  then have m: "Suc (nat n) = 12 + Suc m" using assms by simp
  have split: "[1..<Suc (nat n)] = [1..<Suc 11] @ 12 # [13..<Suc (nat n)]"
    unfolding m using upt_add_eq_append [of 1 12 "Suc m"] upt_conv_Cons [of 12 "12 + Suc m"] by simp
  have "forward_round k0_new k1 12 s = Inl Undefined" for s
    by (simp add: forward_round_def prince_round_constant_def length_round_constants Let_def)
  then have "foldM (forward_round k0_new k1) [1..<Suc (nat n)] s = Inl Undefined" for s
    unfolding split foldM_append using forward_loop [of 11] by simp
  then show ?thesis
    unfolding prince_core_def by (simp add: prince_round_constant_eq del: upt_Suc)
qed

section \<open>Properties\<close>

text \<open>C27: With at most 11 half rounds, decryption returns the plain text for every 8-byte block, every
  16-byte key and both key schedules, and both directions return.\<close>

theorem prince_decrypt_encrypt:
  assumes "length bs = 8" and "length key = 16" and "num_half_rounds \<le> 11"
  shows "\<exists>cs. prince_encrypt bs key num_half_rounds old = Inr cs \<and> length cs = 8 \<and>
              prince_decrypt cs key num_half_rounds old = Inr bs"
  using prince_decrypts_bytes assms by simp

theorem prince_decrypt_encrypt_witness:
  "\<exists>cs. prince_encrypt [1, 2, 3, 4, 5, 6, 7, 8] (replicate 16 9) 5 False = Inr cs \<and> length cs = 8 \<and>
              prince_decrypt cs (replicate 16 9) 5 False = Inr [1, 2, 3, 4, 5, 6, 7, 8]"
  by (rule prince_decrypt_encrypt) simp_all

text \<open>With 12 or more half rounds the table of 12 round constants is read past its end, whatever
  the input, the key and the direction.\<close>

theorem prince_too_many_rounds:
  assumes "11 < num_half_rounds"
  shows "prince_enc_dec_uint64 input k0 k1 decrypt num_half_rounds old = Inl Undefined"
  using prince_core_undefined [OF assms] by (simp add: prince_enc_dec_uint64_def Let_def)

theorem prince_too_many_rounds_witness:
  "prince_enc_dec_uint64 1 2 3 True 12 False = Inl Undefined"
  by (rule prince_too_many_rounds) simp

end
