(* ===== verification/Scramble.thy ===== *)
theory Scramble
  imports Bytes Prince
begin

text \<open>
  \<open>scramble_model.cc\<close>: the software model of memory scrambling.  Addresses and data pass through a
  substitution/permutation network, and data is combined with a keystream made by the cipher of
  theory \<open>Prince\<close>.  Byte vectors are little endian.  Widths are \<open>uint32_t\<close>; they are \<open>nat\<close> here
  with the wrap-around written out (\<open>wrap32\<close>, \<open>sub32\<close>) wherever it can occur.
  The theory shows that every layer is inverted by its counterpart, that the address scrambling is
  injective, and that decryption inverts encryption, for which widths, and when an \<open>assert\<close> fails.
\<close>

section \<open>Bits of a vector\<close>

definition wrap32 :: "nat \<Rightarrow> nat" where
  "wrap32 n = n mod 2 ^ 32"

text \<open>\<open>a - b\<close> on \<open>uint32_t\<close>.\<close>

definition sub32 :: "nat \<Rightarrow> nat \<Rightarrow> nat" where
  "sub32 a b = (a + (2 ^ 32 - b mod 2 ^ 32)) mod 2 ^ 32"

text \<open>\<open>(bit_width + 7) / 8\<close>\<close>

definition bytes_for :: "nat \<Rightarrow> nat" where
  "bytes_for bit_width = wrap32 (bit_width + 7) div 8"

definition kPrinceWidth :: nat where
  "kPrinceWidth = 64"

definition kPrinceWidthByte :: nat where
  "kPrinceWidthByte = kPrinceWidth div 8"

definition PRESENT_SBOX4 :: "u8 list" where
  "PRESENT_SBOX4 = [0xc, 0x5, 0x6, 0xb, 0x9, 0x0, 0xa, 0xd, 0x3, 0xe, 0xf, 0x8, 0x4, 0x7, 0x1, 0x2]"

definition PRESENT_SBOX4_INV :: "u8 list" where
  "PRESENT_SBOX4_INV = [0x5, 0xe, 0xf, 0x8, 0xc, 0x1, 0x2, 0xd, 0xb, 0x4, 0x6, 0x3, 0x0, 0x7, 0x9, 0xa]"

definition kNumAddrSubstPermRounds :: nat where
  "kNumAddrSubstPermRounds = 2"

definition kNumDataSubstPermRounds :: nat where
  "kNumDataSubstPermRounds = 2"

definition kNumPrinceHalfRounds :: int where
  "kNumPrinceHalfRounds = 3"

definition byte_reverse_vector :: "u8 list \<Rightarrow> u8 list" where
  "byte_reverse_vector vec_in = rev vec_in"

definition read_vector_bit :: "u8 list \<Rightarrow> nat \<Rightarrow> u8 res" where
  "read_vector_bit vec bit_pos =
     (if bit_pos div 8 < length vec
      then Inr (drop_bit (bit_pos mod 8) (vec ! (bit_pos div 8)) AND 1)
      else Inl Assert_failed)"

definition or_vector_bit :: "u8 list \<Rightarrow> nat \<Rightarrow> u8 \<Rightarrow> u8 list res" where
  "or_vector_bit vec bit_pos b =
     (if bit_pos div 8 < length vec
      then Inr (vec[bit_pos div 8 := vec ! (bit_pos div 8) OR push_bit (bit_pos mod 8) b])
      else Inl Assert_failed)"

text \<open>\<open>or_vector_bit(out, to, read_vector_bit(in, from))\<close>\<close>

definition copy_bit :: "u8 list \<Rightarrow> nat \<times> nat \<Rightarrow> u8 list \<Rightarrow> u8 list res" where
  "copy_bit inp ft out = res_bind (read_vector_bit inp (fst ft)) (or_vector_bit out (snd ft))"

definition xor_vectors :: "u8 list \<Rightarrow> u8 list \<Rightarrow> u8 list res" where
  "xor_vectors vec_a vec_b =
     (if length vec_a = length vec_b then Inr (map2 (XOR) vec_a vec_b) else Inl Assert_failed)"

section \<open>The layers\<close>

definition sbox_step :: "u8 list \<Rightarrow> u8 list \<Rightarrow> nat \<Rightarrow> u8 list \<Rightarrow> u8 list" where
  "sbox_step inp sbox i out =
     (let sbox_in = inp ! (i div 2);
          shift = if i mod 2 \<noteq> 0 then 4 else 0;
          sbox_in = drop_bit shift sbox_in AND 0xf;
          sbox_out = sbox ! unat sbox_in
      in out[i div 2 := out ! (i div 2) OR push_bit shift sbox_out])"

definition scramble_sbox_layer :: "u8 list \<Rightarrow> nat \<Rightarrow> u8 list \<Rightarrow> u8 list res" where
  "scramble_sbox_layer inp bit_width sbox =
     (if length inp \<noteq> bytes_for bit_width then Inl Assert_failed
      else if bytes_for bit_width < bit_width div 8 then Inl Undefined
      else
        let out = fold (sbox_step inp sbox) [0..<bit_width div 4] (replicate (length inp) 0)
        in if bit_width mod 4 \<noteq> 0 then
             let shift = if 4 \<le> bit_width mod 8 then 4 else 0;
                 nibble = drop_bit shift (inp ! (bit_width div 8)) AND 0xf
             in Inr (out[bit_width div 8 := out ! (bit_width div 8) OR push_bit shift nibble])
           else Inr out)"

definition scramble_flip_layer :: "u8 list \<Rightarrow> nat \<Rightarrow> u8 list res" where
  "scramble_flip_layer inp bit_width =
     (if length inp \<noteq> bytes_for bit_width then Inl Assert_failed
      else foldM (\<lambda>i. copy_bit inp (i, bit_width - i - 1)) [0..<bit_width]
             (replicate (length inp) 0))"

text \<open>The two copies of one turn of the permutation's loop.\<close>

definition perm_copies :: "nat \<Rightarrow> bool \<Rightarrow> nat \<Rightarrow> (nat \<times> nat) list" where
  "perm_copies bit_width invert i =
     (if invert then [(i, i * 2), (i + bit_width div 2, i * 2 + 1)]
      else [(i * 2, i), (i * 2 + 1, i + bit_width div 2)])"

definition scramble_perm_layer :: "u8 list \<Rightarrow> nat \<Rightarrow> bool \<Rightarrow> u8 list res" where
  "scramble_perm_layer inp bit_width invert =
     (if length inp \<noteq> bytes_for bit_width then Inl Assert_failed
      else res_bind
        (foldM (\<lambda>i. foldM (copy_bit inp) (perm_copies bit_width invert i)) [0..<bit_width div 2]
          (replicate (length inp) 0)) (\<lambda>out.
        if bit_width mod 2 \<noteq> 0 then copy_bit inp (bit_width - 1, bit_width - 1) out
        else Inr out))"

definition enc_round :: "u8 list \<Rightarrow> nat \<Rightarrow> u8 list \<Rightarrow> u8 list res" where
  "enc_round key bit_width state =
     res_bind (xor_vectors state key) (\<lambda>state.
     res_bind (scramble_sbox_layer state bit_width PRESENT_SBOX4) (\<lambda>state.
     res_bind (scramble_flip_layer state bit_width) (\<lambda>state.
     scramble_perm_layer state bit_width False)))"

definition scramble_subst_perm_enc :: "u8 list \<Rightarrow> u8 list \<Rightarrow> nat \<Rightarrow> nat \<Rightarrow> u8 list res" where
  "scramble_subst_perm_enc inp key bit_width num_rounds =
     (if length inp \<noteq> bytes_for bit_width \<or> length key \<noteq> bytes_for bit_width
      then Inl Assert_failed
      else res_bind (foldM (\<lambda>_. enc_round key bit_width) [0..<num_rounds] inp) (\<lambda>state.
           xor_vectors state key))"

definition dec_round :: "u8 list \<Rightarrow> nat \<Rightarrow> u8 list \<Rightarrow> u8 list res" where
  "dec_round key bit_width state =
     res_bind (xor_vectors state key) (\<lambda>state.
     res_bind (scramble_perm_layer state bit_width True) (\<lambda>state.
     res_bind (scramble_flip_layer state bit_width) (\<lambda>state.
     scramble_sbox_layer state bit_width PRESENT_SBOX4_INV)))"

definition scramble_subst_perm_dec :: "u8 list \<Rightarrow> u8 list \<Rightarrow> nat \<Rightarrow> nat \<Rightarrow> u8 list res" where
  "scramble_subst_perm_dec inp key bit_width num_rounds =
     (if length inp \<noteq> bytes_for bit_width \<or> length key \<noteq> bytes_for bit_width
      then Inl Assert_failed
      else res_bind (foldM (\<lambda>_. dec_round key bit_width) [0..<num_rounds] inp) (\<lambda>state.
           xor_vectors state key))"

section \<open>The keystream\<close>

text \<open>One turn of the loop that builds the initial vector.  \<open>nonce_bit\<close> is computed modulo \<open>2^32\<close>,
  stored in an \<open>int\<close> and converted back.\<close>

definition iv_bit :: "u8 list \<Rightarrow> nat \<Rightarrow> u8 list \<Rightarrow> nat \<Rightarrow> nat \<Rightarrow> u8 list \<Rightarrow> u8 list res" where
  "iv_bit addr addr_width nonce i j iv =
     (if j < addr_width then copy_bit addr (j, j) iv
      else let nonce_bit = wrap32 ((j - addr_width) + i * (kPrinceWidth - addr_width))
           in copy_bit nonce (nonce_bit, j) iv)"

definition keystream_block :: "u8 list \<Rightarrow> nat \<Rightarrow> u8 list \<Rightarrow> u8 list \<Rightarrow> int \<Rightarrow> nat \<Rightarrow> u8 list res" where
  "keystream_block addr addr_width nonce key num_half_rounds i =
     res_bind (foldM (iv_bit addr addr_width nonce i) [0..<kPrinceWidth] (replicate 8 0)) (\<lambda>iv.
     let iv = byte_reverse_vector iv; key_be = byte_reverse_vector key in
     res_bind (prince_enc_dec iv key_be False num_half_rounds False) (\<lambda>block.
     Inr (byte_reverse_vector block)))"

definition scramble_gen_keystream ::
  "u8 list \<Rightarrow> nat \<Rightarrow> u8 list \<Rightarrow> u8 list \<Rightarrow> nat \<Rightarrow> int \<Rightarrow> bool \<Rightarrow> u8 list res" where
  "scramble_gen_keystream addr addr_width nonce key keystream_width num_half_rounds repeat_keystream =
     (if length key \<noteq> kPrinceWidthByte * 2 then Inl Assert_failed
      else
        let blocks = wrap32 (keystream_width + kPrinceWidth - 1) div kPrinceWidth;
            num_princes = if repeat_keystream then 1 else blocks;
            num_repetitions = if repeat_keystream then blocks else 1
        in res_bind
          (foldM (\<lambda>i keystream.
              res_bind (keystream_block addr addr_width nonce key num_half_rounds i) (\<lambda>block.
              Inr (keystream @ concat (replicate num_repetitions block))))
            [0..<num_princes] []) (\<lambda>keystream.
        let keystream_bytes = bytes_for keystream_width;
            keystream_bytes_to_erase = length keystream - keystream_bytes;
            erased = take (length keystream - keystream_bytes_to_erase) keystream
        in if length keystream < keystream_bytes then Inl Undefined
           else if keystream_width mod 8 \<noteq> 0 then
             let last_i = length erased - 1
             in if erased = [] then Inl Undefined
                else Inr (erased[last_i := erased ! last_i AND (2 ^ (keystream_width mod 8) - 1)])
           else Inr erased))"

section \<open>Data and addresses\<close>

definition scramble_block ::
  "u8 list \<Rightarrow> nat \<Rightarrow> nat \<Rightarrow> bool \<Rightarrow> nat \<Rightarrow> u8 list \<Rightarrow> u8 list res" where
  "scramble_block inp bit_width subst_perm_width enc i out =
     (let subst_perm_bytes = bytes_for subst_perm_width;
          zero_key = replicate subst_perm_bytes 0;
          bits_so_far = wrap32 (subst_perm_width * i);
          block_width = min subst_perm_width (sub32 bit_width bits_so_far);
          from_to = (\<lambda>j. (wrap32 (j + i * subst_perm_width), j))
      in
      res_bind (foldM (\<lambda>j. copy_bit inp (from_to j)) [0..<block_width]
                 (replicate subst_perm_bytes 0)) (\<lambda>subst_perm_data.
      res_bind ((if enc then scramble_subst_perm_enc else scramble_subst_perm_dec)
                 subst_perm_data zero_key block_width kNumDataSubstPermRounds) (\<lambda>subst_perm_out.
      foldM (\<lambda>j. copy_bit subst_perm_out (snd (from_to j), fst (from_to j))) [0..<block_width] out)))"

definition scramble_subst_perm_full_width ::
  "u8 list \<Rightarrow> nat \<Rightarrow> nat \<Rightarrow> bool \<Rightarrow> u8 list res" where
  "scramble_subst_perm_full_width inp bit_width subst_perm_width enc =
     (if length inp \<noteq> bytes_for bit_width then Inl Assert_failed
      else if subst_perm_width = 0 then Inl Undefined
      else
        let subst_perm_blocks = wrap32 (bit_width + subst_perm_width - 1) div subst_perm_width
        in foldM (scramble_block inp bit_width subst_perm_width enc) [0..<subst_perm_blocks]
             (replicate (length inp) 0))"

definition scramble_addr :: "u8 list \<Rightarrow> nat \<Rightarrow> u8 list \<Rightarrow> nat \<Rightarrow> u8 list res" where
  "scramble_addr addr_in addr_width nonce nonce_width =
     (if length addr_in \<noteq> bytes_for addr_width then Inl Assert_failed
      else res_bind
        (foldM (\<lambda>i. copy_bit nonce (wrap32 (sub32 nonce_width addr_width + i), i)) [0..<addr_width]
          (replicate (length addr_in) 0)) (\<lambda>addr_enc_nonce.
        scramble_subst_perm_enc addr_in addr_enc_nonce addr_width kNumAddrSubstPermRounds))"

definition scramble_encrypt_data ::
  "u8 list \<Rightarrow> nat \<Rightarrow> nat \<Rightarrow> u8 list \<Rightarrow> nat \<Rightarrow> u8 list \<Rightarrow> u8 list \<Rightarrow> bool \<Rightarrow> bool \<Rightarrow> u8 list res" where
  "scramble_encrypt_data data_in data_width subst_perm_width addr addr_width nonce key
     repeat_keystream use_sp_layer =
     (if length data_in \<noteq> bytes_for data_width \<or> length addr \<noteq> bytes_for addr_width
      then Inl Assert_failed
      else res_bind (scramble_gen_keystream addr addr_width nonce key data_width
                       kNumPrinceHalfRounds repeat_keystream) (\<lambda>keystream.
           res_bind (xor_vectors data_in keystream) (\<lambda>data_enc.
           if use_sp_layer
           then scramble_subst_perm_full_width data_enc data_width subst_perm_width True
           else Inr data_enc)))"

definition scramble_decrypt_data ::
  "u8 list \<Rightarrow> nat \<Rightarrow> nat \<Rightarrow> u8 list \<Rightarrow> nat \<Rightarrow> u8 list \<Rightarrow> u8 list \<Rightarrow> bool \<Rightarrow> bool \<Rightarrow> u8 list res" where
  "scramble_decrypt_data data_in data_width subst_perm_width addr addr_width nonce key
     repeat_keystream use_sp_layer =
     (if length data_in \<noteq> bytes_for data_width \<or> length addr \<noteq> bytes_for addr_width
      then Inl Assert_failed
      else res_bind (scramble_gen_keystream addr addr_width nonce key data_width
                       kNumPrinceHalfRounds repeat_keystream) (\<lambda>keystream.
           if use_sp_layer then
             res_bind (scramble_subst_perm_full_width data_in data_width subst_perm_width False)
               (\<lambda>data_sp_out. xor_vectors data_sp_out keystream)
           else xor_vectors data_in keystream))"

section \<open>Copying bits\<close>

lemma foldM_concat: "foldM (\<lambda>i. foldM body (f i)) xs s = foldM body (concat (map f xs)) s"
  by (induction xs arbitrary: s) (auto simp: foldM_append intro: res_bind_cong)

lemma foldM_map: "foldM body (map f xs) s = foldM (\<lambda>i. body (f i)) xs s"
  by (induction xs arbitrary: s) (auto intro: res_bind_cong)

lemma and_1_vbit: "drop_bit (n mod 8) (v ! (n div 8)) AND 1 = (of_bool (vbit v n) :: u8)"
  by (simp add: vbit_def and_one_eq bit_iff_odd_drop_bit odd_iff_mod_2_eq_one)

lemma copy_bit_eq:
  assumes "fst ft < 8 * length inp" and "snd ft < 8 * length out"
  shows "\<exists>v. copy_bit inp ft out = Inr v \<and> length v = length out \<and>
    (\<forall>n<8 * length out. vbit v n = (vbit out n \<or> n = snd ft \<and> vbit inp (fst ft)))"
proof -
  let ?k = "snd ft div 8" and ?j = "snd ft mod 8"
  let ?v = "out[?k := out ! ?k OR push_bit ?j (of_bool (vbit inp (fst ft)))]"
  have "fst ft div 8 < length inp" and k: "?k < length out" using assms by (simp_all add: div_less_iff_less_mult)
  then have "copy_bit inp ft out = Inr ?v"
    by (simp add: copy_bit_def read_vector_bit_def or_vector_bit_def and_1_vbit del: res_bind_Inr)
  moreover have "vbit ?v n = (vbit out n \<or> n = snd ft \<and> vbit inp (fst ft))" for n
  proof (cases "n div 8 = ?k")
    case True
    then have "n = snd ft \<longleftrightarrow> n mod 8 = ?j" by (metis div_mult_mod_eq)
    then show ?thesis using True k
      by (auto simp: vbit_def bit_or_iff bit_push_bit_iff bit_1_iff)
  next
    case False
    then have "n \<noteq> snd ft" by auto
    then show ?thesis using False by (simp add: vbit_def)
  qed
  ultimately show ?thesis by simp
qed

lemma copy_bits:
  assumes "\<And>s d. (s, d) \<in> set fts \<Longrightarrow> s < 8 * length inp \<and> d < 8 * length out"
  shows "\<exists>v. foldM (copy_bit inp) fts out = Inr v \<and> length v = length out \<and>
    (\<forall>n<8 * length out. vbit v n = (vbit out n \<or> (\<exists>s. (s, n) \<in> set fts \<and> vbit inp s)))"
  using assms
proof (induction fts arbitrary: out)
  case (Cons ft fts)
  have "fst ft < 8 * length inp \<and> snd ft < 8 * length out"
    by (rule Cons.prems) simp
  then obtain v where v: "copy_bit inp ft out = Inr v" "length v = length out"
    "\<And>n. n < 8 * length out \<Longrightarrow> vbit v n = (vbit out n \<or> n = snd ft \<and> vbit inp (fst ft))"
    using copy_bit_eq [of ft inp out] by blast
  have "\<exists>w. foldM (copy_bit inp) fts v = Inr w \<and> length w = length v \<and>
    (\<forall>n<8 * length v. vbit w n = (vbit v n \<or> (\<exists>s. (s, n) \<in> set fts \<and> vbit inp s)))"
    by (rule Cons.IH) (use Cons.prems v in auto)
  then show ?case using v by (cases ft) (auto simp del: res_bind_Inr)
qed simp

text \<open>Into a vector of zeros.\<close>

lemma copy_bits_fresh:
  assumes "\<And>s d. (s, d) \<in> set fts \<Longrightarrow> s < 8 * length inp \<and> d < 8 * m"
    and "\<And>n. n < 8 * m \<Longrightarrow> f n = (\<exists>s. (s, n) \<in> set fts \<and> vbit inp s)"
  shows "foldM (copy_bit inp) fts (replicate m 0) = Inr (vec_of m f)"
proof -
  obtain v where "foldM (copy_bit inp) fts (replicate m 0) = Inr v" "length v = m"
    "\<And>n. n < 8 * m \<Longrightarrow> vbit v n = (\<exists>s. (s, n) \<in> set fts \<and> vbit inp s)"
    using copy_bits [of fts inp "replicate m 0"] assms(1) by (auto simp: vbit_replicate_0)
  moreover from this have "v = vec_of m f" using assms(2) by (intro eq_vec_of) simp_all
  ultimately show ?thesis by simp
qed

lemma copy_range_fresh:
  assumes "\<And>i. i < w \<Longrightarrow> s i < 8 * length inp" and "\<And>i. i < w \<Longrightarrow> d i < 8 * m"
    and "\<And>n. n < 8 * m \<Longrightarrow> f n = (\<exists>i<w. n = d i \<and> vbit inp (s i))"
  shows "foldM (\<lambda>i. copy_bit inp (s i, d i)) [0..<w] (replicate m 0) = Inr (vec_of m f)"
proof -
  have "foldM (copy_bit inp) (map (\<lambda>i. (s i, d i)) [0..<w]) (replicate m 0) = Inr (vec_of m f)"
  proof (rule copy_bits_fresh)
    show "f n = (\<exists>k. (k, n) \<in> set (map (\<lambda>i. (s i, d i)) [0..<w]) \<and> vbit inp k)" if "n < 8 * m" for n
    proof -
      have "(k, n) \<in> set (map (\<lambda>i. (s i, d i)) [0..<w]) \<longleftrightarrow> (\<exists>i<w. k = s i \<and> n = d i)" for k
        by auto
      then show ?thesis unfolding assms(3) [OF that] by metis
    qed
    show "k < 8 * length inp \<and> n < 8 * m" if "(k, n) \<in> set (map (\<lambda>i. (s i, d i)) [0..<w])" for k n
      using that assms(1,2) by auto
  qed
  then show ?thesis by (simp add: foldM_map)
qed

section \<open>Widths\<close>

lemma bytes_for_eq: "w \<le> 2 ^ 32 - 8 \<Longrightarrow> bytes_for w = (w + 7) div 8"
  by (simp add: bytes_for_def wrap32_def)

lemma bytes_for_bound: "w \<le> 2 ^ 32 - 8 \<Longrightarrow> w \<le> 8 * bytes_for w \<and> 8 * bytes_for w < w + 8"
  by (simp add: bytes_for_eq) linarith

lemma wrap32_less: "n < 2 ^ 32 \<Longrightarrow> wrap32 n = n"
  by (simp add: wrap32_def)

lemma sub32_le: "a < 2 ^ 32 \<Longrightarrow> b \<le> a \<Longrightarrow> sub32 a b = a - b"
proof -
  assume "a < 2 ^ 32" "b \<le> a"
  then have "b mod 2 ^ 32 = b" "a + (2 ^ 32 - b) = (a - b) + 2 ^ 32" "a - b < 2 ^ 32" by simp_all
  then show ?thesis unfolding sub32_def by (metis mod_add_self2 mod_less)
qed

text \<open>A vector of a width: the bits at and above the width are zero.\<close>

definition clean :: "nat \<Rightarrow> u8 list \<Rightarrow> bool" where
  "clean w v \<longleftrightarrow> length v = bytes_for w \<and> list_all (\<lambda>n. \<not> vbit v n) [w..<8 * length v]"

lemma cleanI: "length v = bytes_for w \<Longrightarrow> (\<And>n. w \<le> n \<Longrightarrow> n < 8 * bytes_for w \<Longrightarrow> \<not> vbit v n) \<Longrightarrow> clean w v"
  by (auto simp: clean_def list_all_iff)

lemma cleanD: "clean w v \<Longrightarrow> length v = bytes_for w" "clean w v \<Longrightarrow> w \<le> n \<Longrightarrow> n < 8 * bytes_for w \<Longrightarrow> \<not> vbit v n"
  by (auto simp: clean_def list_all_iff)

lemma clean_vec_of: "clean w (vec_of (bytes_for w) (\<lambda>n. n < w \<and> f n))"
  by (rule cleanI) (simp_all add: vbit_vec_of)

lemma clean_eqI:
  assumes "clean w v" and "clean w u" and "\<And>n. n < w \<Longrightarrow> vbit v n = vbit u n"
  shows "v = u"
proof (rule vbit_ext)
  show "vbit v n = vbit u n" if "n < 8 * length v" for n
    using assms that by (cases "n < w") (simp_all add: cleanD)
qed (use assms in \<open>simp add: cleanD\<close>)

lemma clean_xor: "clean w v \<Longrightarrow> clean w u \<Longrightarrow> clean w (map2 (XOR) v u)"
  by (rule cleanI) (simp_all add: cleanD vbit_map2_xor)

section \<open>What the layers compute\<close>

lemma flip_layer_eq:
  assumes "length inp = bytes_for w" and "w \<le> 2 ^ 32 - 8"
  shows "scramble_flip_layer inp w =
    Inr (vec_of (bytes_for w) (\<lambda>n. n < w \<and> vbit inp (w - 1 - n)))"
proof -
  have *: "n < w \<and> vbit inp (w - 1 - n) \<longleftrightarrow> (\<exists>i<w. n = w - i - 1 \<and> vbit inp i)" for n
  proof
    assume "n < w \<and> vbit inp (w - 1 - n)"
    then show "\<exists>i<w. n = w - i - 1 \<and> vbit inp i" by (intro exI [of _ "w - 1 - n"]) auto
  next
    assume "\<exists>i<w. n = w - i - 1 \<and> vbit inp i"
    then obtain i where "i < w" "n = w - i - 1" "vbit inp i" by blast
    moreover from this have "w - 1 - n = i" by simp
    ultimately show "n < w \<and> vbit inp (w - 1 - n)" by simp
  qed
  have "foldM (\<lambda>i. copy_bit inp (i, w - i - 1)) [0..<w] (replicate (bytes_for w) 0) =
      Inr (vec_of (bytes_for w) (\<lambda>n. n < w \<and> vbit inp (w - 1 - n)))"
    by (rule copy_range_fresh [OF _ _ *]) (use assms bytes_for_bound [OF assms(2)] in auto)
  then show ?thesis by (simp add: scramble_flip_layer_def assms(1))
qed

text \<open>Where bit \<open>n\<close> of the permutation's result comes from.\<close>

definition perm_source :: "nat \<Rightarrow> bool \<Rightarrow> nat \<Rightarrow> nat" where
  "perm_source w invert n =
     (if 2 * (w div 2) \<le> n then n
      else if invert then (if n mod 2 = 0 then n div 2 else n div 2 + w div 2)
      else if n < w div 2 then 2 * n else 2 * (n - w div 2) + 1)"

lemma perm_source_less: "n < w \<Longrightarrow> perm_source w b n < w"
  unfolding perm_source_def by (cases b; simp; linarith)

lemma perm_source_inverse: "perm_source w (\<not> b) (perm_source w b n) = n"
proof (cases "2 * (w div 2) \<le> n")
  case True
  then show ?thesis by (simp add: perm_source_def)
next
  case False
  define h where "h = w div 2"
  then have n: "n < 2 * h" using False by simp
  show ?thesis
  proof (cases b)
    case True
    obtain k where "n = 2 * k \<or> n = 2 * k + 1" by (metis evenE oddE)
    then show ?thesis using True n by (auto simp: perm_source_def h_def [symmetric])
  next
    case False
    then show ?thesis using n by (auto simp: perm_source_def h_def [symmetric])
  qed
qed

lemma perm_copies_source:
  "(s, d) \<in> set (concat (map (perm_copies w b) [0..<w div 2]) @ (if w mod 2 \<noteq> 0 then [(w - 1, w - 1)] else [])) \<longleftrightarrow>
   d < w \<and> s = perm_source w b d" (is "_ \<in> set ?l \<longleftrightarrow> _")
proof -
  have mem: "(s, d) \<in> set ?l \<longleftrightarrow>
      (\<exists>i<w div 2. (s, d) \<in> set (perm_copies w b i)) \<or> (w mod 2 \<noteq> 0 \<and> s = w - 1 \<and> d = w - 1)"
    by (auto simp: image_iff)
  define h where "h = w div 2"
  have w: "w = 2 * h + w mod 2" "w mod 2 < 2" by (simp_all add: h_def)
  have cases: "d < w \<longleftrightarrow> d < 2 * h \<or> (w mod 2 \<noteq> 0 \<and> d = w - 1)" using w by linarith
  have odd_source: "perm_source w b (w - 1) = w - 1" if "w mod 2 \<noteq> 0"
    using that w by (simp add: perm_source_def h_def [symmetric])
  then have odd_iff: "(w mod 2 \<noteq> 0 \<and> s = w - 1 \<and> d = w - 1) =
      (w mod 2 \<noteq> 0 \<and> d = w - 1 \<and> s = perm_source w b d)" by metis
  have even_case: "(\<exists>i<h. (s, d) \<in> set (perm_copies w b i)) \<longleftrightarrow> d < 2 * h \<and> s = perm_source w b d"
  proof (cases b)
    case True
    have "(\<exists>i<h. (s, d) \<in> set (perm_copies w b i)) \<longleftrightarrow>
        (\<exists>i<h. d = 2 * i \<and> s = i) \<or> (\<exists>i<h. d = 2 * i + 1 \<and> s = i + h)"
      using True by (auto simp: perm_copies_def h_def [symmetric])
    moreover obtain k where "d = 2 * k \<or> d = 2 * k + 1" by (metis evenE oddE)
    ultimately show ?thesis using True by (auto simp: perm_source_def h_def [symmetric])
  next
    case False
    have "(\<exists>i<h. (s, d) \<in> set (perm_copies w b i)) \<longleftrightarrow>
        d < h \<and> s = 2 * d \<or> (\<exists>i<h. d = i + h \<and> s = 2 * i + 1)"
      using False by (auto simp: perm_copies_def h_def [symmetric])
    also have "(\<exists>i<h. d = i + h \<and> s = 2 * i + 1) \<longleftrightarrow> h \<le> d \<and> d < 2 * h \<and> s = 2 * (d - h) + 1"
      by (metis add.commute add_diff_cancel_left' le_add1 less_diff_conv2 le_add_diff_inverse mult_2 nat_add_left_cancel_less)
    finally show ?thesis using False by (auto simp: perm_source_def h_def [symmetric])
  qed
  show ?thesis
    unfolding mem unfolding h_def [symmetric] even_case odd_iff cases by argo
qed

lemma perm_layer_eq:
  assumes "length inp = bytes_for w" and "w \<le> 2 ^ 32 - 8"
  shows "scramble_perm_layer inp w b =
    Inr (vec_of (bytes_for w) (\<lambda>n. n < w \<and> vbit inp (perm_source w b n)))"
proof -
  let ?l = "concat (map (perm_copies w b) [0..<w div 2]) @ (if w mod 2 \<noteq> 0 then [(w - 1, w - 1)] else [])"
  have one: "foldM body [x] = body x" for body :: "'x \<Rightarrow> 's \<Rightarrow> 's res" and x
    by (rule ext) (simp add: res_bind_def split: sum.split)
  have "foldM (copy_bit inp) ?l (replicate (bytes_for w) 0) =
      Inr (vec_of (bytes_for w) (\<lambda>n. n < w \<and> vbit inp (perm_source w b n)))"
  proof (rule copy_bits_fresh)
    fix s d
    assume "(s, d) \<in> set ?l"
    then show "s < 8 * length inp \<and> d < 8 * bytes_for w"
      unfolding perm_copies_source
      using perm_source_less [of d w b] bytes_for_bound [OF assms(2)] assms(1) by auto
  next
    show "(n < w \<and> vbit inp (perm_source w b n)) = (\<exists>s. (s, n) \<in> set ?l \<and> vbit inp s)" for n
      unfolding perm_copies_source by blast
  qed
  moreover have "scramble_perm_layer inp w b = foldM (copy_bit inp) ?l (replicate (bytes_for w) 0)"
    unfolding scramble_perm_layer_def foldM_concat foldM_append
    using assms by (auto intro!: res_bind_cong simp: one simp del: foldM.simps(2))
  ultimately show ?thesis by simp
qed

lemma vbit_vec_below: "w \<le> 2 ^ 32 - 8 \<Longrightarrow> n < w \<Longrightarrow> vbit (vec_of (bytes_for w) f) n = f n"
  using bytes_for_bound [of w] by (intro vbit_vec_of) linarith

lemma flip_layer_inverse:
  assumes "clean w v" and "w \<le> 2 ^ 32 - 8"
  shows "\<exists>u. scramble_flip_layer v w = Inr u \<and> clean w u \<and> scramble_flip_layer u w = Inr v"
proof -
  let ?u = "vec_of (bytes_for w) (\<lambda>n. n < w \<and> vbit v (w - 1 - n))"
  have "vec_of (bytes_for w) (\<lambda>n. n < w \<and> vbit ?u (w - 1 - n)) = v"
    using clean_vec_of assms(1) by (rule clean_eqI) (simp add: vbit_vec_below [OF assms(2)])
  then show ?thesis using assms by (simp add: flip_layer_eq cleanD clean_vec_of)
qed

lemma perm_layer_inverse:
  assumes "clean w v" and "w \<le> 2 ^ 32 - 8"
  shows "\<exists>u. scramble_perm_layer v w b = Inr u \<and> clean w u \<and> scramble_perm_layer u w (\<not> b) = Inr v"
proof -
  let ?u = "vec_of (bytes_for w) (\<lambda>n. n < w \<and> vbit v (perm_source w b n))"
  have "perm_source w b (perm_source w (\<not> b) n) = n" for n
    using perm_source_inverse [of w "\<not> b" n] by simp
  then have "vec_of (bytes_for w) (\<lambda>n. n < w \<and> vbit ?u (perm_source w (\<not> b) n)) = v"
    using perm_source_less [of _ w "\<not> b"]
    by (intro clean_eqI [OF clean_vec_of assms(1)]) (simp add: vbit_vec_below [OF assms(2)])
  then show ?thesis using assms by (simp add: perm_layer_eq cleanD clean_vec_of)
qed

section \<open>Nibbles\<close>

definition nibble :: "u8 list \<Rightarrow> nat \<Rightarrow> u8" where
  "nibble v k = drop_bit (if k mod 2 \<noteq> 0 then 4 else 0) (v ! (k div 2)) AND 0xf"

definition or_nibble :: "u8 list \<Rightarrow> nat \<Rightarrow> u8 \<Rightarrow> u8 list" where
  "or_nibble out k x = out[k div 2 := out ! (k div 2) OR push_bit (if k mod 2 \<noteq> 0 then 4 else 0) x]"

lemma nibble_index:
  fixes k :: nat
  assumes "r < 4"
  shows "(4 * k + r) div 8 = k div 2" and "(4 * k + r) mod 8 = (if k mod 2 \<noteq> 0 then 4 + r else r)"
proof -
  have "(4 * k + r) div 8 = k div 2 \<and> (4 * k + r) mod 8 = (if k mod 2 \<noteq> 0 then 4 + r else r)"
  proof (cases "even k")
    case True
    then obtain m where k: "k = 2 * m" by blast
    then have "4 * k + r = r + 8 * m" by simp
    then show ?thesis using assms k by (simp del: mult_Suc_right)
  next
    case False
    then obtain m where k: "k = 2 * m + 1" by (blast elim: oddE)
    then have "4 * k + r = (4 + r) + 8 * m" by simp
    then show ?thesis using assms k by (simp only: div_mult_self2 mod_mult_self2) simp
  qed
  then show "(4 * k + r) div 8 = k div 2" "(4 * k + r) mod 8 = (if k mod 2 \<noteq> 0 then 4 + r else r)"
    by simp_all
qed

lemma bit_nibble: "bit (nibble v k) j \<longleftrightarrow> j < 4 \<and> vbit v (4 * k + j)"
proof -
  have mask: "(x :: u8) AND 0xf = take_bit 4 x" for x by (simp add: take_bit_eq_mask mask_numeral)
  show ?thesis
    by (auto simp: nibble_def mask bit_take_bit_iff bit_drop_bit_eq vbit_def nibble_index)
qed

lemma low_nibble:
  assumes "unat (x :: u8) < 16" and "4 \<le> m"
  shows "\<not> bit x m"
proof -
  have "x < 2 ^ 4" using assms(1) by (simp add: word_less_nat_alt)
  then have "take_bit 4 x = x" by (simp add: less_mask_eq take_bit_eq_mask)
  then show ?thesis using assms(2) by (metis bit_take_bit_iff not_le)
qed

lemma nibble_bound: "unat (nibble v k) < 16"
proof -
  have "nibble v k = take_bit 4 (nibble v k)"
    by (rule bit_word_eqI) (simp add: bit_take_bit_iff bit_nibble)
  moreover have "unat (take_bit 4 x) < 2 ^ 4" for x :: u8
    unfolding unsigned_take_bit_eq by (rule take_bit_nat_less_exp)
  ultimately have "unat (nibble v k) < 2 ^ 4" by metis
  then show ?thesis by simp
qed

lemma length_or_nibble [simp]: "length (or_nibble out k x) = length out"
  by (simp add: or_nibble_def)

lemma vbit_or_nibble:
  assumes "unat x < 16" and "k div 2 < length out"
  shows "vbit (or_nibble out k x) n \<longleftrightarrow> vbit out n \<or> n div 4 = k \<and> bit x (n mod 4)"
proof -
  define q r where "q = n div 4" and "r = n mod 4"
  then have n: "n = 4 * q + r" "r < 4" by simp_all
  have "bit (push_bit (if k mod 2 \<noteq> 0 then 4 else 0) x) (n mod 8) \<longleftrightarrow> q = k \<and> bit x r" if "q div 2 = k div 2"
  proof -
    have "q = k \<longleftrightarrow> q mod 2 = k mod 2" using that by (metis div_mult_mod_eq)
    moreover have "n mod 8 < 8" by simp
    ultimately show ?thesis
      unfolding n(1) nibble_index(2) [OF n(2)]
      using n(2) low_nibble [OF assms(1)] by (auto simp: bit_push_bit_iff)
  qed
  moreover have "n div 8 = q div 2" unfolding n(1) by (rule nibble_index(1) [OF n(2)])
  ultimately show ?thesis
    using assms(2) unfolding q_def [symmetric] r_def [symmetric] or_nibble_def vbit_def
    by (cases "q div 2 = k div 2") (auto simp: bit_or_iff simp del: split_paired_All)
qed

section \<open>The substitution layer\<close>

definition sbox_result :: "u8 list \<Rightarrow> nat \<Rightarrow> u8 list \<Rightarrow> nat \<Rightarrow> bool" where
  "sbox_result inp w sbox n =
     (if n div 4 < w div 4 then bit (sbox ! unat (nibble inp (n div 4))) (n mod 4) else vbit inp n)"

lemma sbox_layer_eq:
  assumes "clean w inp" and "w \<le> 2 ^ 32 - 8" and "length sbox = 16" and "\<forall>x\<in>set sbox. unat x < 16"
  shows "scramble_sbox_layer inp w sbox = Inr (vec_of (bytes_for w) (sbox_result inp w sbox))"
proof -
  let ?s = "\<lambda>i. sbox ! unat (nibble inp i)"
  let ?out = "fold (sbox_step inp sbox) [0..<w div 4] (replicate (length inp) 0)"
  have len: "length inp = bytes_for w" using assms(1) by (rule cleanD)
  note b = bytes_for_bound [OF assms(2)]
  have small: "unat (?s i) < 16" for i using assms(3,4) nibble_bound [of inp i] by simp
  have step: "sbox_step inp sbox i out = or_nibble out i (?s i)" for i out
    by (simp add: sbox_step_def or_nibble_def nibble_def Let_def)
  have loop: "length (fold (sbox_step inp sbox) is out) = length out \<and>
      (\<forall>n. vbit (fold (sbox_step inp sbox) is out) n \<longleftrightarrow> vbit out n \<or> n div 4 \<in> set is \<and> bit (?s (n div 4)) (n mod 4))"
    if "\<forall>i\<in>set is. i div 2 < length out" for "is" out
    using that
  proof (induction "is" arbitrary: out)
    case (Cons i "is")
    then show ?case by (auto simp: step vbit_or_nibble [OF small])
  qed simp
  have "\<forall>i\<in>set [0..<w div 4]. i div 2 < length (replicate (length inp) (0 :: u8))"
    using b by (auto simp: len)
  from loop [OF this] have out: "length ?out = bytes_for w"
    "\<And>n. vbit ?out n \<longleftrightarrow> vbit (replicate (length inp) 0) n \<or>
      n div 4 \<in> set [0..<w div 4] \<and> bit (?s (n div 4)) (n mod 4)"
    by (simp_all only: length_replicate len)
  then have bits: "vbit ?out n \<longleftrightarrow> n div 4 < w div 4 \<and> bit (?s (n div 4)) (n mod 4)"
    if "n < 8 * bytes_for w" for n
    unfolding out(2) len using that by (simp add: vbit_replicate_0)
  show ?thesis
  proof (cases "w mod 4 = 0")
    case True
    have "?out = vec_of (bytes_for w) (sbox_result inp w sbox)"
    proof (rule eq_vec_of)
      fix n assume n: "n < 8 * bytes_for w"
      have "\<not> vbit inp n" if "\<not> n div 4 < w div 4"
      proof (rule cleanD(2) [OF assms(1) _ n])
        show "w \<le> n" using that True by (metis div_le_mono mult_div_mod_eq not_less add.right_neutral div_mult2_eq mult_le_mono2 times_div_less_eq_dividend order_trans)
      qed
      then show "vbit ?out n = sbox_result inp w sbox n" using bits [OF n] by (simp add: sbox_result_def)
    qed (rule out)
    moreover have "\<not> bytes_for w < w div 8" using b by linarith
    ultimately show ?thesis using True len by (simp add: scramble_sbox_layer_def Let_def)
  next
    case False
    then have "w \<noteq> 8 * bytes_for w" by presburger
    then have w8: "w div 8 < bytes_for w" using b by (auto simp: div_less_iff_less_mult)
    have sh: "(w div 4) div 2 = w div 8" "((w div 4) mod 2 \<noteq> 0) = (4 \<le> w mod 8)"
      by (simp_all add: div_mult2_eq [symmetric], presburger)
    have "or_nibble ?out (w div 4) (nibble inp (w div 4)) = vec_of (bytes_for w) (sbox_result inp w sbox)"
    proof (rule eq_vec_of)
      fix n assume n: "n < 8 * bytes_for w"
      have "\<not> vbit inp n" if "w div 4 < n div 4"
      proof (rule cleanD(2) [OF assms(1) _ n])
        show "w \<le> n" using that by linarith
      qed
      moreover have "n div 4 = w div 4 \<Longrightarrow> 4 * (w div 4) + n mod 4 = n" by (metis mult_div_mod_eq)
      ultimately show "vbit (or_nibble ?out (w div 4) (nibble inp (w div 4))) n = sbox_result inp w sbox n"
        using out(1) bits [OF n] w8 sh
        by (cases "n div 4" "w div 4" rule: linorder_cases)
          (auto simp: vbit_or_nibble nibble_bound sbox_result_def bit_nibble)
    qed (simp add: out)
    moreover have "scramble_sbox_layer inp w sbox = Inr (or_nibble ?out (w div 4) (nibble inp (w div 4)))"
      using False len w8 unfolding scramble_sbox_layer_def Let_def or_nibble_def nibble_def sh by simp
    ultimately show ?thesis by simp
  qed
qed

lemma sbox_layer_inverse:
  assumes "clean w v" and w: "w \<le> 2 ^ 32 - 8"
    and "length s = 16" and "\<forall>x\<in>set s. unat x < 16"
    and "length t = 16" and "\<forall>x\<in>set t. unat x < 16"
    and inv: "\<And>x. unat x < 16 \<Longrightarrow> t ! unat (s ! unat x) = (x :: u8)"
  shows "\<exists>u. scramble_sbox_layer v w s = Inr u \<and> clean w u \<and> scramble_sbox_layer u w t = Inr v"
proof -
  let ?u = "vec_of (bytes_for w) (sbox_result v w s)"
  have clean: "clean w (vec_of (bytes_for w) (sbox_result v w s))" if "clean w v" for v s
  proof (rule cleanI)
    fix n assume "w \<le> n" "n < 8 * bytes_for w"
    moreover from this have "\<not> n div 4 < w div 4" by (meson div_le_mono not_le)
    ultimately show "\<not> vbit (vec_of (bytes_for w) (sbox_result v w s)) n"
      using that by (simp add: vbit_vec_of sbox_result_def cleanD)
  qed simp
  have "nibble ?u k = s ! unat (nibble v k)" if "k < w div 4" for k
  proof (rule bit_word_eqI)
    fix j :: nat assume "j < LENGTH(8)"
    have "4 * k + j < w" if "j < 4" using \<open>k < w div 4\<close> that by linarith
    moreover have "unat (s ! unat (nibble v k)) < 16" using assms(3,4) nibble_bound [of v k] by simp
    ultimately show "bit (nibble ?u k) j = bit (s ! unat (nibble v k)) j"
      using that low_nibble by (cases "j < 4") (auto simp: bit_nibble vbit_vec_below [OF w] sbox_result_def)
  qed
  then have "sbox_result ?u w t n = vbit v n" if "n < w" for n
    using that by (auto simp: sbox_result_def inv nibble_bound bit_nibble vbit_vec_below [OF w])
  then have "vec_of (bytes_for w) (sbox_result ?u w t) = v"
    using clean assms(1) by (intro clean_eqI [of w]) (simp_all add: vbit_vec_below [OF w])
  then show ?thesis using assms clean by (simp add: sbox_layer_eq)
qed

section \<open>The substitution/permutation network\<close>

text \<open>A network of rounds: a self-inverse key mixing step, and layers with an inverse.\<close>

locale round_pair =
  fixes state_ok :: "'v \<Rightarrow> bool" and mix enc_layers dec_layers :: "'v \<Rightarrow> 'v res"
  assumes mix_inverse: "state_ok v \<Longrightarrow> \<exists>u. mix v = Inr u \<and> state_ok u \<and> mix u = Inr v"
    and layers_inverse: "state_ok v \<Longrightarrow> \<exists>u. enc_layers v = Inr u \<and> state_ok u \<and> dec_layers u = Inr v"
begin

lemma foldM_const_Suc:
  "foldM (\<lambda>_. f) [0..<Suc n] s = res_bind (f s) (foldM (\<lambda>_. f) [0..<n])" for f :: "'v \<Rightarrow> 'v res"
proof -
  have const: "length xs = length ys \<Longrightarrow> foldM (\<lambda>_. f) xs t = foldM (\<lambda>_. f) ys t" for xs ys :: "nat list" and t
    by (induction xs ys arbitrary: t rule: list_induct2) (auto intro: res_bind_cong)
  have "foldM (\<lambda>_. f) [Suc 0..<Suc n] = foldM (\<lambda>_. f) [0..<n]"
    by (rule ext, rule const) simp
  then show ?thesis by (simp add: upt_conv_Cons del: upt_Suc)
qed

lemma network_inverse:
  assumes "state_ok v"
  shows "\<exists>u. res_bind (foldM (\<lambda>_ s. res_bind (mix s) enc_layers) [0..<n] v) mix = Inr u \<and> state_ok u \<and>
    res_bind (foldM (\<lambda>_ s. res_bind (mix s) dec_layers) [0..<n] u) mix = Inr v"
proof -
  have "\<exists>s u. foldM (\<lambda>_ s. res_bind (mix s) enc_layers) [0..<n] v = Inr s \<and> state_ok s \<and>
    mix s = Inr u \<and> state_ok u \<and>
    res_bind (foldM (\<lambda>_ s. res_bind (mix s) dec_layers) [0..<n] u) mix = Inr v"
  proof (induction n)
    case 0
    then show ?case using mix_inverse [OF assms] assms by auto
  next
    case (Suc n)
    then obtain s u where su: "foldM (\<lambda>_ s. res_bind (mix s) enc_layers) [0..<n] v = Inr s"
      "mix s = Inr u" "state_ok u"
      "res_bind (foldM (\<lambda>_ s. res_bind (mix s) dec_layers) [0..<n] u) mix = Inr v"
      by blast
    obtain s' where s': "enc_layers u = Inr s'" "state_ok s'" "dec_layers s' = Inr u"
      using layers_inverse [OF su(3)] by blast
    obtain u' where u': "mix s' = Inr u'" "state_ok u'" "mix u' = Inr s'"
      using mix_inverse [OF s'(2)] by blast
    have "foldM (\<lambda>_ s. res_bind (mix s) enc_layers) [0..<Suc n] v = Inr s'"
      using su s' by (simp add: foldM_Suc del: upt_Suc)
    moreover have "res_bind (foldM (\<lambda>_ s. res_bind (mix s) dec_layers) [0..<Suc n] u') mix = Inr v"
      unfolding foldM_const_Suc using u' s' su(4) by (simp del: res_bind_Inr)
    ultimately show ?case using s' u' by blast
  qed
  then show ?thesis by (auto simp del: upt_Suc)
qed

end

text \<open>With the layers inverse to each other in both orders, the decrypting network is one too.\<close>

locale round_iso = round_pair +
  assumes layers_inverse': "state_ok v \<Longrightarrow> \<exists>u. dec_layers v = Inr u \<and> state_ok u \<and> enc_layers u = Inr v"

sublocale round_iso < mirror: round_pair state_ok mix dec_layers enc_layers
  by unfold_locales (auto intro: mix_inverse layers_inverse')

lemma xor_vectors_inverse:
  assumes "clean w v" and "clean w key"
  shows "\<exists>u. xor_vectors v key = Inr u \<and> clean w u \<and> xor_vectors u key = Inr v"
proof -
  have "map2 (XOR) (map2 (XOR) v key) key = v"
    using assms by (intro nth_equalityI) (simp_all add: cleanD xor.assoc)
  then show ?thesis using assms by (simp add: xor_vectors_def cleanD clean_xor)
qed

lemma present_boxes:
  "length PRESENT_SBOX4 = 16" "\<forall>x\<in>set PRESENT_SBOX4. unat x < 16"
  "length PRESENT_SBOX4_INV = 16" "\<forall>x\<in>set PRESENT_SBOX4_INV. unat x < 16"
  by (simp_all add: PRESENT_SBOX4_def PRESENT_SBOX4_INV_def)

lemma present_inverse:
  assumes "unat (x :: u8) < 16"
  shows "PRESENT_SBOX4_INV ! unat (PRESENT_SBOX4 ! unat x) = x"
    and "PRESENT_SBOX4 ! unat (PRESENT_SBOX4_INV ! unat x) = x"
proof -
  have "\<forall>m\<in>set [0..<16]. PRESENT_SBOX4_INV ! unat (PRESENT_SBOX4 ! m) = word_of_nat m \<and>
      PRESENT_SBOX4 ! unat (PRESENT_SBOX4_INV ! m) = word_of_nat m"
    by (simp add: upt_16 PRESENT_SBOX4_def PRESENT_SBOX4_INV_def)
  then have "PRESENT_SBOX4_INV ! unat (PRESENT_SBOX4 ! unat x) = word_of_nat (unat x) \<and>
      PRESENT_SBOX4 ! unat (PRESENT_SBOX4_INV ! unat x) = word_of_nat (unat x)"
    using assms by simp
  then show "PRESENT_SBOX4_INV ! unat (PRESENT_SBOX4 ! unat x) = x"
    "PRESENT_SBOX4 ! unat (PRESENT_SBOX4_INV ! unat x) = x" by simp_all
qed

interpretation sp: round_iso
    "\<lambda>v. clean w v \<and> clean w key \<and> w \<le> 2 ^ 32 - 8"
    "\<lambda>v. xor_vectors v key"
    "\<lambda>v. res_bind (scramble_sbox_layer v w PRESENT_SBOX4) (\<lambda>v.
         res_bind (scramble_flip_layer v w) (\<lambda>v. scramble_perm_layer v w False))"
    "\<lambda>v. res_bind (scramble_perm_layer v w True) (\<lambda>v.
         res_bind (scramble_flip_layer v w) (\<lambda>v. scramble_sbox_layer v w PRESENT_SBOX4_INV))"
  for w key
proof
  fix v
  assume v: "clean w v \<and> clean w key \<and> w \<le> 2 ^ 32 - 8"
  then show "\<exists>u. xor_vectors v key = Inr u \<and> (clean w u \<and> clean w key \<and> w \<le> 2 ^ 32 - 8) \<and> xor_vectors u key = Inr v"
    using xor_vectors_inverse by blast
  obtain a where a: "scramble_sbox_layer v w PRESENT_SBOX4 = Inr a" "clean w a"
    "scramble_sbox_layer a w PRESENT_SBOX4_INV = Inr v"
    using sbox_layer_inverse [OF _ _ present_boxes present_inverse(1)] v by blast
  obtain b where b: "scramble_flip_layer a w = Inr b" "clean w b" "scramble_flip_layer b w = Inr a"
    using flip_layer_inverse a v by blast
  obtain c where c: "scramble_perm_layer b w False = Inr c" "clean w c" "scramble_perm_layer c w True = Inr b"
    using perm_layer_inverse [of w b False] b v by auto
  show "\<exists>u. res_bind (scramble_sbox_layer v w PRESENT_SBOX4) (\<lambda>v. res_bind (scramble_flip_layer v w)
          (\<lambda>v. scramble_perm_layer v w False)) = Inr u \<and> (clean w u \<and> clean w key \<and> w \<le> 2 ^ 32 - 8) \<and>
      res_bind (scramble_perm_layer u w True) (\<lambda>v. res_bind (scramble_flip_layer v w)
          (\<lambda>v. scramble_sbox_layer v w PRESENT_SBOX4_INV)) = Inr v"
    using v a b c by (simp del: res_bind_Inr)
  obtain a where a: "scramble_perm_layer v w True = Inr a" "clean w a" "scramble_perm_layer a w False = Inr v"
    using perm_layer_inverse [of w v True] v by auto
  obtain b where b: "scramble_flip_layer a w = Inr b" "clean w b" "scramble_flip_layer b w = Inr a"
    using flip_layer_inverse a v by blast
  obtain c where c: "scramble_sbox_layer b w PRESENT_SBOX4_INV = Inr c" "clean w c"
    "scramble_sbox_layer c w PRESENT_SBOX4 = Inr b"
    using sbox_layer_inverse [OF _ _ present_boxes(3,4,1,2) present_inverse(2)] b v by blast
  show "\<exists>u. res_bind (scramble_perm_layer v w True) (\<lambda>v. res_bind (scramble_flip_layer v w)
          (\<lambda>v. scramble_sbox_layer v w PRESENT_SBOX4_INV)) = Inr u \<and> (clean w u \<and> clean w key \<and> w \<le> 2 ^ 32 - 8) \<and>
      res_bind (scramble_sbox_layer u w PRESENT_SBOX4) (\<lambda>v. res_bind (scramble_flip_layer v w)
          (\<lambda>v. scramble_perm_layer v w False)) = Inr v"
    using v a b c by (simp del: res_bind_Inr)
qed

lemma subst_perm_rounds:
  assumes "clean w v" and "clean w key"
  shows "scramble_subst_perm_enc v key w n =
      res_bind (foldM (\<lambda>_ s. res_bind (xor_vectors s key) (\<lambda>v. res_bind (scramble_sbox_layer v w PRESENT_SBOX4)
        (\<lambda>v. res_bind (scramble_flip_layer v w) (\<lambda>v. scramble_perm_layer v w False)))) [0..<n] v)
        (\<lambda>v. xor_vectors v key)"
    and "scramble_subst_perm_dec v key w n =
      res_bind (foldM (\<lambda>_ s. res_bind (xor_vectors s key) (\<lambda>v. res_bind (scramble_perm_layer v w True)
        (\<lambda>v. res_bind (scramble_flip_layer v w) (\<lambda>v. scramble_sbox_layer v w PRESENT_SBOX4_INV)))) [0..<n] v)
        (\<lambda>v. xor_vectors v key)"
  using assms
  by (simp_all add: scramble_subst_perm_enc_def scramble_subst_perm_dec_def cleanD
      enc_round_def [abs_def] dec_round_def [abs_def] del: upt_Suc)

lemma subst_perm_inverse:
  assumes "clean w v" and "clean w key" and "w \<le> 2 ^ 32 - 8"
  shows "\<exists>u. scramble_subst_perm_enc v key w n = Inr u \<and> clean w u \<and> scramble_subst_perm_dec u key w n = Inr v"
    and "\<exists>u. scramble_subst_perm_dec v key w n = Inr u \<and> clean w u \<and> scramble_subst_perm_enc u key w n = Inr v"
  using sp.network_inverse [of w v key n] sp.mirror.network_inverse [of w v key n] assms
  by (metis subst_perm_rounds)+

lemma subst_perm_assert:
  "length v \<noteq> bytes_for w \<Longrightarrow> scramble_subst_perm_enc v key w n = Inl Assert_failed"
  "length v \<noteq> bytes_for w \<Longrightarrow> scramble_subst_perm_dec v key w n = Inl Assert_failed"
  by (simp_all add: scramble_subst_perm_enc_def scramble_subst_perm_dec_def)

section \<open>Blocks\<close>

lemma copy_range:
  assumes "\<And>i. i < w \<Longrightarrow> s i < 8 * length inp" and "\<And>i. i < w \<Longrightarrow> d i < 8 * length out"
  shows "\<exists>v. foldM (\<lambda>i. copy_bit inp (s i, d i)) [0..<w] out = Inr v \<and> length v = length out \<and>
    (\<forall>n<8 * length out. vbit v n = (vbit out n \<or> (\<exists>i<w. n = d i \<and> vbit inp (s i))))"
proof -
  have mem: "(k, n) \<in> set (map (\<lambda>i. (s i, d i)) [0..<w]) \<longleftrightarrow> (\<exists>i<w. k = s i \<and> n = d i)" for k n
    by auto
  have "\<exists>v. foldM (copy_bit inp) (map (\<lambda>i. (s i, d i)) [0..<w]) out = Inr v \<and> length v = length out \<and>
    (\<forall>n<8 * length out. vbit v n = (vbit out n \<or> (\<exists>k. (k, n) \<in> set (map (\<lambda>i. (s i, d i)) [0..<w]) \<and> vbit inp k)))"
    by (rule copy_bits) (use assms in \<open>unfold mem, auto\<close>)
  then show ?thesis unfolding mem foldM_map by metis
qed

definition chunk :: "u8 list \<Rightarrow> nat \<Rightarrow> nat \<Rightarrow> nat \<Rightarrow> u8 list" where
  "chunk inp w sp i = vec_of (bytes_for sp) (\<lambda>j. j < min sp (w - i * sp) \<and> vbit inp (j + i * sp))"

lemma block_bound:
  assumes "0 < (sp :: nat)" and "i < (w + sp - 1) div sp"
  shows "i * sp < w"
proof -
  have "(i + 1) * sp \<le> w + sp - 1"
    using less_eq_div_iff_mult_less_eq [OF assms(1), of "i + 1" "w + sp - 1"] assms(2) by simp
  then show ?thesis using assms(1) by (simp add: algebra_simps)
qed

lemma scramble_block_eq:
  assumes w: "w \<le> 2 ^ 32 - 8" and sp: "0 < sp" "sp \<le> 2 ^ 32 - 8" and i: "i * sp < w"
    and len: "length inp = bytes_for w" "length out = bytes_for w"
    and run: "(if enc then scramble_subst_perm_enc else scramble_subst_perm_dec)
        (chunk inp w sp i) (replicate (bytes_for sp) 0) (min sp (w - i * sp)) kNumDataSubstPermRounds = r"
    and r: "\<And>e. r = Inr e \<Longrightarrow> length e = bytes_for sp"
  shows "case r of Inl f \<Rightarrow> scramble_block inp w sp enc i out = Inl f
    | Inr e \<Rightarrow> \<exists>v. scramble_block inp w sp enc i out = Inr v \<and> length v = bytes_for w \<and>
       (\<forall>n<8 * bytes_for w. vbit v n =
          (vbit out n \<or> i * sp \<le> n \<and> n < i * sp + min sp (w - i * sp) \<and> vbit e (n - i * sp)))"
proof -
  let ?bw = "min sp (w - i * sp)"
  note bs = bytes_for_bound [OF sp(2)] bytes_for_bound [OF w]
  have so_far: "wrap32 (sp * i) = i * sp" using i w by (simp add: wrap32_less mult.commute)
  have bw: "sub32 w (i * sp) = w - i * sp" using i w by (intro sub32_le) simp_all
  have idx: "wrap32 (j + i * sp) = j + i * sp" if "j < ?bw" for j
  proof (rule wrap32_less)
    have "j + i * sp < w" using that i by linarith
    then show "j + i * sp < 2 ^ 32" using w by simp
  qed
  have "foldM (\<lambda>j. copy_bit inp (j + i * sp, j)) [0..<?bw] (replicate (bytes_for sp) 0) =
      Inr (chunk inp w sp i)"
    unfolding chunk_def by (rule copy_range_fresh) (use bs len in auto)
  moreover have "foldM (\<lambda>j. copy_bit inp (wrap32 (j + i * sp), j)) [0..<?bw] (replicate (bytes_for sp) 0) =
      foldM (\<lambda>j. copy_bit inp (j + i * sp, j)) [0..<?bw] (replicate (bytes_for sp) 0)"
    by (rule foldM_cong) (simp add: idx)
  ultimately have read: "foldM (\<lambda>j. copy_bit inp (wrap32 (j + i * sp), j)) [0..<?bw]
      (replicate (bytes_for sp) 0) = Inr (chunk inp w sp i)"
    by simp
  show ?thesis
  proof (cases r)
    case (Inl f)
    then show ?thesis using read run
      by (simp add: scramble_block_def so_far bw Let_def del: res_bind_Inr)
  next
    case (Inr e)
    have "foldM (\<lambda>j. copy_bit e (j, wrap32 (j + i * sp))) [0..<?bw] out =
        foldM (\<lambda>j. copy_bit e (j, j + i * sp)) [0..<?bw] out"
      by (rule foldM_cong) (simp add: idx)
    moreover have "\<exists>v. foldM (\<lambda>j. copy_bit e (j, j + i * sp)) [0..<?bw] out = Inr v \<and> length v = length out \<and>
      (\<forall>n<8 * length out. vbit v n = (vbit out n \<or> (\<exists>j<?bw. n = j + i * sp \<and> vbit e j)))"
      by (rule copy_range) (use bs len r [OF Inr] in auto)
    moreover have "(\<exists>j<?bw. n = j + i * sp \<and> vbit e j) =
        (i * sp \<le> n \<and> n < i * sp + ?bw \<and> vbit e (n - i * sp))" for n
      by (auto intro!: exI [of _ "n - i * sp"])
    ultimately show ?thesis using read run Inr len
      by (simp add: scramble_block_def so_far bw Let_def del: res_bind_Inr)
  qed
qed

text \<open>The blocks before the last one, and all of them when the last one has as many bytes.\<close>

definition block_bits :: "nat \<Rightarrow> nat \<Rightarrow> nat \<Rightarrow> nat" where
  "block_bits w sp i = min sp (w - i * sp)"

lemma block_of_bit:
  assumes "0 < (sp :: nat)" and "n < w"
  shows "n div sp * sp \<le> n" and "n < n div sp * sp + block_bits w sp (n div sp)"
    and "n - n div sp * sp = n mod sp" and "n mod sp < block_bits w sp (n div sp)"
proof -
  have n: "n = n div sp * sp + n mod sp" "n mod sp < sp" using assms by simp_all
  then show "n div sp * sp \<le> n" "n - n div sp * sp = n mod sp" by linarith+
  show "n < n div sp * sp + block_bits w sp (n div sp)" "n mod sp < block_bits w sp (n div sp)"
    using n assms(2) unfolding block_bits_def by linarith+
qed

lemma full_width_loop:
  assumes w: "w \<le> 2 ^ 32 - 8" and sp: "0 < sp" "sp \<le> 2 ^ 32 - 8"
    and len: "length inp = bytes_for w" and k: "k \<le> (w + sp - 1) div sp"
    and run: "\<And>i. i < k \<Longrightarrow> (if enc then scramble_subst_perm_enc else scramble_subst_perm_dec)
        (chunk inp w sp i) (replicate (bytes_for sp) 0) (block_bits w sp i) kNumDataSubstPermRounds = Inr (e i)"
    and e: "\<And>i. i < k \<Longrightarrow> length (e i) = bytes_for sp"
  shows "foldM (scramble_block inp w sp enc) [0..<k] (replicate (bytes_for w) 0) =
    Inr (vec_of (bytes_for w) (\<lambda>n. n < w \<and> n < k * sp \<and> vbit (e (n div sp)) (n mod sp)))"
proof -
  have "\<exists>v. foldM (scramble_block inp w sp enc) [0..<k] (replicate (bytes_for w) 0) = Inr v \<and>
    length v = bytes_for w \<and>
    (\<forall>n<8 * bytes_for w. vbit v n = (n < w \<and> n < k * sp \<and> vbit (e (n div sp)) (n mod sp)))"
  proof (rule foldM_upt_rule)
    show "length (replicate (bytes_for w) (0 :: u8)) = bytes_for w \<and> (\<forall>n<8 * bytes_for w.
        vbit (replicate (bytes_for w) 0) n = (n < w \<and> n < 0 * sp \<and> vbit (e (n div sp)) (n mod sp)))"
      by (simp add: vbit_replicate_0)
  next
    fix i out
    assume i: "0 \<le> i" "i < k" and inv: "length out = bytes_for w \<and> (\<forall>n<8 * bytes_for w.
        vbit out n = (n < w \<and> n < i * sp \<and> vbit (e (n div sp)) (n mod sp)))"
    have "i * sp < w" using block_bound [OF sp(1)] i k by simp
    then obtain v where v: "scramble_block inp w sp enc i out = Inr v" "length v = bytes_for w"
      "\<And>n. n < 8 * bytes_for w \<Longrightarrow> vbit v n =
        (vbit out n \<or> i * sp \<le> n \<and> n < i * sp + block_bits w sp i \<and> vbit (e i) (n - i * sp))"
      using scramble_block_eq [OF w sp _ len _ run [OF i(2), unfolded block_bits_def], of out] inv e i
      by (auto simp: block_bits_def)
    have same: "i * sp \<le> n \<and> n < i * sp + block_bits w sp i \<longleftrightarrow> n < w \<and> n div sp = i" for n
    proof
      assume n: "i * sp \<le> n \<and> n < i * sp + block_bits w sp i"
      then have "n div sp = i" using sp(1)
        by (intro div_nat_eqI) (auto simp: block_bits_def algebra_simps)
      moreover have "block_bits w sp i \<le> w - i * sp" by (simp add: block_bits_def)
      ultimately show "n < w \<and> n div sp = i" using n \<open>i * sp < w\<close> by linarith
    next
      assume "n < w \<and> n div sp = i"
      then show "i * sp \<le> n \<and> n < i * sp + block_bits w sp i"
        using block_of_bit [OF sp(1), of n w] by auto
    qed
    have "vbit v n = (n < w \<and> n < Suc i * sp \<and> vbit (e (n div sp)) (n mod sp))" if n: "n < 8 * bytes_for w" for n
    proof -
      have "n < Suc i * sp \<longleftrightarrow> n < i * sp \<or> n div sp = i"
        using sp(1) by (metis div_less_iff_less_mult less_Suc_eq)
      moreover have "n div sp = i \<Longrightarrow> n - i * sp = n mod sp"
        by (metis minus_div_mult_eq_mod)
      moreover have "i * sp \<le> n \<and> n < i * sp + block_bits w sp i \<and> vbit (e i) (n - i * sp) \<longleftrightarrow>
          n < w \<and> n div sp = i \<and> vbit (e (n div sp)) (n - i * sp)"
        using same [of n] by auto
      ultimately show ?thesis using v(3) [OF n] inv n by auto
    qed
    then show "\<exists>s'. scramble_block inp w sp enc i out = Inr s' \<and> length s' = bytes_for w \<and>
      (\<forall>n<8 * bytes_for w. vbit s' n = (n < w \<and> n < Suc i * sp \<and> vbit (e (n div sp)) (n mod sp)))"
      using v by blast
  qed simp
  then obtain v where v: "foldM (scramble_block inp w sp enc) [0..<k] (replicate (bytes_for w) 0) = Inr v"
    "length v = bytes_for w"
    "\<And>n. n < 8 * bytes_for w \<Longrightarrow> vbit v n = (n < w \<and> n < k * sp \<and> vbit (e (n div sp)) (n mod sp))"
    by blast
  then have "v = vec_of (bytes_for w) (\<lambda>n. n < w \<and> n < k * sp \<and> vbit (e (n div sp)) (n mod sp))"
    by (intro eq_vec_of)
  then show ?thesis using v(1) by simp
qed

text \<open>The widths \<open>scramble_subst_perm_full_width\<close> accepts: a narrower last block has as many bytes
  as the others.\<close>

definition blocks_fit :: "nat \<Rightarrow> nat \<Rightarrow> bool" where
  "blocks_fit w sp \<longleftrightarrow> 0 < sp \<and> w + sp \<le> 2 ^ 32 - 8 \<and>
     (w mod sp = 0 \<or> bytes_for (w mod sp) = bytes_for sp)"

lemma blocks_count: "0 < sp \<Longrightarrow> w + sp \<le> 2 ^ 32 - 8 \<Longrightarrow> wrap32 (w + sp - 1) div sp = (w + sp - 1) div sp"
  by (simp add: wrap32_less)

lemma full_width_eq_loop:
  assumes "0 < sp" and "w + sp \<le> 2 ^ 32 - 8" and "length inp = bytes_for w"
  shows "scramble_subst_perm_full_width inp w sp enc =
    foldM (scramble_block inp w sp enc) [0..<(w + sp - 1) div sp] (replicate (bytes_for w) 0)"
  unfolding scramble_subst_perm_full_width_def blocks_count [OF assms(1,2)] Let_def using assms by simp

lemma block_bytes:
  assumes "blocks_fit w sp" and "i < (w + sp - 1) div sp"
  shows "bytes_for (block_bits w sp i) = bytes_for sp"
proof (cases "sp \<le> w - i * sp")
  case False
  have sp: "0 < sp" using assms(1) by (simp add: blocks_fit_def)
  have "i * sp < w" by (rule block_bound [OF sp assms(2)])
  then have "w div sp = i" using False by (intro div_nat_eqI) (auto simp: algebra_simps)
  then have "w - i * sp = w mod sp" by (metis minus_div_mult_eq_mod)
  moreover have "w mod sp \<noteq> 0" using \<open>i * sp < w\<close> calculation by simp
  ultimately show ?thesis using assms(1) False by (simp add: block_bits_def blocks_fit_def)
qed (simp add: block_bits_def)

lemma chunk_clean:
  assumes "bytes_for (block_bits w sp i) = bytes_for sp"
  shows "clean (block_bits w sp i) (chunk inp w sp i)"
  using clean_vec_of [of "block_bits w sp i" "\<lambda>j. vbit inp (j + i * sp)"] assms
  by (simp add: chunk_def block_bits_def)

lemma clean_zeros: "bytes_for w = m \<Longrightarrow> clean w (replicate m 0)"
  by (rule cleanI) (simp_all add: vbit_replicate_0)

lemma full_width_inverse:
  assumes fit: "blocks_fit w sp" and inp: "clean w inp"
  shows "\<exists>u. scramble_subst_perm_full_width inp w sp True = Inr u \<and> clean w u \<and>
             scramble_subst_perm_full_width u w sp False = Inr inp"
proof -
  let ?B = "(w + sp - 1) div sp" and ?z = "replicate (bytes_for sp) (0 :: u8)"
  have w: "w \<le> 2 ^ 32 - 8" and sp: "0 < sp" "sp \<le> 2 ^ 32 - 8" using fit by (auto simp: blocks_fit_def)
  have bb: "block_bits w sp i \<le> 2 ^ 32 - 8" for i using sp by (simp add: block_bits_def)
  have "\<exists>u. scramble_subst_perm_enc (chunk inp w sp i) ?z (block_bits w sp i) kNumDataSubstPermRounds = Inr u \<and>
      clean (block_bits w sp i) u \<and>
      scramble_subst_perm_dec u ?z (block_bits w sp i) kNumDataSubstPermRounds = Inr (chunk inp w sp i)"
    if "i < ?B" for i
    using block_bytes [OF fit that] by (intro subst_perm_inverse(1) chunk_clean clean_zeros bb) simp_all
  then obtain e where e: "\<And>i. i < ?B \<Longrightarrow>
      scramble_subst_perm_enc (chunk inp w sp i) ?z (block_bits w sp i) kNumDataSubstPermRounds = Inr (e i) \<and>
      clean (block_bits w sp i) (e i) \<and>
      scramble_subst_perm_dec (e i) ?z (block_bits w sp i) kNumDataSubstPermRounds = Inr (chunk inp w sp i)"
    by metis
  have elen: "length (e i) = bytes_for sp" if "i < ?B" for i
    using e [OF that] block_bytes [OF fit that] cleanD(1) by metis
  have all: "n < ?B * sp" if "n < w" for n
    using that sp(1) dividend_less_div_times [OF sp(1), of "w + sp - 1"] by linarith
  let ?u = "vec_of (bytes_for w) (\<lambda>n. n < w \<and> vbit (e (n div sp)) (n mod sp))"
  have u: "clean w ?u" by (rule clean_vec_of)
  have cu: "chunk ?u w sp i = e i" if i: "i < ?B" for i
  proof (rule clean_eqI)
    show "clean (block_bits w sp i) (chunk ?u w sp i)" "clean (block_bits w sp i) (e i)"
      using chunk_clean block_bytes [OF fit i] e [OF i] by simp_all
    fix j assume j: "j < block_bits w sp i"
    then have "j + i * sp < w" "j < sp" using block_bound [OF sp(1) i] by (auto simp: block_bits_def)
    moreover have "j < 8 * bytes_for sp" using \<open>j < sp\<close> bytes_for_bound [OF sp(2)] by linarith
    ultimately show "vbit (chunk ?u w sp i) j = vbit (e i) j"
      using j sp(1) by (simp add: chunk_def vbit_vec_of vbit_vec_below [OF w] block_bits_def)
  qed
  have "scramble_subst_perm_full_width inp w sp True = Inr ?u"
    using full_width_loop [OF w sp, of inp ?B True e] e elen sp fit cleanD(1) [OF inp] all
    by (simp add: full_width_eq_loop blocks_fit_def cong: conj_cong)
  moreover have "scramble_subst_perm_full_width ?u w sp False = Inr inp"
  proof -
    have "scramble_subst_perm_full_width ?u w sp False =
        Inr (vec_of (bytes_for w) (\<lambda>n. n < w \<and> n < ?B * sp \<and> vbit (chunk inp w sp (n div sp)) (n mod sp)))"
      using full_width_loop [OF w sp, of ?u ?B False "chunk inp w sp"] e cu sp fit
      by (simp add: full_width_eq_loop blocks_fit_def chunk_def)
    also have "vec_of (bytes_for w) (\<lambda>n. n < w \<and> n < ?B * sp \<and> vbit (chunk inp w sp (n div sp)) (n mod sp)) = inp"
    proof (rule clean_eqI [OF clean_vec_of inp])
      fix n assume n: "n < w"
      have "n mod sp < 8 * bytes_for sp"
        using bytes_for_bound [OF sp(2)] sp(1) mod_less_divisor [of sp n] by linarith
      then show "vbit (vec_of (bytes_for w) (\<lambda>n. n < w \<and> n < ?B * sp \<and> vbit (chunk inp w sp (n div sp)) (n mod sp))) n = vbit inp n"
        using n all block_of_bit(4) [OF sp(1) n] by (simp add: vbit_vec_below [OF w] chunk_def vbit_vec_of block_bits_def)
    qed
    finally show ?thesis .
  qed
  ultimately show ?thesis using u by blast
qed

text \<open>A narrower last block with fewer bytes than the others fails the size check.\<close>

lemma full_width_assert:
  assumes sp: "0 < sp" "w + sp \<le> 2 ^ 32 - 8" and len: "length inp = bytes_for w"
    and last_block: "w mod sp \<noteq> 0" "bytes_for (w mod sp) \<noteq> bytes_for sp"
  shows "scramble_subst_perm_full_width inp w sp enc = Inl Assert_failed"
proof -
  let ?q = "w div sp"
  have w: "w \<le> 2 ^ 32 - 8" and sp': "sp \<le> 2 ^ 32 - 8" using sp by simp_all
  have "w + sp - 1 = ?q * sp + (w mod sp + sp - 1)" using sp(1) by simp
  moreover have "(?q * sp + (w mod sp + sp - 1)) div sp = ?q + (w mod sp + sp - 1) div sp"
    using sp(1) by (intro div_mult_self3) simp
  moreover have "(w mod sp + sp - 1) div sp = 1"
    using last_block(1) sp(1) mod_less_divisor [OF sp(1), of w] by (intro div_nat_eqI) auto
  ultimately have B: "(w + sp - 1) div sp = Suc ?q" by (simp only: add_Suc_right One_nat_def add_0_right)
  have whole: "block_bits w sp i = sp" if "i < ?q" for i
  proof -
    have "(i + 1) * sp \<le> w" using that less_eq_div_iff_mult_less_eq [OF sp(1), of "i + 1" w] by simp
    then show ?thesis by (simp add: block_bits_def)
  qed
  have "\<exists>u. (if enc then scramble_subst_perm_enc else scramble_subst_perm_dec)
      (chunk inp w sp i) (replicate (bytes_for sp) 0) (block_bits w sp i) kNumDataSubstPermRounds = Inr u \<and>
      length u = bytes_for sp" if "i < ?q" for i
    using subst_perm_inverse [OF _ clean_zeros sp', of "chunk inp w sp i" _ kNumDataSubstPermRounds]
      chunk_clean [of w sp i inp] whole [OF that] cleanD(1) by (cases enc; simp; metis)
  then obtain e where e: "\<And>i. i < ?q \<Longrightarrow> (if enc then scramble_subst_perm_enc else scramble_subst_perm_dec)
      (chunk inp w sp i) (replicate (bytes_for sp) 0) (block_bits w sp i) kNumDataSubstPermRounds = Inr (e i) \<and>
      length (e i) = bytes_for sp" by metis
  obtain out where out: "foldM (scramble_block inp w sp enc) [0..<?q] (replicate (bytes_for w) 0) = Inr out"
    "length out = bytes_for w"
    using full_width_loop [OF w sp(1) sp' len, of ?q enc e] e B by auto
  have "w - ?q * sp = w mod sp" by (rule minus_div_mult_eq_mod)
  then have bits: "min sp (w - ?q * sp) = w mod sp" using sp(1) by simp
  have "(if enc then scramble_subst_perm_enc else scramble_subst_perm_dec) (chunk inp w sp ?q)
      (replicate (bytes_for sp) 0) (min sp (w - ?q * sp)) kNumDataSubstPermRounds = Inl Assert_failed"
    using last_block(2) unfolding bits by (simp add: subst_perm_assert chunk_def)
  moreover have "?q * sp < w" using last_block(1) by (metis div_mult_mod_eq less_add_same_cancel1 gr0I)
  ultimately have "scramble_block inp w sp enc ?q out = Inl Assert_failed"
    using scramble_block_eq [OF w sp(1) sp' _ len out(2)] by fastforce
  then show ?thesis
    unfolding full_width_eq_loop [OF sp len] B foldM_Suc out by simp
qed

section \<open>The keystream\<close>

lemma length_block: "prince_enc_dec a b c d e = Inr v \<Longrightarrow> length v = 8"
  by (auto simp: prince_enc_dec_def Let_def split: if_splits)

text \<open>The nonce has to have as many bits as all the blocks take from it.\<close>

definition nonce_long_enough :: "nat \<Rightarrow> nat \<Rightarrow> u8 list \<Rightarrow> bool" where
  "nonce_long_enough num_princes addr_width nonce \<longleftrightarrow>
     num_princes * (64 - addr_width) \<le> 8 * length nonce \<and> num_princes * (64 - addr_width) < 2 ^ 32"

lemma keystream_block_Inr:
  assumes addr: "addr_width \<le> 8 * length addr" and nonce: "nonce_long_enough m addr_width nonce" and i: "i < m"
    and key: "length key = 16"
  shows "\<exists>v. keystream_block addr addr_width nonce key 3 i = Inr v \<and> length v = 8"
proof -
  have "\<exists>v. foldM (iv_bit addr addr_width nonce i) [0..<64] (replicate 8 0) = Inr v \<and> length v = 8"
  proof (rule foldM_upt_rule)
    fix j and iv :: "u8 list"
    assume j: "0 \<le> j" "j < (64 :: nat)" and iv: "length iv = 8"
    show "\<exists>v. iv_bit addr addr_width nonce i j iv = Inr v \<and> length v = 8"
    proof (cases "j < addr_width")
      case True
      then show ?thesis using copy_bit_eq [of "(j, j)" addr iv] addr iv j by (auto simp: iv_bit_def)
    next
      case False
      define d where "d = 64 - addr_width"
      have "(i + 1) * d \<le> m * d" using i by (intro mult_le_mono1) simp
      moreover have "j - addr_width < d" using False j by (simp add: d_def)
      ultimately have "j - addr_width + i * (64 - addr_width) < m * (64 - addr_width)"
        by (simp add: d_def [symmetric])
      then have "wrap32 (j - addr_width + i * (64 - addr_width)) < 8 * length nonce"
        using nonce by (simp add: nonce_long_enough_def wrap32_less)
      then show ?thesis using False copy_bit_eq [of "(wrap32 (j - addr_width + i * (64 - addr_width)), j)" nonce iv] iv j
        by (auto simp: iv_bit_def Let_def kPrinceWidth_def)
    qed
  qed simp_all
  then obtain iv where iv: "foldM (iv_bit addr addr_width nonce i) [0..<64] (replicate 8 0) = Inr iv" "length iv = 8"
    by blast
  obtain c where "prince_enc_dec_uint64 (bytes_to_uint64 (rev iv)) (bytes_to_uint64 (rev key))
      (bytes_to_uint64 (drop 8 (rev key))) False 3 False = Inr c"
    using prince_enc_dec_uint64_inverse [of 3] by fastforce
  then have "\<exists>v. prince_enc_dec (rev iv) (rev key) False 3 False = Inr v \<and> length v = 8"
    using iv key by (simp add: prince_enc_dec_def Let_def)
  then show ?thesis using iv
    by (auto simp: keystream_block_def Let_def byte_reverse_vector_def kPrinceWidth_def)
qed

definition keystream_princes :: "nat \<Rightarrow> bool \<Rightarrow> nat" where
  "keystream_princes keystream_width repeat_keystream =
     (if repeat_keystream then 1 else (keystream_width + 63) div 64)"

lemma ceil_8: "(n :: nat) mod 8 \<noteq> 0 \<Longrightarrow> (n + 7) div 8 = Suc (n div 8)"
  by presburger

lemma gen_keystream_Inr:
  assumes addr: "addr_width \<le> 8 * length addr" and kw: "kw \<le> 2 ^ 32 - 64"
    and nonce: "nonce_long_enough (keystream_princes kw rep) addr_width nonce" and key: "length key = 16"
  shows "\<exists>ks. scramble_gen_keystream addr addr_width nonce key kw 3 rep = Inr ks \<and> clean kw ks"
proof -
  let ?b = "(kw + 63) div 64"
  have blocks: "wrap32 (kw + kPrinceWidth - 1) div kPrinceWidth = ?b"
    using kw by (simp add: kPrinceWidth_def wrap32_less)
  have "\<exists>ks. foldM (\<lambda>i keystream.
      res_bind (keystream_block addr addr_width nonce key 3 i) (\<lambda>block.
      Inr (keystream @ concat (replicate (if rep then ?b else 1) block))))
      [0..<keystream_princes kw rep] [] = Inr ks \<and>
      length ks = 8 * (if rep then ?b else 1) * keystream_princes kw rep"
  proof (rule foldM_upt_rule)
    fix i and ks :: "u8 list"
    assume i: "0 \<le> i" "i < keystream_princes kw rep" and ks: "length ks = 8 * (if rep then ?b else 1) * i"
    obtain v where "keystream_block addr addr_width nonce key 3 i = Inr v" "length v = 8"
      using keystream_block_Inr [OF addr nonce i(2) key] by blast
    then show "\<exists>s'. res_bind (keystream_block addr addr_width nonce key 3 i) (\<lambda>block.
        Inr (ks @ concat (replicate (if rep then ?b else 1) block))) = Inr s' \<and>
        length s' = 8 * (if rep then ?b else 1) * Suc i"
      using ks by (simp add: length_concat sum_list_replicate algebra_simps)
  qed simp_all
  then obtain ks where ks: "foldM (\<lambda>i keystream.
      res_bind (keystream_block addr addr_width nonce key 3 i) (\<lambda>block.
      Inr (keystream @ concat (replicate (if rep then ?b else 1) block))))
      [0..<keystream_princes kw rep] [] = Inr ks" "length ks = 8 * ?b"
    by (auto simp: keystream_princes_def split: if_splits)
  define er where "er = take (bytes_for kw) ks"
  have kw8: "kw \<le> 2 ^ 32 - 8" using kw by simp
  have "bytes_for kw \<le> length ks" unfolding ks(2) bytes_for_eq [OF kw8] by linarith
  then have er: "length er = bytes_for kw" "take (length ks - (length ks - bytes_for kw)) ks = er"
    by (simp_all add: er_def)
  have run: "scramble_gen_keystream addr addr_width nonce key kw 3 rep =
      (if kw mod 8 \<noteq> 0 then if er = [] then Inl Undefined
         else Inr (er[length er - 1 := er ! (length er - 1) AND (2 ^ (kw mod 8) - 1)])
       else Inr er)"
    using ks(1) key er \<open>bytes_for kw \<le> length ks\<close>
    unfolding scramble_gen_keystream_def blocks Let_def keystream_princes_def
    by (cases rep) (simp_all add: kPrinceWidthByte_def kPrinceWidth_def del: res_bind_Inr)
  show ?thesis
  proof (cases "kw mod 8 = 0")
    case True
    then have "8 * bytes_for kw = kw" unfolding bytes_for_eq [OF kw8] by presburger
    then have "clean kw er" using er by (intro cleanI) auto
    then show ?thesis using run True by simp
  next
    case False
    let ?l = "length er - 1"
    let ?m = "er[?l := er ! ?l AND (2 ^ (kw mod 8) - 1)]"
    have "length er = Suc (kw div 8)"
      using ceil_8 [OF False] unfolding er(1) bytes_for_eq [OF kw8] .
    then have l: "?l = kw div 8" "0 < length er" by simp_all
    have "clean kw ?m"
    proof (rule cleanI)
      fix n assume n: "kw \<le> n" "n < 8 * bytes_for kw"
      have "kw div 8 \<le> n div 8" using n(1) by (rule div_le_mono)
      moreover have "n div 8 < length er" using n(2) er(1) by linarith
      ultimately have "n div 8 = ?l" using l by linarith
      have "kw mod 8 \<le> n mod 8"
      proof -
        have "kw div 8 = n div 8" using l \<open>n div 8 = ?l\<close> by simp
        then show ?thesis using n(1) by (metis div_mult_mod_eq add_le_cancel_left)
      qed
      have "\<not> bit (2 ^ (kw mod 8) - 1 :: u8) (n mod 8)"
        using \<open>kw mod 8 \<le> n mod 8\<close> by (simp add: mask_eq_exp_minus_1 [symmetric] bit_mask_iff)
      then have "\<not> bit (?m ! ?l) (n mod 8)" using l(2) by (simp add: bit_and_iff)
      then show "\<not> vbit ?m n" unfolding vbit_def \<open>n div 8 = ?l\<close> .
    qed (simp add: er)
    moreover have "scramble_gen_keystream addr addr_width nonce key kw 3 rep = Inr ?m"
      using run False l(2) by simp
    ultimately show ?thesis by blast
  qed
qed

section \<open>Encryption and decryption\<close>

definition scramble_widths_ok :: "nat \<Rightarrow> nat \<Rightarrow> u8 list \<Rightarrow> nat \<Rightarrow> u8 list \<Rightarrow> u8 list \<Rightarrow> bool \<Rightarrow> bool \<Rightarrow> bool" where
  "scramble_widths_ok data_width subst_perm_width addr addr_width nonce key rep use_sp \<longleftrightarrow>
     data_width \<le> 2 ^ 32 - 64 \<and> addr_width \<le> 2 ^ 32 - 8 \<and> length addr = bytes_for addr_width \<and>
     length key = 16 \<and> nonce_long_enough (keystream_princes data_width rep) addr_width nonce \<and>
     (use_sp \<longrightarrow> blocks_fit data_width subst_perm_width)"

lemma data_inverse:
  assumes ok: "scramble_widths_ok w sp addr aw nonce key rep use_sp" and data: "clean w d"
  shows "\<exists>u. scramble_encrypt_data d w sp addr aw nonce key rep use_sp = Inr u \<and> clean w u \<and>
             scramble_decrypt_data u w sp addr aw nonce key rep use_sp = Inr d"
proof -
  obtain ks where ks: "scramble_gen_keystream addr aw nonce key w 3 rep = Inr ks" "clean w ks"
    using gen_keystream_Inr [of aw addr w rep nonce key] ok bytes_for_bound [of aw]
    by (auto simp: scramble_widths_ok_def)
  obtain x where x: "xor_vectors d ks = Inr x" "clean w x" "xor_vectors x ks = Inr d"
    using xor_vectors_inverse [OF data ks(2)] by blast
  have len: "length addr = bytes_for aw" using ok by (simp add: scramble_widths_ok_def)
  show ?thesis
  proof (cases use_sp)
    case True
    then have "blocks_fit w sp" using ok by (simp add: scramble_widths_ok_def)
    then obtain u where "scramble_subst_perm_full_width x w sp True = Inr u" "clean w u"
      "scramble_subst_perm_full_width u w sp False = Inr x"
      using full_width_inverse x(2) by blast
    then show ?thesis using True ks x len data
      by (auto simp: scramble_encrypt_data_def scramble_decrypt_data_def kNumPrinceHalfRounds_def cleanD)
  next
    case False
    then show ?thesis using ks x len data
      by (auto simp: scramble_encrypt_data_def scramble_decrypt_data_def kNumPrinceHalfRounds_def cleanD)
  qed
qed

text \<open>The substitution layer drops bits above the width, so it is \<open>clean\<close> data that comes back.\<close>

lemma encrypt_assert:
  assumes widths: "w \<le> 2 ^ 32 - 64" "length addr = bytes_for aw" "aw \<le> 2 ^ 32 - 8" "length key = 16"
      "nonce_long_enough (keystream_princes w rep) aw nonce"
    and d: "length d = bytes_for w"
    and sp: "0 < sp" "w + sp \<le> 2 ^ 32 - 8" "w mod sp \<noteq> 0" "bytes_for (w mod sp) \<noteq> bytes_for sp"
  shows "scramble_encrypt_data d w sp addr aw nonce key rep True = Inl Assert_failed"
proof -
  obtain ks where ks: "scramble_gen_keystream addr aw nonce key w 3 rep = Inr ks" "clean w ks"
    using gen_keystream_Inr [of aw addr w rep nonce key] widths bytes_for_bound [of aw] by auto
  have "xor_vectors d ks = Inr (map2 (XOR) d ks)" "length (map2 (XOR) d ks) = bytes_for w"
    using d ks(2) by (simp_all add: xor_vectors_def cleanD)
  then show ?thesis
    using ks widths d full_width_assert [OF sp(1,2) _ sp(3,4)]
    by (simp add: scramble_encrypt_data_def kNumPrinceHalfRounds_def del: res_bind_Inr)
qed

section \<open>Addresses\<close>

lemma scramble_addr_enc:
  assumes aw: "aw \<le> 2 ^ 32 - 8" "aw \<le> nw" "nw < 2 ^ 32" and nonce: "nw \<le> 8 * length nonce"
    and a: "length a = bytes_for aw"
  shows "scramble_addr a aw nonce nw =
    scramble_subst_perm_enc a (vec_of (bytes_for aw) (\<lambda>n. n < aw \<and> vbit nonce (nw - aw + n))) aw
      kNumAddrSubstPermRounds"
proof -
  have "wrap32 (sub32 nw aw + i) = nw - aw + i" if "i < aw" for i
    using that aw by (simp add: sub32_le wrap32_less)
  then have "foldM (\<lambda>i. copy_bit nonce (wrap32 (sub32 nw aw + i), i)) [0..<aw] (replicate (bytes_for aw) 0) =
      foldM (\<lambda>i. copy_bit nonce (nw - aw + i, i)) [0..<aw] (replicate (bytes_for aw) 0)"
    by (intro foldM_cong) simp
  also have "\<dots> = Inr (vec_of (bytes_for aw) (\<lambda>n. n < aw \<and> vbit nonce (nw - aw + n)))"
    using bytes_for_bound [OF aw(1)] aw nonce by (intro copy_range_fresh) auto
  finally show ?thesis using a by (simp add: scramble_addr_def)
qed

lemma scramble_addr_total:
  assumes "aw \<le> 2 ^ 32 - 8" "aw \<le> nw" "nw < 2 ^ 32" "nw \<le> 8 * length nonce"
  shows "clean aw a \<Longrightarrow> \<exists>p. scramble_addr a aw nonce nw = Inr p \<and> clean aw p"
    and "clean aw p \<Longrightarrow> \<exists>a. clean aw a \<and> scramble_addr a aw nonce nw = Inr p"
    and "clean aw a \<Longrightarrow> clean aw b \<Longrightarrow> scramble_addr a aw nonce nw = scramble_addr b aw nonce nw \<Longrightarrow> a = b"
proof -
  let ?k = "vec_of (bytes_for aw) (\<lambda>n. n < aw \<and> vbit nonce (nw - aw + n))"
  note inv = subst_perm_inverse [OF _ clean_vec_of assms(1)]
  have enc: "scramble_addr a aw nonce nw = scramble_subst_perm_enc a ?k aw kNumAddrSubstPermRounds" if "clean aw a" for a
    using that by (intro scramble_addr_enc assms cleanD)
  show "\<exists>p. scramble_addr a aw nonce nw = Inr p \<and> clean aw p" if "clean aw a"
    using inv(1) [OF that] enc [OF that] by metis
  show "\<exists>a. clean aw a \<and> scramble_addr a aw nonce nw = Inr p" if "clean aw p"
    using inv(2) [OF that] enc by metis
  show "a = b" if "clean aw a" "clean aw b" "scramble_addr a aw nonce nw = scramble_addr b aw nonce nw"
    using inv(1) [OF that(1)] inv(1) [OF that(2)] that enc by (metis sum.inject(2))
qed

section \<open>Properties\<close>

text \<open>C14: Decrypting what \<open>scramble_encrypt_data\<close> returns gives the data back, with either way of
  making the keystream and with or without the substitution/permutation layer.  The lengths have to
  match the widths, the nonce has to be long enough, bits above the data width have to be zero, and
  with the layer the last block may only be narrower when it has as many bytes as the others.\<close>

theorem scramble_decrypt_encrypt:
  assumes "scramble_widths_ok data_width subst_perm_width addr aw nonce key rep use_sp"
    and "clean data_width data"
  shows "\<exists>u. scramble_encrypt_data data data_width subst_perm_width addr aw nonce key rep use_sp = Inr u \<and>
    clean data_width u \<and>
    scramble_decrypt_data u data_width subst_perm_width addr aw nonce key rep use_sp = Inr data"
  using assms by (rule data_inverse)

theorem scramble_decrypt_encrypt_witness:
  "\<exists>u. scramble_encrypt_data [0x5a, 3] 10 16 [7] 8 (replicate 8 1) (replicate 16 2) True True = Inr u \<and>
    clean 10 u \<and> scramble_decrypt_data u 10 16 [7] 8 (replicate 8 1) (replicate 16 2) True True = Inr [0x5a, 3]"
  by (rule scramble_decrypt_encrypt)
    (simp_all add: scramble_widths_ok_def bytes_for_def wrap32_def nonce_long_enough_def
      keystream_princes_def blocks_fit_def clean_def vbit_def upt_rec)

text \<open>C28: Address scrambling is a permutation of the addresses of the given width: every address of that
  width is scrambled without a fault to an address of that width, different addresses stay different,
  and each is reached.\<close>

theorem scramble_addr_permutation:
  assumes "aw \<le> nonce_width" and "nonce_width < 2 ^ 32 - 8" and "nonce_width \<le> 8 * length nonce"
  shows "bij_betw (\<lambda>a. scramble_addr a aw nonce nonce_width) {a. clean aw a} (Inr ` {a. clean aw a})"
proof -
  have bounds: "aw \<le> 2 ^ 32 - 8" "nonce_width < 2 ^ 32" using assms by simp_all
  note total = scramble_addr_total [OF bounds(1) assms(1) bounds(2) assms(3)]
  have "inj_on (\<lambda>a. scramble_addr a aw nonce nonce_width) {a. clean aw a}"
    using total(3) by (intro inj_onI) blast
  moreover have "(\<lambda>a. scramble_addr a aw nonce nonce_width) ` {a. clean aw a} = Inr ` {a. clean aw a}"
    using total(1,2) by (auto simp: image_iff) metis+
  ultimately show ?thesis by (simp add: bij_betw_def)
qed

theorem scramble_addr_permutation_witness:
  "bij_betw (\<lambda>a. scramble_addr a 10 (replicate 8 3) 64) {a. clean 10 a} (Inr ` {a. clean 10 a})"
  by (rule scramble_addr_permutation) simp_all

text \<open>With the substitution/permutation layer, a last block that has fewer bytes than the others
  always fails the size assertion, although the code means to handle a smaller final block.\<close>

theorem scramble_narrow_block_asserts:
  assumes "data_width \<le> 2 ^ 32 - 64" and "length addr = bytes_for aw" and "aw \<le> 2 ^ 32 - 8" and "length key = 16"
    and "nonce_long_enough (keystream_princes data_width rep) aw nonce" and "length data = bytes_for data_width"
    and "0 < sp" and "data_width + sp \<le> 2 ^ 32 - 8" and "data_width mod sp \<noteq> 0"
    and "bytes_for (data_width mod sp) \<noteq> bytes_for sp"
  shows "scramble_encrypt_data data data_width sp addr aw nonce key rep True = Inl Assert_failed"
  using assms by (rule encrypt_assert)

theorem scramble_narrow_block_asserts_witness:
  "scramble_encrypt_data [1, 2, 3] 24 16 [7] 8 (replicate 8 1) (replicate 16 2) True True = Inl Assert_failed"
  by (rule scramble_narrow_block_asserts)
    (simp_all add: bytes_for_def wrap32_def nonce_long_enough_def keystream_princes_def)

end
