(* ===== verification/Sim_State.thy ===== *)
theory Sim_State
  imports Bytes
begin

text \<open>
  The simulated design as the C++ code sees it over the DPI: the current SystemVerilog scope, the
  scopes that exist, and the memories found in them.  A function that calls the simulator is an
  action: it maps the state to an outcome and the state afterwards.  The state is kept when an
  exception is thrown, because what was written before stays written.
  The theory also models the two functions of \<open>prim_util_memload.svh\<close> that access a memory.
\<close>

section \<open>The simulator's state\<close>

text \<open>A memory array of the design: \<open>Width\<close> bits wide, \<open>Depth\<close> words deep; a word is held in the 40
  bytes of the buffers that carry it over the DPI.\<close>

record sv_mem =
  mem_width :: nat
  mem_depth :: nat
  mem_word :: "nat \<Rightarrow> u8 list"

text \<open>
  A scope is identified with its full hierarchical name, and the null scope is \<open>None\<close>.
  \<open>key_minibuf\<close> and \<open>nonce_minibuf\<close> are local arrays of two methods of \<open>ScrambledEcc32MemArea\<close>, which read
  them without having written them.  Their contents are indeterminate, and another call may find others:
  \<open>key_minibuf s i\<close> is what the array holds in the \<open>i\<close>th call from now on, element by element.
\<close>

record sim =
  cur_scope :: "string option"
  scope_exists :: "string \<Rightarrow> bool"
  mem_at :: "string \<Rightarrow> sv_mem option"
  key_minibuf :: "nat \<Rightarrow> nat \<Rightarrow> u32"
  nonce_minibuf :: "nat \<Rightarrow> nat \<Rightarrow> u32"

text \<open>The monad is the same for other states: \<open>('s, 'a) act\<close> is a computation on \<open>'s\<close>.\<close>

type_synonym ('s, 'a) act = "'s \<Rightarrow> 'a res \<times> 's"

type_synonym 'a action = "(sim, 'a) act"

definition act_return :: "'a \<Rightarrow> ('s, 'a) act" where
  "act_return x s = (Inr x, s)"

definition act_fail :: "fault \<Rightarrow> ('s, 'a) act" where
  "act_fail e s = (Inl e, s)"

definition act_bind :: "('s, 'a) act \<Rightarrow> ('a \<Rightarrow> ('s, 'b) act) \<Rightarrow> ('s, 'b) act" where
  "act_bind m f s = (case m s of (Inl e, t) \<Rightarrow> (Inl e, t) | (Inr x, t) \<Rightarrow> f x t)"

definition act_lift :: "'a res \<Rightarrow> ('s, 'a) act" where
  "act_lift r s = (r, s)"

definition act_read :: "('s \<Rightarrow> 'a) \<Rightarrow> ('s, 'a) act" where
  "act_read f s = (Inr (f s), s)"

definition act_assert :: "bool \<Rightarrow> ('s, unit) act" where
  "act_assert b s = (if b then Inr () else Inl Assert_failed, s)"

text \<open>A \<open>for\<close> loop whose body is an action.\<close>

fun act_loop :: "('i \<Rightarrow> 'a \<Rightarrow> ('s, 'a) act) \<Rightarrow> 'i list \<Rightarrow> 'a \<Rightarrow> ('s, 'a) act" where
  "act_loop body [] x = act_return x"
| "act_loop body (i # is) x = act_bind (body i x) (act_loop body is)"

lemmas act_defs = act_return_def act_fail_def act_bind_def act_lift_def act_read_def act_assert_def

lemma act_bind_simps [simp]:
  "act_bind (act_return x) f = f x"
  "act_bind (act_fail e) f = act_fail e"
  "act_bind (act_lift (Inr x)) f = f x"
  "act_bind (act_lift (Inl e)) f = act_fail e"
  "act_bind (act_assert True) g = g ()"
  "act_bind (act_assert False) g = act_fail Assert_failed"
  by (auto simp: act_defs fun_eq_iff)

text \<open>What every turn of a loop keeps, the loop keeps, also when a turn fails.\<close>

lemma act_loop_keeps:
  assumes "\<And>i x s. i \<in> set is \<Longrightarrow> P s \<Longrightarrow> P (snd (body i x s))" and "P s"
  shows "P (snd (act_loop body is x s))"
  using assms
proof (induction "is" arbitrary: x s)
  case (Cons i "is")
  obtain r t where run: "body i x s = (r, t)" by (cases "body i x s")
  then have "P t" using Cons.prems(1) [of i s x] Cons.prems(2) by simp
  then show ?case using Cons run by (auto simp: act_bind_def split: sum.split)
qed (simp add: act_return_def)

lemma act_bind_run: "m s = (Inr x, t) \<Longrightarrow> act_bind m f s = f x t"
  "m s = (Inl e, t) \<Longrightarrow> act_bind m f s = (Inl e, t)"
  by (auto simp: act_bind_def)

lemma act_loop_append: "act_loop body (xs @ ys) x = act_bind (act_loop body xs x) (act_loop body ys)"
  by (induction xs arbitrary: x) (auto simp: act_defs fun_eq_iff split: sum.splits prod.splits)

lemma act_loop_rule:
  assumes "P a x s"
    and "\<And>i x s. a \<le> i \<Longrightarrow> i < b \<Longrightarrow> P i x s \<Longrightarrow> \<exists>y t. body i x s = (Inr y, t) \<and> P (Suc i) y t"
    and "a \<le> b"
  shows "\<exists>y t. act_loop body [a..<b] x s = (Inr y, t) \<and> P b y t"
  using assms
proof (induction "b - a" arbitrary: a x s)
  case 0
  then show ?case by (auto simp: act_return_def)
next
  case (Suc k)
  then have ab: "a < b" by simp
  obtain y t where yt: "body a x s = (Inr y, t)" "P (Suc a) y t"
    using Suc.prems ab by blast
  have "\<exists>z u. act_loop body [Suc a..<b] y t = (Inr z, u) \<and> P b z u"
    using Suc.hyps(1)[of "Suc a" y t] Suc.hyps(2) Suc.prems ab yt by auto
  then show ?case using ab yt by (simp add: upt_conv_Cons act_bind_run)
qed

section \<open>Memory access over the DPI\<close>

definition SV_MEM_WIDTH_BITS :: nat where
  "SV_MEM_WIDTH_BITS = 312"

definition SV_MEM_WIDTH_BYTES :: nat where
  "SV_MEM_WIDTH_BYTES = 4 * ((SV_MEM_WIDTH_BITS + 31) div 32)"

text \<open>The memory in the current scope; calling a function that the scope does not export stops the
  simulation.\<close>

definition current_mem :: "(string \<times> sv_mem) action" where
  "current_mem s =
     (case cur_scope s of None \<Rightarrow> Inl Undefined
      | Some n \<Rightarrow> (case mem_at s n of None \<Rightarrow> Inl Undefined | Some m \<Rightarrow> Inr (n, m)), s)"

text \<open>\<open>index\<close> is a SystemVerilog \<open>int\<close>, so the comparison is signed; writing below index 0 has no
  effect and reading there gives zeros in a two-state \<open>bit\<close> vector.\<close>

definition simutil_set_mem :: "u32 \<Rightarrow> u8 list \<Rightarrow> bool action" where
  "simutil_set_mem index val = act_bind current_mem (\<lambda>(n, m) s.
     (let valid = \<not> (SV_MEM_WIDTH_BITS < mem_width m \<or> int (mem_depth m) \<le> sint index);
          word = vec_of SV_MEM_WIDTH_BYTES (\<lambda>b. b < mem_width m \<and> vbit val b)
      in (Inr valid,
          if valid \<and> 0 \<le> sint index
          then s\<lparr>mem_at := (mem_at s)(n \<mapsto> m\<lparr>mem_word := (mem_word m)(unat index := word)\<rparr>)\<rparr>
          else s)))"

definition simutil_get_mem :: "u32 \<Rightarrow> u8 list \<Rightarrow> (bool \<times> u8 list) action" where
  "simutil_get_mem index val = act_bind current_mem (\<lambda>(n, m) s.
     (let valid = \<not> (SV_MEM_WIDTH_BITS < mem_width m \<or> int (mem_depth m) \<le> sint index);
          word = vec_of SV_MEM_WIDTH_BYTES
            (\<lambda>b. b < mem_width m \<and> 0 \<le> sint index \<and> vbit (mem_word m (unat index)) b)
      in (Inr (if valid then (True, word) else (False, val)), s)))"

end
