(* ===== verification/Sv_Scoped.thy ===== *)
theory Sv_Scoped
  imports Sim_State
begin

text \<open>
  \<open>sv_scoped.cc\<close>: the guard object that switches the SystemVerilog scope, with names resolved
  relative to the current one.  Strings are lists of characters and \<open>std::string::npos\<close> is \<open>None\<close>.
  The theory relates the resolution, which works on character positions, to the list of components
  of a hierarchical name, and shows that a guarded action leaves the scope as it found it.
\<close>

section \<open>Searching strings\<close>

text \<open>\<open>name.find_first_not_of('.', pos)\<close>\<close>

definition find_first_not_dot :: "string \<Rightarrow> nat \<Rightarrow> nat option" where
  "find_first_not_dot name pos =
     (let dots = takeWhile (\<lambda>c. c = CHR ''.'') (drop pos name)
      in if pos + length dots < length name then Some (pos + length dots) else None)"

text \<open>\<open>name.rfind('.', pos)\<close>: the last dot at or before \<open>pos\<close>.\<close>

fun rfind_dot :: "string \<Rightarrow> nat \<Rightarrow> nat option" where
  "rfind_dot name 0 = (if name \<noteq> [] \<and> name ! 0 = CHR ''.'' then Some 0 else None)"
| "rfind_dot name (Suc pos) =
     (if Suc pos < length name \<and> name ! Suc pos = CHR ''.'' then Some (Suc pos)
      else rfind_dot name pos)"

section \<open>Setting the scope\<close>

text \<open>\<open>svGetScopeFromName\<close> followed by \<open>svSetScope\<close>; the result is the scope set before.\<close>

definition SetAbsScope :: "string \<Rightarrow> string option action" where
  "SetAbsScope name s =
     (if \<not> scope_exists s name then (Inl (Throw (Scope_error name)), s)
      else (Inr (cur_scope s), s\<lparr>cur_scope := Some name\<rparr>))"

text \<open>The loop over \<open>up_count\<close>, with its two breaks.\<close>

fun go_up :: "string \<Rightarrow> nat \<Rightarrow> nat \<Rightarrow> nat" where
  "go_up scope_name 0 last_dot = last_dot"
| "go_up scope_name (Suc up_count) last_dot =
     (if last_dot = 0 then last_dot
      else case rfind_dot scope_name (last_dot - 1) of
             None \<Rightarrow> last_dot
           | Some dot \<Rightarrow> go_up scope_name up_count dot)"

text \<open>The surgery on the name of the current scope.\<close>

definition resolve_name :: "string \<Rightarrow> string \<Rightarrow> string" where
  "resolve_name scope_name name =
     (let first_not_dot = (case find_first_not_dot name 1 of None \<Rightarrow> length name | Some i \<Rightarrow> i);
          up_count = first_not_dot - 1;
          last_dot = go_up scope_name up_count (length scope_name);
          erased = take last_dot scope_name
      in if first_not_dot < length name then erased @ drop (first_not_dot - 1) name else erased)"

text \<open>The name of the null scope is a null pointer.\<close>

definition SetRelScope :: "string \<Rightarrow> string option action" where
  "SetRelScope name s =
     (if name = [] \<or> name ! 0 \<noteq> CHR ''.'' then SetAbsScope name s
      else
        let prev_scope = cur_scope s
        in if name = ''.'' then (Inr prev_scope, s)
           else case prev_scope of None \<Rightarrow> (Inl Undefined, s)
                | Some scope_name \<Rightarrow> SetAbsScope (resolve_name scope_name name) s)"

text \<open>\<open>SVScoped scoped(name);\<close> followed by the rest of the block: the destructor sets the previous
  scope again when the block is left, by an exception too.\<close>

definition SVScoped :: "string \<Rightarrow> 'a action \<Rightarrow> 'a action" where
  "SVScoped name body s =
     (case SetRelScope name s of
        (Inl e, t) \<Rightarrow> (Inl e, t)
      | (Inr prev_scope, t) \<Rightarrow>
          (case body t of (r, u) \<Rightarrow> (r, u\<lparr>cur_scope := prev_scope\<rparr>)))"

definition join_sv_scopes :: "string \<Rightarrow> string \<Rightarrow> string res" where
  "join_sv_scopes a b =
     (if a = [] \<or> b = [] then Inl Assert_failed
      else Inr (if last a = CHR ''.'' then a @ b else a @ ''.'' @ b))"

section \<open>Names as lists of components\<close>

definition component :: "string \<Rightarrow> bool" where
  "component c \<longleftrightarrow> c \<noteq> [] \<and> CHR ''.'' \<notin> set c"

fun join_dots :: "string list \<Rightarrow> string" where
  "join_dots [] = []"
| "join_dots [c] = c"
| "join_dots (c # d # cs) = c @ ''.'' @ join_dots (d # cs)"

lemma join_dots_snoc: "cs \<noteq> [] \<Longrightarrow> join_dots (cs @ [c]) = join_dots cs @ ''.'' @ c"
  by (induction cs rule: join_dots.induct) auto

lemma join_dots_append:
  "cs \<noteq> [] \<Longrightarrow> ds \<noteq> [] \<Longrightarrow> join_dots (cs @ ds) = join_dots cs @ ''.'' @ join_dots ds"
proof (induction cs rule: join_dots.induct)
  case (2 c)
  then show ?case by (cases ds) auto
qed auto

lemma join_dots_Nil: "\<forall>c\<in>set cs. component c \<Longrightarrow> join_dots cs = [] \<longleftrightarrow> cs = []"
  by (induction cs rule: join_dots.induct) (auto simp: component_def)

lemma rfind_dot_prefix: "pos < length xs \<Longrightarrow> rfind_dot (xs @ ys) pos = rfind_dot xs pos"
  by (induction pos) (auto simp: nth_append)

lemma rfind_dot_component:
  assumes "CHR ''.'' \<notin> set c" and "pos < length (p @ ''.'' @ c)" and "length p \<le> pos"
  shows "rfind_dot (p @ ''.'' @ c) pos = Some (length p)"
  using assms
proof (induction pos)
  case (Suc pos)
  show ?case
  proof (cases "length p = Suc pos")
    case False
    then have "length p \<le> pos" using Suc.prems by simp
    moreover have "(p @ ''.'' @ c) ! Suc pos = c ! (pos - length p)"
      using \<open>length p \<le> pos\<close> by (simp add: nth_append nth_Cons' )
    moreover have "pos - length p < length c" using Suc.prems \<open>length p \<le> pos\<close> by simp
    ultimately show ?thesis using Suc by (metis (no_types, lifting) Suc_lessD nth_mem rfind_dot.simps(2))
  qed (simp add: nth_append)
qed simp

lemma rfind_dot_none: "CHR ''.'' \<notin> set c \<Longrightarrow> rfind_dot c pos = None"
  by (induction pos) (auto simp: in_set_conv_nth)

text \<open>Going up removes components from the end, and stops at the first one.\<close>

lemma go_up_components:
  assumes "\<forall>c\<in>set cs. component c" and "cs \<noteq> []"
  shows "take (go_up (join_dots cs @ rest) n (length (join_dots cs))) (join_dots cs @ rest) =
    join_dots (take (max 1 (length cs - n)) cs)"
  using assms
proof (induction n arbitrary: cs rest)
  case (Suc n)
  have ne: "join_dots cs \<noteq> []" using Suc.prems join_dots_Nil by blast
  then have found: "rfind_dot (join_dots cs @ rest) (length (join_dots cs) - 1) =
      rfind_dot (join_dots cs) (length (join_dots cs) - 1)"
    by (intro rfind_dot_prefix) simp
  show ?case
  proof (cases cs rule: rev_cases)
    case (snoc ds c)
    have c: "component c" using Suc.prems snoc by simp
    show ?thesis
    proof (cases "ds = []")
      case True
      then show ?thesis using snoc c ne found by (simp add: rfind_dot_none component_def)
    next
      case False
      then have j: "join_dots cs = join_dots ds @ ''.'' @ c" using snoc by (simp add: join_dots_snoc)
      have "rfind_dot (join_dots cs) (length (join_dots cs) - 1) = Some (length (join_dots ds))"
        unfolding j using c by (intro rfind_dot_component) (auto simp: component_def)
      then have eq: "go_up (join_dots cs @ rest) (Suc n) (length (join_dots cs)) =
          go_up (join_dots ds @ (''.'' @ c @ rest)) n (length (join_dots ds))"
        using ne found by (simp add: j)
      have whole: "join_dots cs @ rest = join_dots ds @ (''.'' @ c @ rest)" by (simp add: j)
      have "max 1 (length cs - Suc n) \<le> length ds" "length cs - Suc n = length ds - n"
        using snoc False by (auto simp: Suc_le_eq)
      then have "take (max 1 (length cs - Suc n)) cs = take (max 1 (length ds - n)) ds"
        using snoc by simp
      moreover have "take (go_up (join_dots ds @ (''.'' @ c @ rest)) n (length (join_dots ds)))
          (join_dots ds @ (''.'' @ c @ rest)) = join_dots (take (max 1 (length ds - n)) ds)"
        using Suc.prems snoc False by (intro Suc.IH) auto
      ultimately show ?thesis unfolding eq unfolding whole by (simp only:)
    qed
  qed (use Suc.prems in simp)
qed auto

lemma find_first_not_dot_rel:
  assumes "r \<noteq> []" and "hd r \<noteq> CHR ''.''"
  shows "find_first_not_dot (replicate (Suc n) CHR ''.'' @ r) 1 = Some (Suc n)"
proof -
  have "takeWhile (\<lambda>c. c = CHR ''.'') (replicate n CHR ''.'' @ r) = replicate n CHR ''.''"
    using assms by (induction n) (cases r, auto)+
  then show ?thesis using assms(1) by (simp add: find_first_not_dot_def)
qed

lemma find_first_not_dot_all: "find_first_not_dot (replicate (Suc n) CHR ''.'') 1 = None"
  by (simp add: find_first_not_dot_def takeWhile_replicate)

text \<open>A name with \<open>n + 1\<close> leading dots goes up \<open>n\<close> components, then down along the rest.\<close>

lemma resolve_name_components:
  assumes "\<forall>c\<in>set cs. component c" and "cs \<noteq> []" and "\<forall>c\<in>set ds. component c"
  shows "resolve_name (join_dots cs) (replicate (Suc n) CHR ''.'' @ join_dots ds) =
    join_dots (take (max 1 (length cs - n)) cs @ ds)"
proof (cases "ds = []")
  case True
  then show ?thesis
    using go_up_components [OF assms(1,2), of "[]" n] find_first_not_dot_all [of n]
    by (simp add: resolve_name_def)
next
  case False
  have ne: "join_dots ds \<noteq> []" using assms(3) False join_dots_Nil by blast
  have hd: "hd (join_dots ds) \<noteq> CHR ''.''"
  proof -
    have "hd (join_dots ds) = hd (hd ds)" "component (hd ds)"
      using assms(3) False by (cases ds rule: join_dots.cases; auto simp: component_def hd_append)+
    then show ?thesis using hd_in_set by (metis component_def)
  qed
  have "drop n (replicate (Suc n) CHR ''.'' @ join_dots ds) = ''.'' @ join_dots ds"
    by (induction n) simp_all
  moreover have "take (max 1 (length cs - n)) cs \<noteq> []" using assms(2) by (cases cs) auto
  ultimately show ?thesis
    using go_up_components [OF assms(1,2), of "[]" n] find_first_not_dot_rel [OF ne hd, of n] ne False
    by (simp add: resolve_name_def join_dots_append)
qed

section \<open>Properties\<close>

text \<open>C36: A relative name, \<open>n + 1\<close> dots followed by components, is looked up \<open>n\<close> levels above the
  current scope, never above its first component; a lone dot stays where it is.  When the scope does
  not exist the error carries the resolved name and the scope is not changed.\<close>

theorem relative_scope_resolution:
  assumes "cur_scope s = Some (join_dots cs)" and "list_all component cs" and "cs \<noteq> []" and "list_all component ds"
  shows "SetRelScope (replicate (Suc n) CHR ''.'' @ join_dots ds) s =
    (let target = join_dots (take (max 1 (length cs - n)) cs @ ds)
     in if n = 0 \<and> ds = [] then (Inr (cur_scope s), s)
        else if scope_exists s target then (Inr (cur_scope s), s\<lparr>cur_scope := Some target\<rparr>)
        else (Inl (Throw (Scope_error target)), s))"
proof -
  let ?name = "replicate (Suc n) CHR ''.'' @ join_dots ds"
  have comps: "\<forall>c\<in>set cs. component c" "\<forall>c\<in>set ds. component c"
    using assms(2,4) by (simp_all add: list_all_iff)
  have dot: "?name = ''.'' \<longleftrightarrow> n = 0 \<and> ds = []"
    using join_dots_Nil [OF comps(2)] by (cases n) auto
  show ?thesis
    using assms(1) dot resolve_name_components [OF comps(1) assms(3) comps(2), of n]
    by (simp add: SetRelScope_def SetAbsScope_def Let_def)
qed

theorem relative_scope_resolution_witness:
  "SetRelScope ''..baz'' \<lparr>cur_scope = Some ''TOP.foo.bar'', scope_exists = (\<lambda>n. n = ''TOP.foo.baz''),
       mem_at = Map.empty, key_minibuf = (\<lambda>_ _. 0), nonce_minibuf = (\<lambda>_ _. 0)\<rparr> =
    (Inr (Some ''TOP.foo.bar''), \<lparr>cur_scope = Some ''TOP.foo.baz'', scope_exists = (\<lambda>n. n = ''TOP.foo.baz''),
       mem_at = Map.empty, key_minibuf = (\<lambda>_ _. 0), nonce_minibuf = (\<lambda>_ _. 0)\<rparr>)"
  using relative_scope_resolution [of "\<lparr>cur_scope = Some ''TOP.foo.bar'', scope_exists = (\<lambda>n. n = ''TOP.foo.baz''),
       mem_at = Map.empty, key_minibuf = (\<lambda>_ _. 0), nonce_minibuf = (\<lambda>_ _. 0)\<rparr>" "[''TOP'', ''foo'', ''bar'']" "[''baz'']" 1]
  by (simp add: component_def Let_def)

text \<open>C35: The guard object.  Whatever the guarded block does, and even when it ends by an exception or
  moves the scope itself, the current scope afterwards is the one from before; and when the scope
  cannot be set the block does not run, nothing has changed, and the error is passed on.\<close>

theorem scope_guard_restores:
  "case SetRelScope name s of
     (Inl e, _) \<Rightarrow> SVScoped name body s = (Inl e, s)
   | (Inr _, inside) \<Rightarrow> fst (SVScoped name body s) = fst (body inside) \<and>
       snd (SVScoped name body s) = (snd (body inside))\<lparr>cur_scope := cur_scope s\<rparr>"
  by (auto simp: SVScoped_def SetRelScope_def SetAbsScope_def Let_def split: prod.splits option.splits)

lemma last_join_dots: "\<forall>c\<in>set cs. component c \<Longrightarrow> cs \<noteq> [] \<Longrightarrow> last (join_dots cs) \<noteq> CHR ''.''"
proof (induction cs rule: join_dots.induct)
  case (2 c)
  then show ?case using last_in_set by (fastforce simp: component_def)
next
  case (3 c d cs)
  then have "join_dots (d # cs) \<noteq> []" using join_dots_Nil [of "d # cs"] by simp
  then show ?case using 3 by simp
qed simp

text \<open>\<open>join_sv_scopes\<close> of a relative name and the path of a scope below it names that scope: it
  resolves to the path appended to what the relative name resolves to.\<close>

theorem join_scopes_resolution:
  assumes "list_all component cs" and "cs \<noteq> []" and "list_all component ds" and "list_all component es" and "es \<noteq> []"
  shows "\<exists>j. join_sv_scopes (replicate (Suc n) CHR ''.'' @ join_dots ds) (join_dots es) = Inr j \<and>
    resolve_name (join_dots cs) j =
      resolve_name (join_dots cs) (replicate (Suc n) CHR ''.'' @ join_dots ds) @ ''.'' @ join_dots es"
proof -
  let ?dots = "replicate (Suc n) CHR ''.''"
  have comps: "\<forall>c\<in>set cs. component c" "\<forall>c\<in>set ds. component c" "\<forall>c\<in>set es. component c" "\<forall>c\<in>set (ds @ es). component c"
    using assms by (auto simp: list_all_iff)
  have ne: "join_dots es \<noteq> []" using join_dots_Nil [OF comps(3)] assms(5) by simp
  have "join_sv_scopes (?dots @ join_dots ds) (join_dots es) = Inr (?dots @ join_dots (ds @ es))"
  proof (cases "ds = []")
    case True
    then show ?thesis using ne by (simp add: join_sv_scopes_def last_replicate)
  next
    case False
    have ned: "join_dots ds \<noteq> []" using join_dots_Nil [OF comps(2)] False by simp
    have "last (join_dots ds) \<noteq> CHR ''.''" by (rule last_join_dots [OF comps(2) False])
    then show ?thesis using ne ned False assms(5) by (simp add: join_sv_scopes_def join_dots_append)
  qed
  moreover have "take (max 1 (length cs - n)) cs @ ds \<noteq> []" using assms(2) by (cases cs) auto
  ultimately show ?thesis
    using assms(5) by (simp add: resolve_name_components comps assms(2) join_dots_append del: replicate_Suc flip: append_assoc)
qed

theorem join_scopes_resolution_witness:
  "\<exists>j. join_sv_scopes ''..foo'' ''bar.baz'' = Inr j \<and>
    resolve_name ''TOP.top.cpu'' j = resolve_name ''TOP.top.cpu'' ''..foo'' @ ''.bar.baz''"
  using join_scopes_resolution [of "[''TOP'', ''top'', ''cpu'']" "[''foo'']" "[''bar'', ''baz'']" 1]
  by (simp add: component_def)

end
