(* ===== verification/Mem_Area.thy ===== *)
theory Mem_Area
  imports Sv_Scoped
begin

text \<open>
  \<open>mem_area.cc\<close>: class \<open>MemArea\<close>, a memory of the simulated design that is read and written one word
  at a time through a 40-byte buffer.  The three methods that the subclasses override are fields of
  the record \<open>mem_methods\<close>, and \<open>MemArea_Write\<close> and \<open>MemArea_Read\<close> call whichever they are given.
  The locale \<open>mem_codec\<close> states the contract those methods have to keep; inside it the two
  operations are shown to behave as writes and reads of an array of words.
\<close>

section \<open>The class\<close>

record mem_area =
  ma_scope :: string
  ma_num_words :: u32
  ma_width_byte :: u32

record mem_methods =
  ToPhysAddr :: "u32 \<Rightarrow> u32 action"
  WriteBuffer :: "u8 list \<Rightarrow> u8 list \<Rightarrow> nat \<Rightarrow> u32 \<Rightarrow> u8 list action"
  ReadBuffer :: "u8 list \<Rightarrow> u8 list \<Rightarrow> u32 \<Rightarrow> u8 list action"

definition MemArea :: "string \<Rightarrow> u32 \<Rightarrow> u32 \<Rightarrow> mem_area res" where
  "MemArea scope num_words width_byte =
     (if \<not> 0 < num_words then Inl Assert_failed
      else if \<not> unat width_byte \<le> SV_MEM_WIDTH_BYTES then Inl Assert_failed
      else Inr \<lparr>ma_scope = scope, ma_num_words = num_words, ma_width_byte = width_byte\<rparr>)"

definition GetSizeWords :: "mem_area \<Rightarrow> u32" where
  "GetSizeWords a = ma_num_words a"

definition GetSizeBytes :: "mem_area \<Rightarrow> u32" where
  "GetSizeBytes a = ma_num_words a * ma_width_byte a"

definition GetWidthByte :: "mem_area \<Rightarrow> u32" where
  "GetWidthByte a = ma_width_byte a"

definition GetWidth :: "mem_area \<Rightarrow> u32" where
  "GetWidth a = 8 * ma_width_byte a"

definition ReadToMinibuf :: "mem_area \<Rightarrow> u8 list \<Rightarrow> u32 \<Rightarrow> u8 list action" where
  "ReadToMinibuf a minibuf phys_addr =
     SVScoped (ma_scope a)
       (act_bind (simutil_get_mem phys_addr minibuf) (\<lambda>(success, minibuf).
          if \<not> success then act_fail (Throw (Runtime_error (Could_not_read_word phys_addr)))
          else act_return minibuf))"

definition WriteFromMinibuf :: "mem_area \<Rightarrow> u32 \<Rightarrow> u8 list \<Rightarrow> u32 \<Rightarrow> unit action" where
  "WriteFromMinibuf a phys_addr minibuf dst_word =
     SVScoped (ma_scope a)
       (act_bind (simutil_set_mem phys_addr minibuf) (\<lambda>success.
          if \<not> success
          then act_fail (Throw (Runtime_error (Could_not_set_memory (dst_word * ma_width_byte a))))
          else act_return ()))"

definition minibuf_zero :: "u8 list" where
  "minibuf_zero = replicate SV_MEM_WIDTH_BYTES 0"

text \<open>One turn of the loop of \<open>Write\<close>; the buffer is kept from turn to turn.\<close>

definition write_word ::
  "mem_area \<Rightarrow> mem_methods \<Rightarrow> u32 \<Rightarrow> u8 list \<Rightarrow> nat \<Rightarrow> u8 list \<Rightarrow> u8 list action" where
  "write_word a ms word_offset data i minibuf =
     (let dst_word = word_offset + word_of_nat i in
      act_bind (ToPhysAddr ms dst_word) (\<lambda>phys_addr.
      act_bind (WriteBuffer ms minibuf data (unat (word_of_nat i * ma_width_byte a)) dst_word) (\<lambda>minibuf.
      act_bind (WriteFromMinibuf a phys_addr minibuf dst_word) (\<lambda>_.
      act_return minibuf))))"

text \<open>\<open>data.size() + width_byte_ - 1\<close> is computed in 64 bits and the quotient cut to 32.\<close>

definition MemArea_Write :: "mem_area \<Rightarrow> mem_methods \<Rightarrow> u32 \<Rightarrow> u8 list \<Rightarrow> unit action" where
  "MemArea_Write a ms word_offset data =
     act_bind (act_assert (unat (ma_width_byte a) \<le> SV_MEM_WIDTH_BYTES)) (\<lambda>_.
     if ma_width_byte a = 0 then act_fail Undefined
     else
       let data_words = word_of_nat ((length data + unat (ma_width_byte a) - 1) div unat (ma_width_byte a))
       in act_bind (act_assert (word_offset + data_words \<le> ma_num_words a)) (\<lambda>_.
          act_bind (act_loop (write_word a ms word_offset data) [0..<unat data_words] minibuf_zero) (\<lambda>_.
          act_return ())))"

definition read_word ::
  "mem_area \<Rightarrow> mem_methods \<Rightarrow> u32 \<Rightarrow> nat \<Rightarrow> u8 list \<times> u8 list \<Rightarrow> (u8 list \<times> u8 list) action" where
  "read_word a ms word_offset i = (\<lambda>(minibuf, ret).
     (let src_word = word_offset + word_of_nat i in
      act_bind (ToPhysAddr ms src_word) (\<lambda>phys_addr.
      act_bind (ReadToMinibuf a minibuf phys_addr) (\<lambda>minibuf.
      act_bind (ReadBuffer ms ret minibuf src_word) (\<lambda>ret.
      act_return (minibuf, ret))))))"

definition MemArea_Read :: "mem_area \<Rightarrow> mem_methods \<Rightarrow> u32 \<Rightarrow> u32 \<Rightarrow> u8 list action" where
  "MemArea_Read a ms word_offset num_words =
     act_bind (act_assert (word_offset + num_words \<le> ma_num_words a)) (\<lambda>_.
     let num_bytes = ma_width_byte a * num_words in
     act_bind (act_assert (num_words \<le> num_bytes)) (\<lambda>_.
     act_bind (act_assert (unat (ma_width_byte a) \<le> SV_MEM_WIDTH_BYTES)) (\<lambda>_.
     act_bind (act_loop (read_word a ms word_offset) [0..<unat num_words] (minibuf_zero, [])) (\<lambda>(_, ret).
     act_return ret))))"

text \<open>The methods of the base class.  \<open>words_left\<close> is a \<open>size_t\<close> difference.\<close>

definition MemArea_WriteBuffer :: "mem_area \<Rightarrow> u8 list \<Rightarrow> u8 list \<Rightarrow> nat \<Rightarrow> u32 \<Rightarrow> u8 list action" where
  "MemArea_WriteBuffer a buf data start_idx dst_word =
     (let words_left = (length data + (2 ^ 64 - start_idx mod 2 ^ 64)) mod 2 ^ 64;
          to_copy = min words_left (unat (ma_width_byte a));
          buf = if to_copy < unat (ma_width_byte a) then replicate (length buf) 0 else buf
      in act_lift (vec_copy buf 0 data start_idx to_copy))"

definition MemArea_ReadBuffer :: "mem_area \<Rightarrow> u8 list \<Rightarrow> u8 list \<Rightarrow> u32 \<Rightarrow> u8 list action" where
  "MemArea_ReadBuffer a data buf src_word =
     act_lift (if unat (ma_width_byte a) \<le> length buf
       then Inr (data @ take (unat (ma_width_byte a)) buf) else Inl Undefined)"

definition MemArea_ToPhysAddr :: "u32 \<Rightarrow> u32 action" where
  "MemArea_ToPhysAddr logical_addr = act_return logical_addr"

definition MemArea_methods :: "mem_area \<Rightarrow> mem_methods" where
  "MemArea_methods a = \<lparr>ToPhysAddr = MemArea_ToPhysAddr, WriteBuffer = MemArea_WriteBuffer a,
     ReadBuffer = MemArea_ReadBuffer a\<rparr>"

text \<open>\<open>simutil_memload\<close> reads the file with \<open>$readmemh\<close>: what it loads into the memory of the scope is
  the parameter \<open>readmemh\<close>.\<close>

definition MemArea_LoadVmem :: "(string \<Rightarrow> sv_mem \<Rightarrow> sv_mem) \<Rightarrow> mem_area \<Rightarrow> string \<Rightarrow> unit action" where
  "MemArea_LoadVmem readmemh a path =
     SVScoped (ma_scope a)
       (act_bind current_mem (\<lambda>(n, m) s. (Inr (), s\<lparr>mem_at := (mem_at s)(n \<mapsto> readmemh path m)\<rparr>)))"

section \<open>One word over the DPI\<close>

text \<open>The scope name \<open>name\<close> resolves to \<open>home\<close> from where the simulation is.\<close>

definition resolves :: "sim \<Rightarrow> string \<Rightarrow> string \<Rightarrow> bool" where
  "resolves s name home \<longleftrightarrow>
     ok (fst (SetRelScope name s)) \<and> cur_scope (snd (SetRelScope name s)) = Some home"

lemma SetRelScope_result:
  "SetRelScope name s = (Inr prev, t) \<Longrightarrow> prev = cur_scope s \<and> t = s\<lparr>cur_scope := cur_scope t\<rparr>"
  by (auto simp: SetRelScope_def SetAbsScope_def Let_def split: if_splits option.splits)

lemma SetRelScope_fault: "SetRelScope name s = (Inl e, t) \<Longrightarrow> t = s"
  by (auto simp: SetRelScope_def SetAbsScope_def Let_def split: if_splits option.splits)

lemma SVScoped_run:
  assumes "resolves s name home" and "body (s\<lparr>cur_scope := Some home\<rparr>) = (r, u)"
  shows "SVScoped name body s = (r, u\<lparr>cur_scope := cur_scope s\<rparr>)"
proof -
  obtain prev t where t: "SetRelScope name s = (Inr prev, t)" "cur_scope t = Some home"
    using assms(1) by (cases "SetRelScope name s") (auto simp: resolves_def ok_iff)
  then show ?thesis using SetRelScope_result [OF t(1)] assms(2) by (simp add: SVScoped_def)
qed

lemma mem_at_cur_scope: "mem_at (s\<lparr>cur_scope := c\<rparr>) = mem_at s"
  by simp

text \<open>The part of a buffer that a memory of width \<open>w\<close> keeps.\<close>

definition keep :: "nat \<Rightarrow> u8 list \<Rightarrow> u8 list" where
  "keep w buf = vec_of SV_MEM_WIDTH_BYTES (\<lambda>b. b < w \<and> vbit buf b)"

lemma SV_MEM_WIDTH_BYTES_40: "SV_MEM_WIDTH_BYTES = 40"
  by (simp add: SV_MEM_WIDTH_BYTES_def SV_MEM_WIDTH_BITS_def)

lemma length_keep [simp]: "length (keep w buf) = 40"
  by (simp add: keep_def SV_MEM_WIDTH_BYTES_40)

lemma vbit_keep: "b < 320 \<Longrightarrow> vbit (keep w buf) b \<longleftrightarrow> b < w \<and> vbit buf b"
  by (simp add: keep_def vbit_vec_of SV_MEM_WIDTH_BYTES_40)

lemma keep_keep [simp]: "keep w (keep w buf) = keep w buf"
  by (rule vbit_ext) (auto simp: vbit_keep)

definition put_word :: "sim \<Rightarrow> string \<Rightarrow> nat \<Rightarrow> u8 list \<Rightarrow> sim" where
  "put_word s home i v =
     (case mem_at s home of None \<Rightarrow> s
      | Some m \<Rightarrow> s\<lparr>mem_at := (mem_at s)(home \<mapsto> m\<lparr>mem_word := (mem_word m)(i := v)\<rparr>)\<rparr>)"

lemma put_word_simps [simp]:
  "cur_scope (put_word s home i v) = cur_scope s"
  "scope_exists (put_word s home i v) = scope_exists s"
  "key_minibuf (put_word s home i v) = key_minibuf s"
  "nonce_minibuf (put_word s home i v) = nonce_minibuf s"
  by (simp_all add: put_word_def split: option.splits)

text \<open>The states differ at most in the memory in scope \<open>home\<close>.\<close>

definition only_at :: "string \<Rightarrow> sim \<Rightarrow> sim \<Rightarrow> bool" where
  "only_at home s t \<longleftrightarrow> (\<exists>m. t = s\<lparr>mem_at := (mem_at s)(home := m)\<rparr>)"

lemma only_at_refl [simp]: "only_at home s s"
  unfolding only_at_def by (rule exI [of _ "mem_at s home"]) simp

lemma only_at_trans: "only_at home s t \<Longrightarrow> only_at home t u \<Longrightarrow> only_at home s u"
  by (force simp: only_at_def)

lemma only_at_put: "only_at home s t \<Longrightarrow> only_at home s (put_word t home i v)"
  by (rule only_at_trans) (auto simp: only_at_def put_word_def split: option.split)

lemma only_at_mem: "only_at home s t \<Longrightarrow> h \<noteq> home \<Longrightarrow> mem_at t h = mem_at s h"
  by (auto simp: only_at_def)

lemma sint_small:
  assumes "unat (w :: u32) < n" and "n < 2 ^ 31"
  shows "0 \<le> sint w" and "\<not> int n \<le> sint w"
proof -
  have "int (unat w) < int n" "int n < int (2 ^ 31)" using assms by (simp_all only: of_nat_less_iff)
  then have bound: "uint w < int n" "int n < 2 ^ 31" by simp_all
  then have "uint w < 2 ^ 31" by linarith
  moreover have "- (2 ^ 31) \<le> uint w" by (rule order_trans [of _ 0]) simp_all
  ultimately have "sint w = uint w"
    unfolding sint_uint by (intro signed_take_bit_int_eq_self) simp_all
  then show "0 \<le> sint w" "\<not> int n \<le> sint w" using bound by simp_all
qed

lemma WriteFromMinibuf_run:
  assumes "resolves s (ma_scope a) home" and "mem_at s home = Some m" and "mem_width m \<le> 312"
    and "unat p < mem_depth m" and "mem_depth m < 2 ^ 31"
  shows "WriteFromMinibuf a p buf w s = (Inr (), put_word s home (unat p) (keep (mem_width m) buf))"
proof -
  note index = sint_small [OF assms(4,5)]
  show ?thesis
    unfolding WriteFromMinibuf_def
    by (subst SVScoped_run [OF assms(1)])
      (use assms index in \<open>auto simp: act_defs simutil_set_mem_def current_mem_def SV_MEM_WIDTH_BITS_def
        put_word_def keep_def Let_def\<close>)
qed

lemma ReadToMinibuf_run:
  assumes "resolves s (ma_scope a) home" and "mem_at s home = Some m" and "mem_width m \<le> 312"
    and "unat p < mem_depth m" and "mem_depth m < 2 ^ 31"
  shows "ReadToMinibuf a buf p s = (Inr (keep (mem_width m) (mem_word m (unat p))), s)"
proof -
  note index = sint_small [OF assms(4,5)]
  show ?thesis
    unfolding ReadToMinibuf_def
    by (subst SVScoped_run [OF assms(1)])
      (use assms index in \<open>auto simp: act_defs simutil_get_mem_def current_mem_def SV_MEM_WIDTH_BITS_def
        keep_def Let_def\<close>)
qed

section \<open>Memories as arrays of words\<close>

text \<open>The contract of the overridable methods: in a state \<open>env\<close> (the memory exists with the right
  width and depth, and whatever else the methods look at is as expected), \<open>pa\<close> is the physical
  address they compute, \<open>dec\<close> the bytes they read from a physical word, and what they write is read
  back.  \<open>zero_ext\<close> says whether a last word that is not complete is allowed.\<close>

definition padded :: "nat \<Rightarrow> u8 list \<Rightarrow> nat \<Rightarrow> u8 list" where
  "padded width data start = vec_resize (drop start data) width"

lemma length_padded [simp]: "length (padded width data start) = width"
  by (simp add: padded_def)

text \<open>The words of a write, put together again, are the data padded to whole words.\<close>

lemma concat_padded: "concat (map (\<lambda>k. padded w data (k * w)) [0..<n]) = vec_resize data (n * w)"
proof (induction n)
  case (Suc n)
  have "vec_resize data (n * w) @ padded w data (n * w) = vec_resize data (n * w + w)"
  proof (rule nth_equalityI)
    fix i
    assume i: "i < length (vec_resize data (n * w) @ padded w data (n * w))"
    show "(vec_resize data (n * w) @ padded w data (n * w)) ! i = vec_resize data (n * w + w) ! i"
    proof (cases "i < n * w")
      case False
      then have "i - n * w < w" "i - n * w < length data - n * w \<longleftrightarrow> i < length data" using i by auto
      then show ?thesis using False i by (simp add: nth_append nth_vec_resize padded_def)
    qed (simp add: nth_append nth_vec_resize)
  qed simp
  then show ?case using Suc by (simp add: add.commute)
qed (simp add: vec_resize_def)

lemma words_exact: "0 < w \<Longrightarrow> length data mod w = 0 \<Longrightarrow> (length data + w - 1) div w * w = length data"
  for w :: nat
proof -
  assume "0 < w" "length data mod w = 0"
  then obtain q where q: "length data = w * q" by auto
  have "(w * q + (w - 1)) div w = q" using \<open>0 < w\<close> by (simp only: div_mult_self4) simp
  moreover have "w * q + w - 1 = w * q + (w - 1)" using \<open>0 < w\<close> by simp
  ultimately show ?thesis using q by (simp add: mult.commute)
qed

lemma u32_less: "unat (n :: u32) < 2 ^ 32"
  using unsigned_less [of n, where 'a = nat] by simp

locale mem_codec =
  fixes a :: mem_area and ms :: mem_methods and home :: string
    and phys_width depth :: nat and env :: "sim \<Rightarrow> bool" and pa :: "u32 \<Rightarrow> u32"
    and dec :: "u8 list \<Rightarrow> u32 \<Rightarrow> u8 list" and zero_ext :: bool
  assumes width: "env s \<Longrightarrow> 0 < unat (ma_width_byte a) \<and> unat (ma_width_byte a) \<le> 40"
    and home: "env s \<Longrightarrow> resolves s (ma_scope a) home"
    and mem: "env s \<Longrightarrow> \<exists>m. mem_at s home = Some m \<and> mem_width m = phys_width \<and> mem_depth m = depth"
    and bounds: "env s \<Longrightarrow> phys_width \<le> 312 \<and> depth < 2 ^ 31"
    and put: "env s \<Longrightarrow> env (put_word s home i x)"
    and phys: "env s \<Longrightarrow> w < ma_num_words a \<Longrightarrow> ToPhysAddr ms w s = (Inr (pa w), s)"
    and pa_bound: "env s \<Longrightarrow> w < ma_num_words a \<Longrightarrow> unat (pa w) < depth"
    and pa_inj: "env s \<Longrightarrow> w < ma_num_words a \<Longrightarrow> v < ma_num_words a \<Longrightarrow> pa w = pa v \<Longrightarrow> w = v"
    and read: "env s \<Longrightarrow> length b = 40 \<Longrightarrow> w < ma_num_words a \<Longrightarrow>
      ReadBuffer ms acc b w s = (Inr (acc @ dec b w), s)"
    and dec_length: "env s \<Longrightarrow> length b = 40 \<Longrightarrow> w < ma_num_words a \<Longrightarrow> length (dec b w) = unat (ma_width_byte a)"
    and "write": "env s \<Longrightarrow> length b = 40 \<Longrightarrow> start < length data \<Longrightarrow> length data < 2 ^ 64 \<Longrightarrow>
      zero_ext \<or> start + unat (ma_width_byte a) \<le> length data \<Longrightarrow> w < ma_num_words a \<Longrightarrow>
      \<exists>c. WriteBuffer ms b data start w s = (Inr c, s) \<and> length c = 40 \<and>
          dec (keep phys_width c) w = padded (unat (ma_width_byte a)) data start"
begin

text \<open>The physical word that holds word \<open>k\<close>.\<close>

definition stored :: "sim \<Rightarrow> nat \<Rightarrow> u8 list" where
  "stored s k = (case mem_at s home of None \<Rightarrow> []
     | Some m \<Rightarrow> keep phys_width (mem_word m (unat (pa (word_of_nat k)))))"

text \<open>Word \<open>k\<close> of the memory, as the class reads it.\<close>

definition logical :: "sim \<Rightarrow> nat \<Rightarrow> u8 list" where
  "logical s k = dec (stored s k) (word_of_nat k)"

lemma word_index: "k < unat n \<Longrightarrow> unat (word_of_nat k :: u32) = k" "k < unat n \<Longrightarrow> (word_of_nat k :: u32) < n"
  for n :: u32
proof -
  assume k: "k < unat n"
  then have "k < 2 ^ 32" using u32_less [of n] by simp
  then show "unat (word_of_nat k :: u32) = k"
    by (simp add: unsigned_of_nat take_bit_nat_eq_self)
  then show "(word_of_nat k :: u32) < n" using k by (simp add: word_less_nat_alt)
qed

lemma length_stored: "env s \<Longrightarrow> length (stored s k) = 40"
  using mem [of s] by (auto simp: stored_def)

lemma logical_length: "env s \<Longrightarrow> k < unat (ma_num_words a) \<Longrightarrow> length (logical s k) = unat (ma_width_byte a)"
  using dec_length [of s _ "word_of_nat k"] word_index(2) [of k "ma_num_words a"] length_stored
  by (simp add: logical_def)

lemma fetch_word:
  assumes s: "env s" and k: "unat off + i < unat (ma_num_words a)" and w: "w = off + word_of_nat i"
  shows "ToPhysAddr ms w s = (Inr (pa w), s)" and "w < ma_num_words a" and "w = word_of_nat (unat off + i)"
    and "ReadToMinibuf a buf (pa w) s = (Inr (stored s (unat off + i)), s)"
    and "WriteFromMinibuf a (pa w) c w s = (Inr (), put_word s home (unat (pa w)) (keep phys_width c))"
proof -
  show at: "w = word_of_nat (unat off + i)" by (simp add: w)
  show lt: "w < ma_num_words a" unfolding at by (rule word_index(2) [OF k])
  show "ToPhysAddr ms w s = (Inr (pa w), s)" by (rule phys [OF s lt])
  obtain m where m: "mem_at s home = Some m" "mem_width m = phys_width" "mem_depth m = depth"
    using mem [OF s] by blast
  show "ReadToMinibuf a buf (pa w) s = (Inr (stored s (unat off + i)), s)"
    using ReadToMinibuf_run [of s a home m "pa w" buf] home [OF s] m bounds [OF s] pa_bound [OF s lt]
    by (simp add: stored_def at)
  show "WriteFromMinibuf a (pa w) c w s = (Inr (), put_word s home (unat (pa w)) (keep phys_width c))"
    using WriteFromMinibuf_run [of s a home m "pa w" c w] home [OF s] m bounds [OF s] pa_bound [OF s lt] by simp
qed

text \<open>A loop over words that only reads, and one that stores a word per turn.\<close>

lemma fetch_loop:
  fixes buf :: 'b and f :: "nat \<Rightarrow> 'c list"
  assumes "\<And>i buf ret. i < n \<Longrightarrow> \<exists>b. body i (buf, ret) s = (Inr (b, ret @ f (m + i)), s)"
  shows "\<exists>b. act_loop body [0..<n] (buf, []) s = (Inr (b, concat (map f [m..<m + n])), s)"
proof -
  have "\<exists>y t. act_loop body [0..<n] (buf, []) s = (Inr y, t) \<and> (t = s \<and> snd y = concat (map f [m..<m + n]))"
  proof (rule act_loop_rule [where P = "\<lambda>i y t. t = s \<and> snd y = concat (map f [m..<m + i])"])
    fix i t and y :: "'b \<times> 'c list"
    assume "0 \<le> i" "i < n" and y: "t = s \<and> snd y = concat (map f [m..<m + i])"
    then obtain b where "body i (fst y, snd y) s = (Inr (b, snd y @ f (m + i)), s)"
      using assms by blast
    then show "\<exists>z u. body i y t = (Inr z, u) \<and> (u = s \<and> snd z = concat (map f [m..<m + Suc i]))"
      using y by (cases y) auto
  qed simp_all
  then show ?thesis by auto
qed

lemma stored_put:
  assumes s: "env s" and k: "k < unat (ma_num_words a)" and j: "j < unat (ma_num_words a)"
  shows "stored (put_word s home (unat (pa (word_of_nat k))) (keep phys_width c)) j =
    (if j = k then keep phys_width c else stored s j)"
proof -
  obtain m where m: "mem_at s home = Some m" using mem [OF s] by blast
  have "unat (pa (word_of_nat j)) = unat (pa (word_of_nat k)) \<Longrightarrow> j = k"
    using pa_inj [OF s, of "word_of_nat j" "word_of_nat k"] word_index [OF k] word_index [OF j]
    by (metis word_unat_eq_iff)
  then show ?thesis using m by (auto simp: stored_def put_word_def)
qed

lemma store_loop:
  fixes off :: u32
  assumes s: "env s" and fit: "unat off + n \<le> unat (ma_num_words a)"
    and turn: "\<And>i buf t. i < n \<Longrightarrow> length buf = 40 \<Longrightarrow> env t \<Longrightarrow> \<exists>c. length c = 40 \<and> Q i c \<and>
      body i buf t = (Inr c, put_word t home (unat (pa (word_of_nat (unat off + i)))) (keep phys_width c))"
  shows "\<exists>c t. act_loop body [0..<n] minibuf_zero s = (Inr c, t) \<and> env t \<and> cur_scope t = cur_scope s \<and> only_at home s t \<and>
    (\<forall>j<unat (ma_num_words a). if unat off \<le> j \<and> j < unat off + n
       then \<exists>c. Q (j - unat off) c \<and> stored t j = keep phys_width c else stored t j = stored s j)"
proof -
  define P where "P i c t \<longleftrightarrow> length c = (40 :: nat) \<and> env t \<and> cur_scope t = cur_scope s \<and> only_at home s t \<and>
    (\<forall>j<unat (ma_num_words a). if unat off \<le> j \<and> j < unat off + i
       then \<exists>c. Q (j - unat off) c \<and> stored t j = keep phys_width c else stored t j = stored s j)"
    for i and c :: "u8 list" and t
  have "\<exists>c t. act_loop body [0..<n] minibuf_zero s = (Inr c, t) \<and> P n c t"
  proof (rule act_loop_rule)
    show "P 0 minibuf_zero s" using s by (auto simp: P_def minibuf_zero_def SV_MEM_WIDTH_BYTES_40)
  next
    fix i c t
    assume i: "0 \<le> i" "i < n" and P: "P i c t"
    let ?put = "\<lambda>d. put_word t home (unat (pa (word_of_nat (unat off + i)))) (keep phys_width d)"
    obtain d where d: "length d = 40" "Q i d" "body i c t = (Inr d, ?put d)"
      using turn [OF i(2), of c t] P unfolding P_def by blast
    have "env (?put d)" using P put by (auto simp: P_def)
    moreover have "stored (?put d) j = (if j = unat off + i then keep phys_width d else stored t j)"
      if "j < unat (ma_num_words a)" for j
      using stored_put [OF _ _ that, of t "unat off + i" d] P i fit by (simp add: P_def)
    ultimately have "P (Suc i) d (?put d)" using P d(1,2) by (auto simp: P_def only_at_put)
    then show "\<exists>y u. body i c t = (Inr y, u) \<and> P (Suc i) y u" using d(3) by blast
  qed simp
  then show ?thesis by (auto simp: P_def)
qed

lemma word_range:
  assumes "unat off + unat (n :: u32) \<le> unat (ma_num_words a)"
  shows "off + n \<le> ma_num_words a"
proof -
  have "unat (off + n) = unat off + unat n"
    using assms u32_less [of "ma_num_words a"] by (intro unat_add_lem [THEN iffD1]) simp
  then show ?thesis using assms by (simp add: word_le_nat_alt)
qed

lemma read_word_run:
  assumes s: "env s" and k: "unat off + i < unat (ma_num_words a)"
  shows "\<exists>b. read_word a ms off i (buf, ret) s = (Inr (b, ret @ logical s (unat off + i)), s)"
proof -
  note fetch = fetch_word [OF s k refl]
  show ?thesis
    using fetch(1,4) read [OF s length_stored [OF s] fetch(2), of ret "unat off + i"]
    by (simp add: read_word_def Let_def act_bind_def act_return_def logical_def)
qed

theorem read_spec:
  assumes s: "env s" and n: "unat off + unat n \<le> unat (ma_num_words a)"
    and size: "unat (ma_width_byte a) * unat n < 2 ^ 32"
  shows "MemArea_Read a ms off n s = (Inr (concat (map (logical s) [unat off..<unat off + unat n])), s)"
proof -
  obtain buf where loop: "act_loop (read_word a ms off) [0..<unat n] (minibuf_zero, []) s =
      (Inr (buf, concat (map (logical s) [unat off..<unat off + unat n])), s)"
    using fetch_loop [of "unat n" "read_word a ms off" s "logical s" "unat off" minibuf_zero]
      read_word_run [OF s] n by fastforce
  have "off + n \<le> ma_num_words a" by (rule word_range [OF n])
  moreover have "unat (ma_width_byte a * n) = unat (ma_width_byte a) * unat n"
    using size by (intro unat_mult_lem [THEN iffD1]) simp
  then have "n \<le> ma_width_byte a * n"
    using width [OF s] by (simp add: word_le_nat_alt)
  moreover have "unat (ma_width_byte a) \<le> SV_MEM_WIDTH_BYTES"
    using width [OF s] by (simp add: SV_MEM_WIDTH_BYTES_40)
  ultimately show ?thesis
    using loop by (simp add: MemArea_Read_def Let_def act_bind_def act_return_def act_assert_def)
qed

lemma write_word_run:
  assumes s: "env s" and k: "unat off + i < unat (ma_num_words a)" and buf: "length buf = 40"
    and start: "i * unat (ma_width_byte a) < length data" "length data \<le> 2 ^ 32"
    and full: "zero_ext \<or> i * unat (ma_width_byte a) + unat (ma_width_byte a) \<le> length data"
  shows "\<exists>c. length c = 40 \<and> dec (keep phys_width c) (word_of_nat (unat off + i)) =
        padded (unat (ma_width_byte a)) data (i * unat (ma_width_byte a)) \<and>
      write_word a ms off data i buf s =
      (Inr c, put_word s home (unat (pa (word_of_nat (unat off + i)))) (keep phys_width c))"
proof -
  note fetch = fetch_word [OF s k refl]
  let ?w = "off + word_of_nat i :: u32" and ?start = "i * unat (ma_width_byte a)"
  have "(word_of_nat i :: u32) * ma_width_byte a = word_of_nat ?start" by simp
  moreover have "?start < 2 ^ 32" using start by linarith
  ultimately have idx: "unat ((word_of_nat i :: u32) * ma_width_byte a) = ?start"
    by (simp add: unsigned_of_nat take_bit_nat_eq_self del: of_nat_mult)
  obtain c where c: "WriteBuffer ms buf data ?start ?w s = (Inr c, s)" "length c = 40"
    "dec (keep phys_width c) ?w = padded (unat (ma_width_byte a)) data ?start"
    using "write" [OF s buf start(1) _ full fetch(2)] start(2) by auto
  show ?thesis
    using fetch(1) fetch(5) [of c] c unfolding fetch(3) [symmetric] write_word_def Let_def idx
    by (simp add: act_bind_def act_return_def)
qed

theorem write_spec:
  assumes s: "env s" and data: "length data \<le> 2 ^ 32" and full: "zero_ext \<or> length data mod unat (ma_width_byte a) = 0"
    and n: "n = (length data + unat (ma_width_byte a) - 1) div unat (ma_width_byte a)"
    and fit: "unat off + n \<le> unat (ma_num_words a)"
  shows "\<exists>t. MemArea_Write a ms off data s = (Inr (), t) \<and> env t \<and> cur_scope t = cur_scope s \<and> only_at home s t \<and>
    (\<forall>j<unat (ma_num_words a). logical t j =
       (if unat off \<le> j \<and> j < unat off + n
        then padded (unat (ma_width_byte a)) data ((j - unat off) * unat (ma_width_byte a))
        else logical s j))"
proof -
  let ?wd = "unat (ma_width_byte a)"
  let ?Q = "\<lambda>i c. dec (keep phys_width c) (word_of_nat (unat off + i)) = padded ?wd data (i * ?wd)"
  have wd: "0 < ?wd" "?wd \<le> 40" using width [OF s] by simp_all
  have turn: "\<exists>c. length c = 40 \<and> ?Q i c \<and> write_word a ms off data i buf t =
      (Inr c, put_word t home (unat (pa (word_of_nat (unat off + i)))) (keep phys_width c))"
    if i: "i < n" and buf: "length buf = 40" and t: "env t" for i buf t
  proof -
    have "(i + 1) * ?wd \<le> length data + ?wd - 1"
      using i n less_eq_div_iff_mult_less_eq [OF wd(1), of "i + 1" "length data + ?wd - 1"] by linarith
    then have lt: "i * ?wd < length data" using wd by simp
    have "i * ?wd + ?wd \<le> length data" if mult: "length data mod ?wd = 0"
    proof -
      obtain q where q: "length data = ?wd * q" using mult by auto
      then have "i < q" using lt by (simp add: mult.commute)
      then have "(i + 1) * ?wd \<le> q * ?wd" by (intro mult_le_mono1) simp
      then show ?thesis using q by (simp add: mult.commute)
    qed
    moreover have "unat off + i < unat (ma_num_words a)" using i fit by simp
    ultimately show ?thesis using write_word_run [OF t, of off i buf data] buf lt data full by auto
  qed
  obtain c t where loop: "act_loop (write_word a ms off data) [0..<n] minibuf_zero s = (Inr c, t)"
    and t: "env t" "cur_scope t = cur_scope s" "only_at home s t" and words: "\<And>j. j < unat (ma_num_words a) \<Longrightarrow>
      if unat off \<le> j \<and> j < unat off + n then \<exists>c. ?Q (j - unat off) c \<and> stored t j = keep phys_width c
      else stored t j = stored s j"
    using store_loop [OF s fit, of ?Q "write_word a ms off data", OF turn] by auto
  have "n < 2 ^ 32" using fit u32_less [of "ma_num_words a"] by simp
  then have un: "unat (word_of_nat n :: u32) = n" by (simp add: unsigned_of_nat take_bit_nat_eq_self)
  have "off + word_of_nat n \<le> ma_num_words a" using fit un by (intro word_range) simp
  moreover have "ma_width_byte a \<noteq> 0" using wd by auto
  ultimately have "MemArea_Write a ms off data s = (Inr (), t)"
    using loop un wd unfolding MemArea_Write_def n [symmetric] Let_def
    by (simp add: SV_MEM_WIDTH_BYTES_40 act_bind_def act_return_def act_assert_def)
  moreover have "logical t j = (if unat off \<le> j \<and> j < unat off + n then padded ?wd data ((j - unat off) * ?wd)
      else logical s j)" if "j < unat (ma_num_words a)" for j
    using words [OF that] by (auto simp: logical_def split: if_splits)
  ultimately show ?thesis using t by blast
qed

text \<open>Reading back what was written.\<close>

theorem write_read:
  assumes s: "env s" and data: "length data < 2 ^ 32 - 40" and full: "zero_ext \<or> length data mod unat (ma_width_byte a) = 0"
    and n: "n = (length data + unat (ma_width_byte a) - 1) div unat (ma_width_byte a)"
    and fit: "unat off + n \<le> unat (ma_num_words a)"
  shows "\<exists>t. MemArea_Write a ms off data s = (Inr (), t) \<and> cur_scope t = cur_scope s \<and>
    MemArea_Read a ms off (word_of_nat n) t = (Inr (vec_resize data (n * unat (ma_width_byte a))), t) \<and>
    (\<forall>o' k. unat o' + unat k \<le> unat (ma_num_words a) \<and> unat (ma_width_byte a) * unat k < 2 ^ 32 \<and>
       (unat o' + unat k \<le> unat off \<or> unat off + n \<le> unat o') \<longrightarrow>
       fst (MemArea_Read a ms o' k t) = fst (MemArea_Read a ms o' k s))"
proof -
  let ?wd = "unat (ma_width_byte a)"
  obtain t where t: "MemArea_Write a ms off data s = (Inr (), t)" "env t" "cur_scope t = cur_scope s"
    "\<And>j. j < unat (ma_num_words a) \<Longrightarrow> logical t j =
       (if unat off \<le> j \<and> j < unat off + n then padded ?wd data ((j - unat off) * ?wd) else logical s j)"
    using write_spec [OF s _ full n fit] data by auto
  have wd: "0 < ?wd" "?wd \<le> 40" using width [OF s] by simp_all
  have "n < 2 ^ 32" using fit u32_less [of "ma_num_words a"] by simp
  then have un: "unat (word_of_nat n :: u32) = n" by (simp add: unsigned_of_nat take_bit_nat_eq_self)
  have "?wd * n \<le> length data + ?wd - 1" unfolding n by simp
  then have size: "?wd * n < 2 ^ 32" using data wd by linarith
  have "map (logical t) [unat off..<unat off + n] = map (\<lambda>k. padded ?wd data (k * ?wd)) [0..<n]"
    using t(4) fit by (intro nth_equalityI) simp_all
  then have "MemArea_Read a ms off (word_of_nat n) t = (Inr (vec_resize data (n * ?wd)), t)"
    using read_spec [OF t(2), of off "word_of_nat n"] un fit size by (simp add: concat_padded)
  moreover have "fst (MemArea_Read a ms o' k t) = fst (MemArea_Read a ms o' k s)"
    if k: "unat o' + unat k \<le> unat (ma_num_words a)" "?wd * unat k < 2 ^ 32"
      "unat o' + unat k \<le> unat off \<or> unat off + n \<le> unat o'" for o' k
  proof -
    have "map (logical t) [unat o'..<unat o' + unat k] = map (logical s) [unat o'..<unat o' + unat k]"
      using k(1,3) by (intro map_cong refl) (auto simp: t(4))
    then show ?thesis using read_spec [OF s k(1,2)] read_spec [OF t(2) k(1,2)] by (simp only: fst_conv)
  qed
  ultimately show ?thesis using t(1,3) by blast
qed

end

section \<open>The base class keeps the contract\<close>

lemma resolves_cong:
  assumes "cur_scope t = cur_scope s" and "scope_exists t = scope_exists s"
  shows "resolves t name home = resolves s name home"
  using assms by (simp add: resolves_def SetRelScope_def SetAbsScope_def Let_def split: option.splits)

lemma resolves_put [simp]: "resolves (put_word s h i v) name home = resolves s name home"
  by (rule resolves_cong) simp_all

text \<open>The memory is in the design, \<open>w\<close> bits wide and \<open>depth\<close> words deep.\<close>

definition mem_present :: "sim \<Rightarrow> string \<Rightarrow> string \<Rightarrow> nat \<Rightarrow> nat \<Rightarrow> bool" where
  "mem_present s name home w depth \<longleftrightarrow> resolves s name home \<and> w \<le> 312 \<and> depth < 2 ^ 31 \<and>
     (case mem_at s home of None \<Rightarrow> False | Some m \<Rightarrow> mem_width m = w \<and> mem_depth m = depth)"

lemma mem_present_put [simp]: "mem_present (put_word s h i v) name home w depth = mem_present s name home w depth"
proof -
  have "(case mem_at (put_word s h i v) home of None \<Rightarrow> False | Some m \<Rightarrow> mem_width m = w \<and> mem_depth m = depth) =
      (case mem_at s home of None \<Rightarrow> False | Some m \<Rightarrow> mem_width m = w \<and> mem_depth m = depth)"
    by (cases "mem_at s h") (auto simp: put_word_def)
  then show ?thesis by (simp only: mem_present_def resolves_put)
qed

lemma mem_presentD:
  assumes "mem_present s name home w depth"
  shows "resolves s name home" and "w \<le> 312 \<and> depth < 2 ^ 31"
    and "\<exists>m. mem_at s home = Some m \<and> mem_width m = w \<and> mem_depth m = depth"
  using assms by (auto simp: mem_present_def split: option.splits)

definition plain_env :: "mem_area \<Rightarrow> string \<Rightarrow> nat \<Rightarrow> sim \<Rightarrow> bool" where
  "plain_env a home depth s \<longleftrightarrow> 0 < ma_width_byte a \<and> unat (ma_num_words a) \<le> depth \<and>
     mem_present s (ma_scope a) home (8 * unat (ma_width_byte a)) depth"

lemma take_keep:
  assumes "length c = 40" and "w \<le> 40"
  shows "take w (keep (8 * w) c) = take w c"
  using assms by (intro vbit_ext) (auto simp: vbit_take vbit_keep min_def)

interpretation plain: mem_codec a "MemArea_methods a" home "8 * unat (ma_width_byte a)" depth
    "plain_env a home depth" "\<lambda>w. w" "\<lambda>b w. take (unat (ma_width_byte a)) b" True
  for a home depth
proof
  fix s
  assume s: "plain_env a home depth s"
  then have wd: "0 < unat (ma_width_byte a)" "unat (ma_width_byte a) \<le> 39"
    by (auto simp: plain_env_def mem_present_def word_less_nat_alt)
  then show "0 < unat (ma_width_byte a) \<and> unat (ma_width_byte a) \<le> 40" by simp
  show "resolves s (ma_scope a) home" "8 * unat (ma_width_byte a) \<le> 312 \<and> depth < 2 ^ 31"
    "\<exists>m. mem_at s home = Some m \<and> mem_width m = 8 * unat (ma_width_byte a) \<and> mem_depth m = depth"
    using s mem_presentD unfolding plain_env_def by blast+
  show "plain_env a home depth (put_word s home i x)" for i x
    using s by (simp add: plain_env_def)
  fix w :: u32
  assume w: "w < ma_num_words a"
  show "ToPhysAddr (MemArea_methods a) w s = (Inr w, s)"
    by (simp add: MemArea_methods_def MemArea_ToPhysAddr_def act_return_def)
  show "unat w < depth" using w s by (simp add: plain_env_def word_less_nat_alt)
  fix b :: "u8 list"
  assume b: "length b = 40"
  show "ReadBuffer (MemArea_methods a) acc b w s = (Inr (acc @ take (unat (ma_width_byte a)) b), s)" for acc
    using b wd by (simp add: MemArea_methods_def MemArea_ReadBuffer_def act_lift_def)
  show "length (take (unat (ma_width_byte a)) b) = unat (ma_width_byte a)" using b wd by simp
  fix start :: nat and data :: "u8 list"
  assume d: "start < length data" "length data < 2 ^ 64"
  let ?wd = "unat (ma_width_byte a)" and ?left = "length data - start"
  have "start mod 2 ^ 64 = start" using d by simp
  then have "length data + (2 ^ 64 - start mod 2 ^ 64) = ?left + 2 ^ 64" "?left < 2 ^ 64"
    using d by linarith+
  then have left: "(length data + (2 ^ 64 - start mod 2 ^ 64)) mod 2 ^ 64 = ?left"
    by (metis mod_add_self2 mod_less)
  define c where "c = take (min ?left ?wd) (drop start data) @
    drop (min ?left ?wd) (if min ?left ?wd < ?wd then replicate (length b) 0 else b)"
  have virt: "WriteBuffer (MemArea_methods a) = MemArea_WriteBuffer a" by (simp add: MemArea_methods_def)
  have "WriteBuffer (MemArea_methods a) b data start w s = (Inr c, s)"
    unfolding virt MemArea_WriteBuffer_def left Let_def c_def
    using b wd d(1) by (auto simp: vec_copy_def act_lift_def)
  moreover have c: "length c = 40" using b wd d by (simp add: c_def)
  moreover have "take ?wd (keep (8 * ?wd) c) = padded ?wd data start"
  proof -
    have "take ?wd (keep (8 * ?wd) c) = take ?wd c" using wd by (intro take_keep c) simp
    also have "\<dots> = padded ?wd data start"
      using b wd by (cases "?left < ?wd") (simp_all add: c_def padded_def vec_resize_def)
    finally show ?thesis .
  qed
  ultimately show "\<exists>c. WriteBuffer (MemArea_methods a) b data start w s = (Inr c, s) \<and> length c = 40 \<and>
      take ?wd (keep (8 * ?wd) c) = padded ?wd data start" by blast
qed

section \<open>Properties\<close>

text \<open>A design with one memory in scope \<open>home\<close>, whose words all hold \<open>word\<close>, for the examples.\<close>

definition one_memory :: "string \<Rightarrow> nat \<Rightarrow> nat \<Rightarrow> u8 list \<Rightarrow> sim" where
  "one_memory home width depth word =
     \<lparr>cur_scope = Some ''TOP'', scope_exists = (\<lambda>n. n = home),
      mem_at = [home \<mapsto> \<lparr>mem_width = width, mem_depth = depth, mem_word = (\<lambda>_. word)\<rparr>],
      key_minibuf = (\<lambda>_ j. word_of_nat j), nonce_minibuf = (\<lambda>_ _. 5)\<rparr>"

lemma mem_present_one_memory:
  "name \<noteq> [] \<Longrightarrow> hd name \<noteq> CHR ''.'' \<Longrightarrow> w \<le> 312 \<Longrightarrow> depth < 2 ^ 31 \<Longrightarrow> mem_present (one_memory name w depth word) name name w depth"
  by (cases name) (simp_all add: mem_present_def resolves_def one_memory_def SetRelScope_def SetAbsScope_def)

text \<open>C15: Bytes written to a memory area are read back, zeros completing the last word, and every
  range of words outside the written one reads as before.\<close>

theorem memory_read_back:
  assumes "plain_env a home depth s" and "length data < 2 ^ 32 - 40"
    and "n = (length data + unat (ma_width_byte a) - 1) div unat (ma_width_byte a)"
    and "unat off + n \<le> unat (ma_num_words a)"
  shows "\<exists>t. MemArea_Write a (MemArea_methods a) off data s = (Inr (), t) \<and> cur_scope t = cur_scope s \<and>
    MemArea_Read a (MemArea_methods a) off (word_of_nat n) t =
      (Inr (vec_resize data (n * unat (ma_width_byte a))), t) \<and>
    (\<forall>o' k. unat o' + unat k \<le> unat (ma_num_words a) \<and> unat (ma_width_byte a) * unat k < 2 ^ 32 \<and>
       (unat o' + unat k \<le> unat off \<or> unat off + n \<le> unat o') \<longrightarrow>
       fst (MemArea_Read a (MemArea_methods a) o' k t) = fst (MemArea_Read a (MemArea_methods a) o' k s))"
  using plain.write_read [OF assms(1,2) _ assms(3,4)] by simp

theorem memory_read_back_witness:
  "\<exists>t. MemArea_Write \<lparr>ma_scope = ''TOP.m'', ma_num_words = 8, ma_width_byte = 4\<rparr>
      (MemArea_methods \<lparr>ma_scope = ''TOP.m'', ma_num_words = 8, ma_width_byte = 4\<rparr>) 2 [1, 2, 3, 4, 5]
      (one_memory ''TOP.m'' 32 8 (replicate 40 0)) = (Inr (), t) \<and>
    MemArea_Read \<lparr>ma_scope = ''TOP.m'', ma_num_words = 8, ma_width_byte = 4\<rparr>
      (MemArea_methods \<lparr>ma_scope = ''TOP.m'', ma_num_words = 8, ma_width_byte = 4\<rparr>) 2 2 t =
      (Inr [1, 2, 3, 4, 5, 0, 0, 0], t)"
proof -
  let ?a = "\<lparr>ma_scope = ''TOP.m'', ma_num_words = 8, ma_width_byte = 4\<rparr>"
  have resize: "vec_resize [1, 2, 3, 4, 5] 8 = [1, 2, 3, 4, 5, 0, 0, 0]"
    by (simp add: vec_resize_def eval_nat_numeral)
  have env: "plain_env ?a ''TOP.m'' 8 (one_memory ''TOP.m'' 32 8 (replicate 40 0))"
    by (simp add: plain_env_def mem_present_one_memory)
  have prem: "length [1, 2, 3, 4, 5 :: u8] < 2 ^ 32 - 40" "unat (2 :: u32) + 2 \<le> unat (ma_num_words ?a)"
    "2 = (length [1, 2, 3, 4, 5 :: u8] + unat (ma_width_byte ?a) - 1) div unat (ma_width_byte ?a)"
    by simp_all
  from memory_read_back [OF env prem(1,3,2)]
  obtain t where "MemArea_Write ?a (MemArea_methods ?a) 2 [1, 2, 3, 4, 5] (one_memory ''TOP.m'' 32 8 (replicate 40 0)) = (Inr (), t)"
    "MemArea_Read ?a (MemArea_methods ?a) 2 (word_of_nat 2) t =
      (Inr (vec_resize [1, 2, 3, 4, 5] (2 * unat (ma_width_byte ?a))), t)"
    by blast
  then show ?thesis using resize by (intro exI [of _ t]) simp
qed

text \<open>When the design has no scope of the memory's name, writing anything that the assertions let
  through throws the scope error and changes nothing.\<close>

theorem memory_scope_missing:
  assumes "SetRelScope (ma_scope a) s = (Inl e, s)" and "0 < ma_width_byte a" and "unat (ma_width_byte a) \<le> 40"
    and "data \<noteq> []" and "length data < 2 ^ 32 - 40"
    and "unat off + (length data + unat (ma_width_byte a) - 1) div unat (ma_width_byte a) \<le> unat (ma_num_words a)"
  shows "MemArea_Write a (MemArea_methods a) off data s = (Inl e, s)"
proof -
  let ?wd = "unat (ma_width_byte a)" and ?n = "(length data + unat (ma_width_byte a) - 1) div unat (ma_width_byte a)"
  have wd: "0 < ?wd" using assms(2) by (simp add: word_less_nat_alt)
  have "0 < ?n" using assms(4) wd by (cases data) (simp_all add: div_greater_zero_iff)
  then have range: "[0..<?n] = 0 # [1..<?n]" by (simp add: upt_conv_Cons)
  have "?n < 2 ^ 32" using assms(6) u32_less [of "ma_num_words a"] by simp
  then have un: "unat (word_of_nat ?n :: u32) = ?n" by (simp add: unsigned_of_nat take_bit_nat_eq_self)
  have "unat (off + word_of_nat ?n) = unat off + ?n"
    using assms(6) un u32_less [of "ma_num_words a"] unat_add_lem [of off "word_of_nat ?n"] by simp
  then have fit: "off + word_of_nat ?n \<le> ma_num_words a" using assms(6) by (simp add: word_le_nat_alt)
  have buffer: "\<exists>c. MemArea_WriteBuffer a minibuf_zero data 0 off s = (Inr c, s)"
    using assms(3,4,5) by (auto simp: MemArea_WriteBuffer_def Let_def vec_copy_def act_lift_def minibuf_zero_def
      SV_MEM_WIDTH_BYTES_40)
  then obtain c where "MemArea_WriteBuffer a minibuf_zero data 0 off s = (Inr c, s)" by blast
  then have "write_word a (MemArea_methods a) off data 0 minibuf_zero s = (Inl e, s)"
    using assms(1) by (simp add: write_word_def MemArea_methods_def MemArea_ToPhysAddr_def act_bind_def act_return_def
      WriteFromMinibuf_def SVScoped_def)
  then show ?thesis
    using assms(2,3) fit un unfolding MemArea_Write_def Let_def
    by (auto simp: SV_MEM_WIDTH_BYTES_40 act_bind_def act_assert_def range simp del: One_nat_def)
qed

theorem memory_scope_missing_witness:
  "MemArea_Write \<lparr>ma_scope = ''TOP.x'', ma_num_words = 8, ma_width_byte = 4\<rparr>
      (MemArea_methods \<lparr>ma_scope = ''TOP.x'', ma_num_words = 8, ma_width_byte = 4\<rparr>) 2 [1, 2]
      (one_memory ''TOP.m'' 32 8 (replicate 40 0)) = (Inl (Throw (Scope_error ''TOP.x'')), one_memory ''TOP.m'' 32 8 (replicate 40 0))"
  by (rule memory_scope_missing)
    (simp_all add: one_memory_def SetRelScope_def SetAbsScope_def)

end
