(* ===== verification/Mem_Depth.thy ===== *)
theory Mem_Depth
  imports Mem_Area
begin

text \<open>
  The number of words that a \<open>MemArea\<close> is made with is what the program says, and the depth of the memory
  is what the design has.  Writes that end within both are as if the area had just the words of both; a
  write that passes the checks of the class and does not end within the memory fills it and then throws.
\<close>

section \<open>The words that the area and the memory have\<close>

definition cut :: "nat \<Rightarrow> mem_area \<Rightarrow> mem_area" where
  "cut depth a = a\<lparr>ma_num_words := word_of_nat (min depth (unat (ma_num_words a)))\<rparr>"

lemma cut_fields [simp]:
  "ma_scope (cut depth a) = ma_scope a" "ma_width_byte (cut depth a) = ma_width_byte a"
  by (simp_all add: cut_def)

lemma cut_words [simp]: "unat (ma_num_words (cut depth a)) = min depth (unat (ma_num_words a))"
proof -
  have "min depth (unat (ma_num_words a)) < 2 ^ 32" using u32_less [of "ma_num_words a"] by simp
  then show ?thesis by (simp add: cut_def unsigned_of_nat take_bit_nat_eq_self)
qed

lemma cut_methods [simp]: "MemArea_methods (cut depth a) = MemArea_methods a"
  by (simp add: MemArea_methods_def fun_eq_iff MemArea_WriteBuffer_def MemArea_ReadBuffer_def)

lemma cut_write_word [simp]: "write_word (cut depth a) = write_word a"
  unfolding write_word_def [abs_def] WriteFromMinibuf_def cut_fields by (rule refl)

lemma cut_read_word [simp]: "read_word (cut depth a) = read_word a"
  unfolding read_word_def [abs_def] ReadToMinibuf_def cut_fields by (rule refl)

lemma unat_words: "n \<le> unat (m :: u32) \<Longrightarrow> unat (word_of_nat n :: u32) = n"
  using u32_less [of m] by (simp add: unsigned_of_nat take_bit_nat_eq_self)

lemma words_fit: "n \<le> unat m \<Longrightarrow> (word_of_nat n :: u32) \<le> m"
  by (simp add: word_le_nat_alt unat_words)

lemma cut_Write:
  assumes "n = (length data + unat (ma_width_byte a) - 1) div unat (ma_width_byte a)"
    and "n \<le> depth" and "n \<le> unat (ma_num_words a)"
  shows "MemArea_Write (cut depth a) ms 0 data = MemArea_Write a ms 0 data"
proof -
  have "(word_of_nat n :: u32) \<le> ma_num_words (cut depth a)" "(word_of_nat n :: u32) \<le> ma_num_words a"
    using assms(2,3) by (simp_all add: words_fit)
  then show ?thesis unfolding MemArea_Write_def assms(1) Let_def by simp
qed

lemma cut_Read:
  assumes "n \<le> depth" and "n \<le> unat (ma_num_words a)"
  shows "MemArea_Read (cut depth a) ms 0 (word_of_nat n) = MemArea_Read a ms 0 (word_of_nat n)"
proof -
  have "(word_of_nat n :: u32) \<le> ma_num_words (cut depth a)" "(word_of_nat n :: u32) \<le> ma_num_words a"
    using assms by (simp_all add: words_fit)
  then show ?thesis unfolding MemArea_Read_def Let_def by simp
qed

text \<open>The area is over a memory of the design of \<open>depth\<close> words.\<close>

definition backed :: "mem_area \<Rightarrow> string \<Rightarrow> nat \<Rightarrow> sim \<Rightarrow> bool" where
  "backed a home depth s \<longleftrightarrow> 0 < ma_width_byte a \<and>
     mem_present s (ma_scope a) home (8 * unat (ma_width_byte a)) depth"

lemma backed_cut: "backed a home depth s \<Longrightarrow> plain_env (cut depth a) home depth s"
  by (simp add: backed_def plain_env_def)

lemma write_within:
  assumes "backed a home depth s" and "length data < 2 ^ 32 - 40"
    and "n = (length data + unat (ma_width_byte a) - 1) div unat (ma_width_byte a)"
    and "n \<le> depth" and "n \<le> unat (ma_num_words a)"
  shows "\<exists>t. MemArea_Write a (MemArea_methods a) 0 data s = (Inr (), t) \<and> cur_scope t = cur_scope s \<and>
    MemArea_Read a (MemArea_methods a) 0 (word_of_nat n) t = (Inr (vec_resize data (n * unat (ma_width_byte a))), t)"
  using plain.write_read [OF backed_cut [OF assms(1)] assms(2) _, of n 0] assms(3-5)
    cut_Write [OF assms(3-5), of "MemArea_methods a"] cut_Read [OF assms(4,5), of "MemArea_methods a"] by auto

lemma WriteFromMinibuf_past:
  assumes "resolves s (ma_scope a) home" and "mem_at s home = Some m"
    and "mem_depth m \<le> unat p" and "unat p < 2 ^ 31"
  shows "WriteFromMinibuf a p buf w s = (Inl (Throw (Runtime_error (Could_not_set_memory (w * ma_width_byte a)))), s)"
proof -
  have "int (unat p) < 2 ^ 31" using assms(4) by (simp only: of_nat_less_numeral_power_cancel_iff)
  then have "uint p < 2 ^ 31" by simp
  moreover have "- (2 ^ 31) \<le> uint p" by (rule order_trans [of _ 0]) simp_all
  ultimately have "sint p = int (unat p)"
    unfolding sint_uint by (subst signed_take_bit_int_eq_self) simp_all
  then have "int (mem_depth m) \<le> sint p" using assms(3) by linarith
  then show ?thesis
    unfolding WriteFromMinibuf_def
    by (subst SVScoped_run [OF assms(1)]) (use assms in \<open>auto simp: act_defs simutil_set_mem_def current_mem_def Let_def\<close>)
qed

lemma word_starts: "i < (len + wd - 1) div wd \<Longrightarrow> 0 < wd \<Longrightarrow> i * wd < len" for wd :: nat
proof -
  assume i: "i < (len + wd - 1) div wd" and wd: "0 < wd"
  then have "(i + 1) * wd \<le> len + wd - 1"
    using less_eq_div_iff_mult_less_eq [OF wd, of "i + 1" "len + wd - 1"] by linarith
  then show "i * wd < len" using wd by simp
qed

lemma ToPhysAddr_plain: "ToPhysAddr (MemArea_methods a) w s = (Inr w, s)"
  by (simp add: MemArea_methods_def MemArea_ToPhysAddr_def act_return_def)

text \<open>The first words of a write fill the memory, and the next one fails.\<close>

lemma fill_memory:
  assumes "plain_env a home depth s" and "unat (ma_num_words a) = depth" and "length data < 2 ^ 32"
    and "depth * unat (ma_width_byte a) \<le> length data"
  shows "\<exists>c t. act_loop (write_word a (MemArea_methods a) 0 data) [0..<depth] minibuf_zero s = (Inr c, t) \<and>
    length c = 40 \<and> plain_env a home depth t \<and> cur_scope t = cur_scope s \<and>
    MemArea_Read a (MemArea_methods a) 0 (word_of_nat depth) t = (Inr (take (depth * unat (ma_width_byte a)) data), t)"
proof -
  let ?wd = "unat (ma_width_byte a)" and ?body = "write_word a (MemArea_methods a) 0 data"
  let ?Q = "\<lambda>i c. take ?wd (keep (8 * ?wd) c) = padded ?wd data (i * ?wd)"
  have turn: "\<exists>c. length c = 40 \<and> ?Q i c \<and> ?body i buf t =
      (Inr c, put_word t home (unat (word_of_nat (unat (0 :: u32) + i) :: u32)) (keep (8 * ?wd) c))"
    if "i < depth" "length buf = 40" "plain_env a home depth t" for i buf t
  proof -
    have "(i + 1) * ?wd \<le> depth * ?wd" using that(1) by (intro mult_le_mono1) simp
    moreover have "0 < ?wd" using that(3) by (simp add: plain_env_def word_less_nat_alt)
    ultimately have "i * ?wd < length data" using assms(4) by simp
    then show ?thesis
      using plain.write_word_run [OF that(3), of 0 i buf data] that(1,2) assms(2,3) by auto
  qed
  have "unat (0 :: u32) + depth \<le> unat (ma_num_words a)" using assms(2) by simp
  from plain.store_loop [OF assms(1) this, of ?Q ?body, OF turn]
  obtain c t where run: "act_loop ?body [0..<depth] minibuf_zero s = (Inr c, t)" "plain_env a home depth t"
    "cur_scope t = cur_scope s" and words: "\<And>j. j < depth \<Longrightarrow> \<exists>c. ?Q j c \<and> plain.stored home a t j = keep (8 * ?wd) c"
    using assms(2) by auto
  have "\<exists>c t. act_loop ?body [0..<depth] minibuf_zero s = (Inr c, t) \<and> (length c = 40 \<and> plain_env a home depth t)"
  proof (rule act_loop_rule [where P = "\<lambda>_ c t. length c = 40 \<and> plain_env a home depth t"])
    fix i t and c :: "u8 list"
    assume "0 \<le> i" "i < depth" "length c = 40 \<and> plain_env a home depth t"
    then obtain d where "length d = 40" "?body i c t =
        (Inr d, put_word t home (unat (word_of_nat (unat (0 :: u32) + i) :: u32)) (keep (8 * ?wd) d))"
      using turn [of i c t] by blast
    then show "\<exists>y u. ?body i c t = (Inr y, u) \<and> length y = 40 \<and> plain_env a home depth u"
      using \<open>length c = 40 \<and> plain_env a home depth t\<close> by (simp add: plain_env_def)
  qed (use assms(1) in \<open>simp_all add: minibuf_zero_def SV_MEM_WIDTH_BYTES_40\<close>)
  then have "length c = 40" using run(1) by simp
  have "map (plain.logical home a t) [0..<depth] = map (\<lambda>k. padded ?wd data (k * ?wd)) [0..<depth]"
    using words by (intro map_cong refl) (fastforce simp: plain.logical_def)
  then have bytes: "concat (map (plain.logical home a t) [0..<depth]) = take (depth * ?wd) data"
    using assms(4) by (simp only: concat_padded) (simp add: vec_resize_def)
  have "unat (word_of_nat depth :: u32) = depth" "?wd * depth < 2 ^ 32"
    using assms(3,4) by (simp_all add: mult.commute flip: assms(2))
  then have "MemArea_Read a (MemArea_methods a) 0 (word_of_nat depth) t = (Inr (take (depth * ?wd) data), t)"
    using plain.read_spec [OF run(2), of 0 "word_of_nat depth"] assms(2) by (simp add: bytes)
  then show ?thesis using run \<open>length c = 40\<close> by blast
qed

lemma write_past:
  assumes "backed a home depth s" and "0 < depth" and "length data < 2 ^ 32 - 40"
    and "n = (length data + unat (ma_width_byte a) - 1) div unat (ma_width_byte a)"
    and "depth < n" and "n \<le> unat (ma_num_words a)"
  shows "\<exists>t. MemArea_Write a (MemArea_methods a) 0 data s =
      (Inl (Throw (Runtime_error (Could_not_set_memory (word_of_nat depth * ma_width_byte a)))), t) \<and>
    cur_scope t = cur_scope s \<and>
    MemArea_Read a (MemArea_methods a) 0 (word_of_nat depth) t = (Inr (take (depth * unat (ma_width_byte a)) data), t)"
proof -
  let ?wd = "unat (ma_width_byte a)" and ?ms = "MemArea_methods a" and ?a = "cut depth a"
  let ?fault = "Inl (Throw (Runtime_error (Could_not_set_memory (word_of_nat depth * ma_width_byte a))))"
  have wd: "0 < ?wd" "?wd \<le> 40" and small: "depth < 2 ^ 31" and env: "plain_env ?a home depth s"
    using assms(1) backed_cut by (auto simp: backed_def mem_present_def word_less_nat_alt)
  have start: "depth * ?wd < length data" by (rule word_starts [OF _ wd(1)]) (use assms(4,5) in simp)
  have data: "length data < 2 ^ 32" using assms(3) by linarith
  obtain c t where t: "act_loop (write_word a ?ms 0 data) [0..<depth] minibuf_zero s = (Inr c, t)" "length c = 40"
    "plain_env ?a home depth t" "cur_scope t = cur_scope s"
    "MemArea_Read ?a ?ms 0 (word_of_nat depth) t = (Inr (take (depth * ?wd) data), t)"
    using fill_memory [OF env, of data] assms(5,6) start data by auto
  have index: "unat (word_of_nat depth :: u32) = depth" using assms(5,6) by (intro unat_words [of _ "ma_num_words a"]) simp
  have idx: "unat (word_of_nat depth * ma_width_byte a) = depth * ?wd"
    using start data by (simp add: unat_mult_lem [THEN iffD1] index)
  obtain d where d: "WriteBuffer ?ms c data (depth * ?wd) (word_of_nat depth) t = (Inr d, t)"
    using "plain.write" [OF t(3,2) start, of 0] data assms(2,5,6)
    by (auto simp: MemArea_methods_def MemArea_WriteBuffer_def word_less_nat_alt)
  have "resolves t (ma_scope a) home" "\<exists>m. mem_at t home = Some m \<and> mem_depth m = depth"
    using t(3) mem_presentD unfolding plain_env_def by fastforce+
  then obtain m where "WriteFromMinibuf a (word_of_nat depth) d (word_of_nat depth) t = (?fault, t)"
    using WriteFromMinibuf_past [of t a home _ "word_of_nat depth"] index small by auto
  then have turn: "write_word a ?ms 0 data depth c t = (?fault, t)"
    using d by (simp add: write_word_def Let_def idx act_bind_def ToPhysAddr_plain)
  have "[0..<n] = [0..<depth] @ depth # [Suc depth..<n]"
    using upt_add_eq_append [of 0 depth "n - depth"] assms(5) by (simp add: upt_conv_Cons)
  then have "act_loop (write_word a ?ms 0 data) [0..<n] minibuf_zero s = (?fault, t)"
    using t(1) turn by (simp add: act_loop_append act_bind_def)
  moreover have "(word_of_nat n :: u32) \<le> ma_num_words a" "unat (word_of_nat n :: u32) = n" "ma_width_byte a \<noteq> 0"
    using assms(6) wd by (auto simp: words_fit unat_words)
  ultimately have "MemArea_Write a ?ms 0 data s = (?fault, t)"
    using wd unfolding MemArea_Write_def assms(4) [symmetric] Let_def
    by (simp add: SV_MEM_WIDTH_BYTES_40 act_bind_def act_assert_def)
  then show ?thesis using t(4,5) cut_Read [of depth depth a ?ms] assms(5,6) by auto
qed

end
