(* ===== verification/Ecc32_Mem_Area.thy ===== *)
theory Ecc32_Mem_Area
  imports Mem_Area Secded
begin

text \<open>
  \<open>ecc32_mem_area.cc\<close>: class \<open>Ecc32MemArea\<close>, a memory that stores 39 bits (a 32-bit word and 7 check
  bits) for each 32 bits of a logical word, packed without gaps.  The theory describes what the
  bit-packing loops do to a buffer seen as a string of bits, shows that the class keeps the contract
  of its base class, and that the check bits tell intact words from words with up to three flipped
  bits.
\<close>

section \<open>Packing bits\<close>

text \<open>\<open>memset(buf, 0, phys_size_bytes)\<close>\<close>

definition zero_buffer :: "u8 list \<Rightarrow> u32 \<Rightarrow> u8 list res" where
  "zero_buffer buf width_byte =
     (let phys_size_bytes = unat ((39 * (width_byte div 4) + 7) div 8)
      in if phys_size_bytes \<le> length buf
         then Inr (replicate phys_size_bytes 0 @ drop phys_size_bytes buf) else Inl Undefined)"

text \<open>The \<open>while\<close> loop of \<open>insert_bits\<close>, where \<open>buf\<close> points at byte \<open>pos\<close>; \<open>bit_idx\<close> is below 8.\<close>

function insert_loop :: "u8 list \<Rightarrow> nat \<Rightarrow> nat \<Rightarrow> u8 \<Rightarrow> nat \<Rightarrow> u8 list res" where
  "insert_loop buf pos bit_idx new_bits count =
     (if count = 0 \<or> 8 \<le> bit_idx then Inr buf
      else
        let space_avail = 8 - bit_idx;
            to_take = min space_avail count;
            masked = (2 ^ to_take - 1) AND new_bits;
            shifted = push_bit bit_idx masked
        in if pos < length buf
           then insert_loop (buf[pos := buf ! pos OR shifted]) (pos + 1) 0
                  (drop_bit to_take new_bits) (count - to_take)
           else Inl Undefined)"
  by pat_completeness auto

termination
  by (relation "measure (\<lambda>(_, _, _, _, count). count)") auto

declare insert_loop.simps [simp del]

definition insert_bits :: "u8 list \<Rightarrow> nat \<Rightarrow> u8 \<Rightarrow> nat \<Rightarrow> u8 list res" where
  "insert_bits buf bit_idx new_bits count =
     (if \<not> count \<le> 8 then Inl Assert_failed
      else insert_loop buf (bit_idx div 8) (bit_idx mod 8) new_bits count)"

text \<open>\<open>bytes\<close> points at element \<open>from\<close> of the vector \<open>data\<close>.\<close>

definition insert_word :: "u8 list \<Rightarrow> nat \<Rightarrow> u8 list \<Rightarrow> nat \<Rightarrow> u8 \<Rightarrow> u8 list res" where
  "insert_word buf bit_idx data from check_bits =
     (if drop_bit 7 check_bits \<noteq> 0 then Inl Assert_failed
      else res_bind
        (foldM (\<lambda>i buf. if from + i < length data
            then insert_bits buf (bit_idx + 8 * i) (data ! (from + i)) 8 else Inl Undefined)
          [0..<4] buf) (\<lambda>buf.
        insert_bits buf (bit_idx + 8 * 4) check_bits 7))"

function extract_loop :: "u8 list \<Rightarrow> nat \<Rightarrow> nat \<Rightarrow> nat \<Rightarrow> u8 \<Rightarrow> nat \<Rightarrow> u8 res" where
  "extract_loop buf pos bit_idx count ret out_idx =
     (if count = 0 \<or> 8 \<le> bit_idx then Inr ret
      else
        let bits_avail = 8 - bit_idx;
            to_take = min bits_avail count
        in if pos < length buf
           then
             let shifted = drop_bit bit_idx (buf ! pos);
                 masked = shifted AND (2 ^ to_take - 1)
             in extract_loop buf (pos + 1) 0 (count - to_take) (ret OR push_bit out_idx masked)
                  (out_idx + to_take)
           else Inl Undefined)"
  by pat_completeness auto

termination
  by (relation "measure (\<lambda>(_, _, _, count, _, _). count)") auto

declare extract_loop.simps [simp del]

definition extract_bits :: "u8 list \<Rightarrow> nat \<Rightarrow> nat \<Rightarrow> u8 res" where
  "extract_bits buf bit_idx count =
     (if \<not> count \<le> 8 then Inl Assert_failed
      else extract_loop buf (bit_idx div 8) (bit_idx mod 8) count 0 0)"

section \<open>The class\<close>

definition Ecc32MemArea :: "string \<Rightarrow> u32 \<Rightarrow> u32 \<Rightarrow> mem_area res" where
  "Ecc32MemArea scope words width_32 =
     res_bind (MemArea scope words (4 * width_32)) (\<lambda>a.
       if \<not> width_32 < 4 * width_32 then Inl Assert_failed
       else
         let phy_width_bits = 39 * width_32
         in if \<not> unat phy_width_bits \<le> SV_MEM_WIDTH_BITS then Inl Assert_failed else Inr a)"

definition Ecc32MemArea_LoadVmem :: "mem_area \<Rightarrow> string \<Rightarrow> unit action" where
  "Ecc32MemArea_LoadVmem a path = act_fail (Throw (Runtime_error Vmem_not_supported))"

text \<open>\<open>&data[start_idx + 4 * i]\<close>, of which the encoder reads four bytes.\<close>

definition ecc_write_step :: "u8 list \<Rightarrow> nat \<Rightarrow> nat \<Rightarrow> u8 list \<Rightarrow> u8 list res" where
  "ecc_write_step data start_idx i buf =
     res_bind (enc_secded_inv_39_32 (drop (start_idx + 4 * i) data)) (\<lambda>check_bits.
       insert_word buf (39 * i) data (start_idx + 4 * i) check_bits)"

definition Ecc32MemArea_WriteBuffer :: "mem_area \<Rightarrow> u8 list \<Rightarrow> u8 list \<Rightarrow> nat \<Rightarrow> u32 \<Rightarrow> u8 list action" where
  "Ecc32MemArea_WriteBuffer a buf data start_idx dst_word =
     act_lift (res_bind (zero_buffer buf (ma_width_byte a)) (\<lambda>buf.
       foldM (ecc_write_step data start_idx) [0..<unat (ma_width_byte a div 4)] buf))"

type_synonym ecc_word = "bool \<times> u32"

definition word_bytes :: "u32 \<Rightarrow> u8 list" where
  "word_bytes w = map (\<lambda>j. ucast (drop_bit (8 * j) w AND 0xff)) [0..<4]"

definition ecc_write_integrity_step :: "ecc_word list \<Rightarrow> nat \<Rightarrow> nat \<Rightarrow> u8 list \<Rightarrow> u8 list res" where
  "ecc_write_integrity_step data start_idx i buf =
     (if \<not> start_idx + i < length data then Inl Undefined
      else
        let word = data ! (start_idx + i);
            src_data = word_bytes (snd word)
        in res_bind (enc_secded_inv_39_32 src_data) (\<lambda>check_bits.
             let check_bits = if \<not> fst word then check_bits XOR 0x7f else check_bits
             in insert_word buf (39 * i) src_data 0 check_bits))"

definition Ecc32MemArea_WriteBufferWithIntegrity ::
  "mem_area \<Rightarrow> u8 list \<Rightarrow> ecc_word list \<Rightarrow> nat \<Rightarrow> u32 \<Rightarrow> u8 list action" where
  "Ecc32MemArea_WriteBufferWithIntegrity a buf data start_idx dst_word =
     act_lift (res_bind (zero_buffer buf (ma_width_byte a)) (\<lambda>buf.
       foldM (ecc_write_integrity_step data start_idx) [0..<unat (ma_width_byte a div 4)] buf))"

definition extract_word :: "u8 list \<Rightarrow> nat \<Rightarrow> u8 list res" where
  "extract_word buf i =
     foldM (\<lambda>j data. res_bind (extract_bits buf (39 * i + 8 * j) 8) (\<lambda>b. Inr (data @ [b]))) [0..<4] []"

definition Ecc32MemArea_ReadBuffer :: "mem_area \<Rightarrow> u8 list \<Rightarrow> u8 list \<Rightarrow> u32 \<Rightarrow> u8 list action" where
  "Ecc32MemArea_ReadBuffer a data buf src_word =
     act_lift (foldM (\<lambda>i data. res_bind (extract_word buf i) (\<lambda>bs. Inr (data @ bs)))
       [0..<unat (ma_width_byte a div 4)] data)"

definition ecc_read_integrity_step :: "u8 list \<Rightarrow> nat \<Rightarrow> ecc_word list \<Rightarrow> ecc_word list res" where
  "ecc_read_integrity_step buf i data =
     res_bind (extract_word buf i) (\<lambda>buf32.
     let w32 = fold (\<lambda>j w. w OR push_bit (8 * j) (ucast (buf32 ! j))) [0..<4] 0 in
     res_bind (enc_secded_inv_39_32 buf32) (\<lambda>exp_check_bits.
     res_bind (extract_bits buf (39 * i + 32) 7) (\<lambda>check_bits.
     Inr (data @ [(check_bits = exp_check_bits, w32)]))))"

definition Ecc32MemArea_ReadBufferWithIntegrity ::
  "mem_area \<Rightarrow> ecc_word list \<Rightarrow> u8 list \<Rightarrow> u32 \<Rightarrow> ecc_word list action" where
  "Ecc32MemArea_ReadBufferWithIntegrity a data buf src_word =
     act_lift (foldM (ecc_read_integrity_step buf) [0..<unat (ma_width_byte a div 4)] data)"

definition Ecc32MemArea_methods :: "mem_area \<Rightarrow> mem_methods" where
  "Ecc32MemArea_methods a = \<lparr>ToPhysAddr = MemArea_ToPhysAddr,
     WriteBuffer = Ecc32MemArea_WriteBuffer a, ReadBuffer = Ecc32MemArea_ReadBuffer a\<rparr>"

text \<open>The two methods this class adds are overridden in its subclass as well.\<close>

record ecc_methods =
  ecc_base :: mem_methods
  ReadBufferWithIntegrity :: "ecc_word list \<Rightarrow> u8 list \<Rightarrow> u32 \<Rightarrow> ecc_word list action"
  WriteBufferWithIntegrity :: "u8 list \<Rightarrow> ecc_word list \<Rightarrow> nat \<Rightarrow> u32 \<Rightarrow> u8 list action"

definition Ecc32MemArea_ecc_methods :: "mem_area \<Rightarrow> ecc_methods" where
  "Ecc32MemArea_ecc_methods a = \<lparr>ecc_base = Ecc32MemArea_methods a,
     ReadBufferWithIntegrity = Ecc32MemArea_ReadBufferWithIntegrity a,
     WriteBufferWithIntegrity = Ecc32MemArea_WriteBufferWithIntegrity a\<rparr>"

definition read_integrity_word ::
  "mem_area \<Rightarrow> ecc_methods \<Rightarrow> u32 \<Rightarrow> nat \<Rightarrow> u8 list \<times> ecc_word list \<Rightarrow> (u8 list \<times> ecc_word list) action" where
  "read_integrity_word a em word_offset i = (\<lambda>(minibuf, ret).
     (let src_word = word_offset + word_of_nat i in
      act_bind (ToPhysAddr (ecc_base em) src_word) (\<lambda>phys_addr.
      act_bind (ReadToMinibuf a minibuf phys_addr) (\<lambda>minibuf.
      act_bind (ReadBufferWithIntegrity em ret minibuf src_word) (\<lambda>ret.
      act_return (minibuf, ret))))))"

definition ReadWithIntegrity :: "mem_area \<Rightarrow> ecc_methods \<Rightarrow> u32 \<Rightarrow> u32 \<Rightarrow> ecc_word list action" where
  "ReadWithIntegrity a em word_offset num_words =
     act_bind (act_assert (word_offset + num_words \<le> ma_num_words a)) (\<lambda>_.
     act_bind (act_assert (unat (ma_width_byte a) \<le> SV_MEM_WIDTH_BYTES)) (\<lambda>_.
     act_bind (act_loop (read_integrity_word a em word_offset) [0..<unat num_words] (minibuf_zero, []))
       (\<lambda>(_, ret). act_return ret)))"

definition write_integrity_word ::
  "mem_area \<Rightarrow> ecc_methods \<Rightarrow> u32 \<Rightarrow> ecc_word list \<Rightarrow> nat \<Rightarrow> u8 list \<Rightarrow> u8 list action" where
  "write_integrity_word a em word_offset data i minibuf =
     (let dst_word = word_offset + word_of_nat i; width_32 = ma_width_byte a div 4 in
      act_bind (ToPhysAddr (ecc_base em) dst_word) (\<lambda>phys_addr.
      act_bind (WriteBufferWithIntegrity em minibuf data (unat (word_of_nat i * width_32)) dst_word) (\<lambda>minibuf.
      act_bind (WriteFromMinibuf a phys_addr minibuf dst_word) (\<lambda>_.
      act_return minibuf))))"

definition WriteWithIntegrity :: "mem_area \<Rightarrow> ecc_methods \<Rightarrow> u32 \<Rightarrow> ecc_word list \<Rightarrow> unit action" where
  "WriteWithIntegrity a em word_offset data =
     act_bind (act_assert (unat (ma_width_byte a) \<le> SV_MEM_WIDTH_BYTES)) (\<lambda>_.
     let width_32 = ma_width_byte a div 4 in
     if width_32 = 0 then act_fail Undefined
     else
       let to_write = word_of_nat (length data div unat width_32) in
       act_bind (act_assert (length data mod unat width_32 = 0)) (\<lambda>_.
       act_bind (act_assert (word_offset + to_write \<le> ma_num_words a)) (\<lambda>_.
       act_bind (act_loop (write_integrity_word a em word_offset data) [0..<unat to_write] minibuf_zero) (\<lambda>_.
       act_return ()))))"

section \<open>Buffers as bit strings\<close>

lemma insert_loop_eq:
  assumes "bit_idx < 8" and "8 * pos + bit_idx + count \<le> 8 * length buf"
  shows "\<exists>v. insert_loop buf pos bit_idx new_bits count = Inr v \<and> length v = length buf \<and>
    (\<forall>n<8 * length buf. vbit v n = (vbit buf n \<or>
       8 * pos + bit_idx \<le> n \<and> n < 8 * pos + bit_idx + count \<and> bit new_bits (n - (8 * pos + bit_idx))))"
  using assms
proof (induction buf pos bit_idx new_bits count rule: insert_loop.induct)
  case (1 buf pos bit_idx new_bits count)
  show ?case
  proof (cases "count = 0")
    case True
    then show ?thesis by (auto simp: insert_loop.simps)
  next
    case False
    define t where "t = min (8 - bit_idx) count"
    define b where "b = buf[pos := buf ! pos OR push_bit bit_idx ((2 ^ t - 1) AND new_bits)]"
    have t: "0 < t" "t \<le> count" "bit_idx + t \<le> 8" "t < count \<Longrightarrow> bit_idx + t = 8"
      using False 1(2) by (auto simp: t_def)
    have pos: "pos < length buf" using False 1(2,3) by linarith
    have pre: "8 * (pos + 1) + 0 + (count - t) \<le> 8 * length buf"
    proof (cases "t < count")
      case True
      then have "bit_idx + t = 8" by (rule t(4))
      moreover obtain d where "count = t + d" using True less_imp_add_positive by blast
      ultimately show ?thesis using 1(3) by simp
    next
      case False
      then show ?thesis using pos t(2) by simp
    qed
    have run: "insert_loop buf pos bit_idx new_bits count =
        insert_loop b (pos + 1) 0 (drop_bit t new_bits) (count - t)"
      using False 1(2) pos by (subst insert_loop.simps) (simp add: Let_def t_def b_def)
    have "\<exists>v. insert_loop b (pos + 1) 0 (drop_bit t new_bits) (count - t) = Inr v \<and> length v = length b \<and>
      (\<forall>n<8 * length b. vbit v n = (vbit b n \<or> 8 * (pos + 1) + 0 \<le> n \<and> n < 8 * (pos + 1) + 0 + (count - t) \<and>
        bit (drop_bit t new_bits) (n - (8 * (pos + 1) + 0))))"
      unfolding b_def t_def
      by (rule 1(1)) (use False 1(2,3) pos t pre [unfolded t_def] in \<open>auto simp: t_def\<close>)
    then obtain v where v: "insert_loop b (pos + 1) 0 (drop_bit t new_bits) (count - t) = Inr v" "length v = length buf"
      "\<And>n. n < 8 * length buf \<Longrightarrow> vbit v n = (vbit b n \<or> 8 + 8 * pos \<le> n \<and> n < 8 + 8 * pos + (count - t) \<and>
        bit new_bits (t + (n - (8 + 8 * pos))))"
      by (auto simp: b_def bit_drop_bit_eq)
    have vb: "vbit b n = (vbit buf n \<or> 8 * pos + bit_idx \<le> n \<and> n < 8 * pos + bit_idx + t \<and>
        bit new_bits (n - (8 * pos + bit_idx)))" for n
    proof (cases "n div 8 = pos")
      case True
      have n: "n = 8 * pos + n mod 8" "n mod 8 < 8" using True by auto
      have "vbit b n \<longleftrightarrow> bit (buf ! pos) (n mod 8) \<or>
          bit_idx \<le> n mod 8 \<and> n mod 8 - bit_idx < t \<and> bit new_bits (n mod 8 - bit_idx)"
        using True pos n(2) t(3)
        by (auto simp: vbit_def b_def bit_or_iff bit_push_bit_iff bit_and_iff bit_mask_iff mask_eq_exp_minus_1 [symmetric])
      moreover have "n - (8 * pos + bit_idx) = n mod 8 - bit_idx" using n by linarith
      moreover have "8 * pos + bit_idx \<le> n \<longleftrightarrow> bit_idx \<le> n mod 8"
        "bit_idx \<le> n mod 8 \<Longrightarrow> n < 8 * pos + bit_idx + t \<longleftrightarrow> n mod 8 - bit_idx < t"
        using n by linarith+
      ultimately show ?thesis using True by (auto simp: vbit_def)
    next
      case False
      then have "\<not> (8 * pos + bit_idx \<le> n \<and> n < 8 * pos + bit_idx + t)" using t(3) by (auto simp: div_nat_eqI)
      then show ?thesis using False by (auto simp: vbit_def b_def)
    qed
    have "vbit v n = (vbit buf n \<or> 8 * pos + bit_idx \<le> n \<and> n < 8 * pos + bit_idx + count \<and>
        bit new_bits (n - (8 * pos + bit_idx)))" if n: "n < 8 * length buf" for n
    proof (cases "t < count")
      case True
      then have s: "8 + 8 * pos = 8 * pos + bit_idx + t" using t(4) by simp
      show ?thesis
      proof (cases "8 * pos + bit_idx + t \<le> n")
        case True
        then have "t + (n - (8 * pos + bit_idx + t)) = n - (8 * pos + bit_idx)" by linarith
        then show ?thesis unfolding v(3) [OF n] vb s using t by auto
      next
        case False
        then show ?thesis unfolding v(3) [OF n] vb s using \<open>t < count\<close> by auto
      qed
    next
      case False
      then have "t = count" using t by simp
      then show ?thesis unfolding v(3) [OF n] vb by auto
    qed
    then show ?thesis using run v by auto
  qed
qed

lemma insert_bits_eq:
  assumes "count \<le> 8" and "b + count \<le> 8 * length buf"
  shows "\<exists>v. insert_bits buf b new_bits count = Inr v \<and> length v = length buf \<and>
    (\<forall>n<8 * length buf. vbit v n = (vbit buf n \<or> b \<le> n \<and> n < b + count \<and> bit new_bits (n - b)))"
  using insert_loop_eq [of "b mod 8" "b div 8" count buf new_bits] assms by (simp add: insert_bits_def)

lemma extract_loop_eq:
  assumes "bit_idx < 8" and "8 * pos + bit_idx + count \<le> 8 * length buf" and "out + count \<le> 8"
  shows "\<exists>r. extract_loop buf pos bit_idx count ret out = Inr r \<and>
    (\<forall>j. bit r j = (bit ret j \<or> out \<le> j \<and> j < out + count \<and> vbit buf (8 * pos + bit_idx + (j - out))))"
  using assms
proof (induction buf pos bit_idx count ret out rule: extract_loop.induct)
  case (1 buf pos bit_idx count ret out)
  show ?case
  proof (cases "count = 0")
    case True
    then show ?thesis by (auto simp: extract_loop.simps)
  next
    case False
    define t where "t = min (8 - bit_idx) count"
    define r' where "r' = ret OR push_bit out (drop_bit bit_idx (buf ! pos) AND (2 ^ t - 1))"
    have t: "0 < t" "t \<le> count" "bit_idx + t \<le> 8" "t < count \<Longrightarrow> bit_idx + t = 8"
      using False 1(2) by (auto simp: t_def)
    have pos: "pos < length buf" using False 1(2,3) by linarith
    have pre: "8 * (pos + 1) + 0 + (count - t) \<le> 8 * length buf"
    proof (cases "t < count")
      case True
      then have "bit_idx + t = 8" by (rule t(4))
      moreover obtain d where "count = t + d" using True less_imp_add_positive by blast
      ultimately show ?thesis using 1(3) by simp
    next
      case False
      then show ?thesis using pos t(2) by simp
    qed
    have run: "extract_loop buf pos bit_idx count ret out =
        extract_loop buf (pos + 1) 0 (count - t) r' (out + t)"
      using False 1(2) pos by (subst extract_loop.simps) (simp add: Let_def t_def r'_def)
    have "\<exists>r. extract_loop buf (pos + 1) 0 (count - t) r' (out + t) = Inr r \<and>
      (\<forall>j. bit r j = (bit r' j \<or> out + t \<le> j \<and> j < out + t + (count - t) \<and> vbit buf (8 * (pos + 1) + 0 + (j - (out + t)))))"
      unfolding r'_def t_def
      by (rule 1(1)) (use False 1(2,3,4) pos t pre [unfolded t_def] in \<open>auto simp: t_def\<close>)
    then obtain r where r: "extract_loop buf (pos + 1) 0 (count - t) r' (out + t) = Inr r"
      "\<And>j. bit r j = (bit r' j \<or> out + t \<le> j \<and> j < out + count \<and> vbit buf (8 + 8 * pos + (j - (out + t))))"
      using t by auto
    have r': "bit r' j = (bit ret j \<or> out \<le> j \<and> j < out + t \<and> vbit buf (8 * pos + bit_idx + (j - out)))" for j
    proof (cases "out \<le> j \<and> j < out + t")
      case True
      then have "bit_idx + (j - out) < 8" "j < 8" using t(2,3) 1(4) by linarith+
      then have "vbit buf (8 * pos + bit_idx + (j - out)) = bit (buf ! pos) (bit_idx + (j - out))"
        using vbit_split [of "bit_idx + (j - out)" buf pos] by (simp add: add.assoc)
      then show ?thesis using True \<open>j < 8\<close> t(3) \<open>bit_idx + (j - out) < 8\<close>
        by (auto simp: r'_def bit_or_iff bit_push_bit_iff bit_and_iff bit_drop_bit_eq bit_mask_iff mask_eq_exp_minus_1 [symmetric])
    next
      case False
      then show ?thesis
        by (auto simp: r'_def bit_or_iff bit_push_bit_iff bit_and_iff bit_mask_iff mask_eq_exp_minus_1 [symmetric])
    qed
    have "bit r j = (bit ret j \<or> out \<le> j \<and> j < out + count \<and> vbit buf (8 * pos + bit_idx + (j - out)))" for j
    proof (cases "out + t \<le> j \<and> j < out + count")
      case True
      then have "8 + 8 * pos + (j - (out + t)) = 8 * pos + bit_idx + (j - out)" using t(4) by linarith
      then show ?thesis unfolding r(2) r' using True by auto
    next
      case False
      then show ?thesis unfolding r(2) r' using t(2) by auto
    qed
    then show ?thesis using run r(1) by auto
  qed
qed

lemma extract_bits_eq:
  assumes "count \<le> 8" and "b + count \<le> 8 * length buf"
  shows "extract_bits buf b count = Inr (byte_of (\<lambda>j. j < count \<and> vbit buf (b + j)))"
proof -
  obtain r where r: "extract_bits buf b count = Inr r" "\<And>j. bit r j = (j < count \<and> vbit buf (b + j))"
    using extract_loop_eq [of "b mod 8" "b div 8" count buf 0 0] assms by (auto simp: extract_bits_def)
  have "r = byte_of (\<lambda>j. j < count \<and> vbit buf (b + j))"
    by (rule bit_word_eqI) (simp add: r bit_byte_of)
  then show ?thesis using r by simp
qed

text \<open>Field \<open>j\<close> of a stored word: 32 data bits, then 7 check bits.\<close>

definition ecc_field :: "u8 list \<Rightarrow> u8 \<Rightarrow> nat \<Rightarrow> bool" where
  "ecc_field bytes check_bits j = (if j < 32 then vbit bytes j else bit check_bits (j - 32))"

lemma insert_word_eq:
  assumes "drop_bit 7 check_bits = 0" and "from + 4 \<le> length data" and "b + 39 \<le> 8 * length buf"
  shows "\<exists>v. insert_word buf b data from check_bits = Inr v \<and> length v = length buf \<and>
    (\<forall>n<8 * length buf. vbit v n = (vbit buf n \<or> b \<le> n \<and> n < b + 39 \<and>
       ecc_field (drop from data) check_bits (n - b)))"
proof -
  have "\<exists>v. foldM (\<lambda>i buf. if from + i < length data
      then insert_bits buf (b + 8 * i) (data ! (from + i)) 8 else Inl Undefined) [0..<4] buf = Inr v \<and>
    (length v = length buf \<and> (\<forall>n<8 * length buf. vbit v n = (vbit buf n \<or> b \<le> n \<and> n < b + 8 * 4 \<and>
       vbit (drop from data) (n - b))))"
  proof (rule foldM_upt_rule)
    fix i and c :: "u8 list"
    assume i: "0 \<le> i" "i < (4 :: nat)" and c: "length c = length buf \<and> (\<forall>n<8 * length buf. vbit c n =
        (vbit buf n \<or> b \<le> n \<and> n < b + 8 * i \<and> vbit (drop from data) (n - b)))"
    obtain v where v: "insert_bits c (b + 8 * i) (data ! (from + i)) 8 = Inr v" "length v = length buf"
      "\<And>n. n < 8 * length buf \<Longrightarrow> vbit v n = (vbit c n \<or> b + 8 * i \<le> n \<and> n < b + 8 * i + 8 \<and>
        bit (data ! (from + i)) (n - (b + 8 * i)))"
      using insert_bits_eq [of 8 "b + 8 * i" c "data ! (from + i)"] c i assms(3) by auto
    have "vbit v n = (vbit buf n \<or> b \<le> n \<and> n < b + 8 * Suc i \<and> vbit (drop from data) (n - b))"
      if n: "n < 8 * length buf" for n
    proof (cases "b + 8 * i \<le> n \<and> n < b + 8 * i + 8")
      case True
      then have "n - b = 8 * i + (n - (b + 8 * i))" "n - (b + 8 * i) < 8" by linarith+
      then have "vbit (drop from data) (n - b) = bit (data ! (from + i)) (n - (b + 8 * i))"
        using vbit_split [of "n - (b + 8 * i)" "drop from data" i] assms(2) i by simp
      then show ?thesis using True v(3) [OF n] c n by auto
    next
      case False
      then show ?thesis using v(3) [OF n] c n by auto
    qed
    then show "\<exists>w. (if from + i < length data then insert_bits c (b + 8 * i) (data ! (from + i)) 8 else Inl Undefined) = Inr w \<and>
        (length w = length buf \<and> (\<forall>n<8 * length buf. vbit w n =
          (vbit buf n \<or> b \<le> n \<and> n < b + 8 * Suc i \<and> vbit (drop from data) (n - b))))"
      using v assms(2) i by auto
  qed auto
  then obtain v where v: "foldM (\<lambda>i buf. if from + i < length data
      then insert_bits buf (b + 8 * i) (data ! (from + i)) 8 else Inl Undefined) [0..<4] buf = Inr v"
    "length v = length buf"
    "\<And>n. n < 8 * length buf \<Longrightarrow> vbit v n = (vbit buf n \<or> b \<le> n \<and> n < b + 32 \<and> vbit (drop from data) (n - b))"
    by auto
  obtain w where w: "insert_bits v (b + 32) check_bits 7 = Inr w" "length w = length buf"
    "\<And>n. n < 8 * length buf \<Longrightarrow> vbit w n = (vbit v n \<or> b + 32 \<le> n \<and> n < b + 32 + 7 \<and> bit check_bits (n - (b + 32)))"
    using insert_bits_eq [of 7 "b + 32" v check_bits] v(2) assms(3) by auto
  have "vbit w n = (vbit buf n \<or> b \<le> n \<and> n < b + 39 \<and> ecc_field (drop from data) check_bits (n - b))"
    if n: "n < 8 * length buf" for n
  proof (cases "n < b + 32")
    case True
    then show ?thesis using w(3) [OF n] v(3) [OF n] by (auto simp: ecc_field_def)
  next
    case False
    then have "n - (b + 32) = n - b - 32" "\<not> n - b < 32" by linarith+
    then show ?thesis using False w(3) [OF n] v(3) [OF n] by (auto simp: ecc_field_def)
  qed
  then show ?thesis using v(1) w assms(1) by (simp add: insert_word_def del: upt_Suc)
qed

lemma zero_buffer_eq:
  assumes "unat (wd div 4) * 39 \<le> 320" and "length buf = 40"
  shows "\<exists>v. zero_buffer buf wd = Inr v \<and> length v = 40 \<and> (\<forall>n<39 * unat (wd div 4). \<not> vbit v n)"
proof -
  let ?w = "unat (wd div 4)"
  have "?w \<le> 8" using assms(1) by simp
  have "unat (39 * (wd div 4)) = 39 * ?w"
    using unat_mult_lem [of 39 "wd div 4"] \<open>?w \<le> 8\<close> by simp
  then have "unat (39 * (wd div 4) + 7) = 39 * ?w + 7"
    using unat_add_lem [of "39 * (wd div 4)" 7] \<open>?w \<le> 8\<close> by simp
  then have z: "unat ((39 * (wd div 4) + 7) div 8) = (39 * ?w + 7) div 8" by (simp add: unat_div)
  have "(39 * ?w + 7) div 8 \<le> 40" using \<open>?w \<le> 8\<close> by simp
  moreover have "\<not> vbit (replicate ((39 * ?w + 7) div 8) 0 @ drop ((39 * ?w + 7) div 8) buf) n" if "n < 39 * ?w" for n
    using that assms(2) by (subst vbit_append) (auto simp: vbit_replicate_0)
  ultimately show ?thesis using assms(2) by (simp add: zero_buffer_def z Let_def)
qed

text \<open>A loop that stores one word per turn.\<close>

lemma pack_loop:
  assumes w: "unat (wd div 4) * 39 \<le> 320" and buf: "length buf = 40"
    and body: "\<And>i c. i < unat (wd div 4) \<Longrightarrow> length c = 40 \<Longrightarrow> \<exists>v. body i c = Inr v \<and> length v = 40 \<and>
      (\<forall>n<320. vbit v n = (vbit c n \<or> 39 * i \<le> n \<and> n < 39 * i + 39 \<and> f i (n - 39 * i)))"
  shows "\<exists>v. res_bind (zero_buffer buf wd) (foldM body [0..<unat (wd div 4)]) = Inr v \<and> length v = 40 \<and>
    (\<forall>n<39 * unat (wd div 4). vbit v n = f (n div 39) (n mod 39))"
proof -
  let ?w = "unat (wd div 4)"
  obtain z where z: "zero_buffer buf wd = Inr z" "length z = 40" "\<And>n. n < 39 * ?w \<Longrightarrow> \<not> vbit z n"
    using zero_buffer_eq [OF w buf] by blast
  have "\<exists>v. foldM body [0..<?w] z = Inr v \<and>
    (length v = 40 \<and> (\<forall>n<39 * ?w. vbit v n = (n < 39 * ?w \<and> f (n div 39) (n mod 39))))"
  proof (rule foldM_upt_rule [where P = "\<lambda>i v. length v = 40 \<and>
      (\<forall>n<39 * ?w. vbit v n = (n < 39 * i \<and> f (n div 39) (n mod 39)))"])
    show "length z = 40 \<and> (\<forall>n<39 * ?w. vbit z n = (n < 39 * 0 \<and> f (n div 39) (n mod 39)))" using z by simp
  next
    fix i c
    assume i: "0 \<le> i" "i < ?w" and c: "length c = 40 \<and> (\<forall>n<39 * ?w. vbit c n = (n < 39 * i \<and> f (n div 39) (n mod 39)))"
    obtain v where v: "body i c = Inr v" "length v = 40"
      "\<And>n. n < 320 \<Longrightarrow> vbit v n = (vbit c n \<or> 39 * i \<le> n \<and> n < 39 * i + 39 \<and> f i (n - 39 * i))"
      using body [OF i(2)] c by blast
    have "vbit v n = (n < 39 * Suc i \<and> f (n div 39) (n mod 39))" if n: "n < 39 * ?w" for n
    proof (cases "39 * i \<le> n \<and> n < 39 * i + 39")
      case True
      then have "n div 39 = i" by (intro div_nat_eqI) simp_all
      then have "n mod 39 = n - 39 * i" by (metis minus_mult_div_eq_mod)
      then show ?thesis using True v(3) [of n] c n w \<open>n div 39 = i\<close> by auto
    next
      case False
      then show ?thesis using v(3) [of n] c n w by auto
    qed
    then show "\<exists>v. body i c = Inr v \<and> (length v = 40 \<and> (\<forall>n<39 * ?w. vbit v n = (n < 39 * Suc i \<and> f (n div 39) (n mod 39))))"
      using v by blast
  qed simp
  then show ?thesis using z(1) by auto
qed

lemma enc_39_32:
  assumes "4 \<le> length bs"
  shows "\<exists>c. enc_secded_inv_39_32 bs = Inr c \<and> drop_bit 7 c = 0"
proof -
  have "take_bit 7 (0x2a :: u8) = 0x2a" by simp
  then have "\<not> bit (0x2a :: u8) n" if "7 \<le> n" for n using that by (metis bit_take_bit_iff not_le)
  moreover have "length (map h masks_39_32) = 7" for h :: "u64 \<Rightarrow> bool" by (simp add: masks_39_32_def)
  then have "\<not> bit (mask_checks masks_39_32 x) n" if "7 \<le> n" for x n
    unfolding mask_checks_def bit_pack_bits using that by simp
  ultimately have "\<not> bit (checks_secded_inv_39_32 x) n" if "7 \<le> n" for x n
    unfolding checks_secded_inv_39_32_xor checks_secded_39_32_masks using that by (simp add: bit_xor_iff)
  then have "drop_bit 7 (checks_secded_inv_39_32 x) = 0" for x
    by (intro bit_word_eqI) (simp add: bit_drop_bit_eq)
  then show ?thesis using assms by (simp add: enc_secded_inv_39_32_def)
qed

lemma enc_39_32_take: "enc_secded_inv_39_32 (take 4 bs) = enc_secded_inv_39_32 bs"
  by (simp add: enc_secded_inv_39_32_def read_word_4_def min_def)

text \<open>The check bits of four bytes.\<close>

definition check_of :: "u8 list \<Rightarrow> u8" where
  "check_of bs = checks_secded_inv_39_32 (ucast (read_word_4 bs))"

lemma enc_check_of: "4 \<le> length bs \<Longrightarrow> enc_secded_inv_39_32 bs = Inr (check_of bs) \<and> drop_bit 7 (check_of bs) = 0"
  using enc_39_32 [of bs] by (auto simp: enc_secded_inv_39_32_def check_of_def)

lemma WriteBuffer_fields:
  assumes w: "unat (ma_width_byte a div 4) * 39 \<le> 320" and buf: "length buf = 40"
    and data: "start + 4 * unat (ma_width_byte a div 4) \<le> length data"
  shows "\<exists>v. Ecc32MemArea_WriteBuffer a buf data start dst s = (Inr v, s) \<and> length v = 40 \<and>
    (\<forall>n<39 * unat (ma_width_byte a div 4). vbit v n =
      ecc_field (drop (start + 4 * (n div 39)) data) (check_of (drop (start + 4 * (n div 39)) data)) (n mod 39))"
proof -
  let ?w = "unat (ma_width_byte a div 4)"
  have "\<exists>v. ecc_write_step data start i c = Inr v \<and> length v = 40 \<and>
      (\<forall>n<320. vbit v n = (vbit c n \<or> 39 * i \<le> n \<and> n < 39 * i + 39 \<and>
        ecc_field (drop (start + 4 * i) data) (check_of (drop (start + 4 * i) data)) (n - 39 * i)))"
    if "i < ?w" "length c = 40" for i c
  proof -
    have "start + 4 * i + 4 \<le> length data" "39 * i + 39 \<le> 320" using that data w by linarith+
    then show ?thesis
      using enc_check_of [of "drop (start + 4 * i) data"] that(2)
        insert_word_eq [of "check_of (drop (start + 4 * i) data)" "start + 4 * i" data "39 * i" c]
      by (auto simp: ecc_write_step_def)
  qed
  from pack_loop [OF w buf this] show ?thesis
    by (auto simp: Ecc32MemArea_WriteBuffer_def act_lift_def)
qed

section \<open>Reading back\<close>

definition stored_bytes :: "u8 list \<Rightarrow> nat \<Rightarrow> u8 list" where
  "stored_bytes buf i = vec_of 4 (\<lambda>n. vbit buf (39 * i + n))"

definition stored_check :: "u8 list \<Rightarrow> nat \<Rightarrow> u8" where
  "stored_check buf i = byte_of (\<lambda>j. j < 7 \<and> vbit buf (39 * i + 32 + j))"

lemma extract_word_eq:
  assumes "39 * i + 39 \<le> 8 * length buf"
  shows "extract_word buf i = Inr (stored_bytes buf i)"
proof -
  have "foldM (\<lambda>j data. res_bind (extract_bits buf (39 * i + 8 * j) 8) (\<lambda>b. Inr (data @ [b]))) [0..<4] [] =
      Inr (fold (\<lambda>j data. data @ [byte_of (\<lambda>n. vbit buf (39 * i + (8 * j + n)))]) [0..<4] [])"
  proof (rule foldM_total)
    fix j and data :: "u8 list"
    assume "j \<in> set [0..<4 :: nat]"
    then have "39 * i + 8 * j + 8 \<le> 8 * length buf" using assms by simp
    moreover have "byte_of (\<lambda>n. n < 8 \<and> vbit buf (39 * i + 8 * j + n)) = byte_of (\<lambda>n. vbit buf (39 * i + (8 * j + n)))"
      by (rule bit_word_eqI) (simp add: bit_byte_of add.assoc)
    ultimately show "res_bind (extract_bits buf (39 * i + 8 * j) 8) (\<lambda>b. Inr (data @ [b])) =
        Inr (data @ [byte_of (\<lambda>n. vbit buf (39 * i + (8 * j + n)))])"
      by (simp add: extract_bits_eq)
  qed
  also have "fold (\<lambda>j data. data @ [byte_of (\<lambda>n. vbit buf (39 * i + (8 * j + n)))]) [0..<4] [] = stored_bytes buf i"
  proof -
    have "fold (\<lambda>j data. data @ [f j]) xs acc = acc @ map f xs" for f :: "nat \<Rightarrow> u8" and xs acc
      by (induction xs arbitrary: acc) auto
    then show ?thesis by (simp add: stored_bytes_def vec_of_def)
  qed
  finally show ?thesis by (simp add: extract_word_def)
qed

definition ecc_dec :: "nat \<Rightarrow> u8 list \<Rightarrow> u8 list" where
  "ecc_dec w buf = concat (map (stored_bytes buf) [0..<w])"

lemma fold_append_concat: "fold (\<lambda>i data. data @ f i) xs acc = acc @ concat (map f xs)"
  by (induction xs arbitrary: acc) auto

lemma ReadBuffer_eq:
  assumes "39 * unat (ma_width_byte a div 4) \<le> 8 * length buf"
  shows "Ecc32MemArea_ReadBuffer a acc buf w s = (Inr (acc @ ecc_dec (unat (ma_width_byte a div 4)) buf), s)"
proof -
  have "foldM (\<lambda>i data. res_bind (extract_word buf i) (\<lambda>bs. Inr (data @ bs))) [0..<unat (ma_width_byte a div 4)] acc =
      Inr (fold (\<lambda>i data. data @ stored_bytes buf i) [0..<unat (ma_width_byte a div 4)] acc)"
    by (rule foldM_total) (use assms in \<open>simp add: extract_word_eq\<close>)
  then show ?thesis
    by (simp add: Ecc32MemArea_ReadBuffer_def act_lift_def fold_append_concat ecc_dec_def)
qed

lemma length_ecc_dec [simp]: "length (ecc_dec w buf) = 4 * w"
  by (induction w) (simp_all add: ecc_dec_def stored_bytes_def)

lemma field_of_word:
  assumes "\<And>n. n < 39 * w \<Longrightarrow> vbit v n = ecc_field (bs (n div 39)) (cs (n div 39)) (n mod 39)"
    and "i < w" and "4 \<le> length (bs i)" and "drop_bit 7 (cs i) = 0"
  shows "stored_bytes v i = take 4 (bs i)" and "stored_check v i = cs i"
proof -
  have at: "vbit v (39 * i + j) = ecc_field (bs i) (cs i) j" if "j < 39" for j
  proof -
    have "39 * i + j < 39 * w" using that assms(2) by linarith
    moreover have "(39 * i + j) div 39 = i" "(39 * i + j) mod 39 = j" using that by simp_all
    ultimately show ?thesis using assms(1) by simp
  qed
  show "stored_bytes v i = take 4 (bs i)"
    unfolding stored_bytes_def
    by (rule vbit_ext) (use assms(3) in \<open>auto simp: vbit_vec_of at ecc_field_def vbit_take\<close>)
  have high: "\<not> bit (cs i) n" if "7 \<le> n" for n
  proof -
    have "bit (drop_bit 7 (cs i)) (n - 7) = bit (cs i) n" using that by (simp add: bit_drop_bit_eq)
    then show ?thesis by (simp add: assms(4))
  qed
  show "stored_check v i = cs i"
  proof (rule bit_word_eqI)
    fix n :: nat
    assume "n < LENGTH(8)"
    then show "bit (stored_check v i) n = bit (cs i) n"
      using at [of "32 + n"] high [of n]
      by (cases "n < 7") (auto simp: stored_check_def bit_byte_of ecc_field_def add.assoc)
  qed
qed

lemma concat_words: "concat (map (\<lambda>i. take 4 (drop (s + 4 * i) xs)) [0..<w]) = take (4 * w) (drop s xs)"
proof (induction w)
  case (Suc w)
  have "4 * Suc w = 4 * w + 4" by simp
  then show ?case using Suc by (simp only: take_add) (simp add: add.commute)
qed simp

lemma vbit_keep_fields: "39 * w \<le> 312 \<Longrightarrow> n < 39 * w \<Longrightarrow> vbit (keep (39 * w) b) n = vbit b n"
  by (simp add: vbit_keep)

lemma ecc_dec_keep: "39 * w \<le> 312 \<Longrightarrow> ecc_dec w (keep (39 * w) b) = ecc_dec w b"
proof -
  assume w: "39 * w \<le> 312"
  have "stored_bytes (keep (39 * w) b) i = stored_bytes b i" if "i < w" for i
    unfolding stored_bytes_def
    by (rule vbit_ext) (use that w in \<open>auto simp: vbit_vec_of vbit_keep_fields\<close>)
  then show ?thesis
    unfolding ecc_dec_def by (intro arg_cong [where f = concat] map_cong) auto
qed

lemma WriteBuffer_dec:
  assumes w: "39 * unat (ma_width_byte a div 4) \<le> 312" and buf: "length buf = 40"
    and data: "start + 4 * unat (ma_width_byte a div 4) \<le> length data"
  shows "\<exists>v. Ecc32MemArea_WriteBuffer a buf data start dst s = (Inr v, s) \<and> length v = 40 \<and>
    ecc_dec (unat (ma_width_byte a div 4)) v = take (4 * unat (ma_width_byte a div 4)) (drop start data)"
proof -
  let ?w = "unat (ma_width_byte a div 4)" and ?bs = "\<lambda>i. drop (start + 4 * i) data"
  have "?w * 39 \<le> 320" using w by linarith
  from WriteBuffer_fields [OF this buf data, of dst s]
  obtain v where v: "Ecc32MemArea_WriteBuffer a buf data start dst s = (Inr v, s)" "length v = 40"
    "\<And>n. n < 39 * ?w \<Longrightarrow> vbit v n = ecc_field (?bs (n div 39)) (check_of (?bs (n div 39))) (n mod 39)"
    by blast
  have "stored_bytes v i = take 4 (?bs i)" if "i < ?w" for i
    using field_of_word(1) [of ?w v ?bs "\<lambda>i. check_of (?bs i)", OF v(3) that] enc_check_of [of "?bs i"] data that
    by simp
  then have "ecc_dec ?w v = take (4 * ?w) (drop start data)"
    unfolding ecc_dec_def concat_words [symmetric] by (intro arg_cong [where f = concat] map_cong) auto
  then show ?thesis using v by blast
qed

section \<open>The contract\<close>

definition ecc_env :: "mem_area \<Rightarrow> string \<Rightarrow> nat \<Rightarrow> sim \<Rightarrow> bool" where
  "ecc_env a home depth s \<longleftrightarrow> 0 < unat (ma_width_byte a div 4) \<and> ma_width_byte a = 4 * (ma_width_byte a div 4) \<and>
     unat (ma_width_byte a) \<le> 40 \<and>
     unat (ma_num_words a) \<le> depth \<and>
     mem_present s (ma_scope a) home (39 * unat (ma_width_byte a div 4)) depth"

lemma ecc_width:
  assumes "ma_width_byte a = 4 * (ma_width_byte a div 4)" and "unat (ma_width_byte a) \<le> 40"
  shows "unat (ma_width_byte a) = 4 * unat (ma_width_byte a div 4)"
proof -
  have "unat (ma_width_byte a div 4) = unat (ma_width_byte a) div 4" by (simp add: unat_div)
  then have "unat (ma_width_byte a div 4) \<le> 10" using assms(2) by simp
  then have "unat (4 * (ma_width_byte a div 4)) = 4 * unat (ma_width_byte a div 4)"
    using unat_mult_lem [of 4 "ma_width_byte a div 4"] by simp
  then show ?thesis using assms(1) by simp
qed

interpretation ecc: mem_codec a "Ecc32MemArea_methods a" home "39 * unat (ma_width_byte a div 4)" depth
    "ecc_env a home depth" "\<lambda>w. w" "\<lambda>b w. ecc_dec (unat (ma_width_byte a div 4)) b" False
  for a home depth
proof
  fix s
  assume s: "ecc_env a home depth s"
  let ?w = "unat (ma_width_byte a div 4)"
  have width: "unat (ma_width_byte a) = 4 * ?w" and w: "0 < ?w" "39 * ?w \<le> 312"
    using s ecc_width [of a] mem_presentD(2) unfolding ecc_env_def by blast+
  then show "0 < unat (ma_width_byte a) \<and> unat (ma_width_byte a) \<le> 40" by simp
  show "resolves s (ma_scope a) home" "39 * ?w \<le> 312 \<and> depth < 2 ^ 31"
    "\<exists>m. mem_at s home = Some m \<and> mem_width m = 39 * ?w \<and> mem_depth m = depth"
    using s mem_presentD unfolding ecc_env_def by blast+
  show "ecc_env a home depth (put_word s home i x)" for i x
    using s by (simp add: ecc_env_def)
  fix w :: u32
  assume "w < ma_num_words a"
  then show "unat w < depth" using s by (simp add: ecc_env_def word_less_nat_alt)
  show "ToPhysAddr (Ecc32MemArea_methods a) w s = (Inr w, s)"
    by (simp add: Ecc32MemArea_methods_def MemArea_ToPhysAddr_def act_return_def)
  fix b :: "u8 list"
  assume b: "length b = 40"
  show "ReadBuffer (Ecc32MemArea_methods a) acc b w s = (Inr (acc @ ecc_dec ?w b), s)" for acc
    using b \<open>39 * ?w \<le> 312\<close> by (simp add: Ecc32MemArea_methods_def ReadBuffer_eq)
  show "length (ecc_dec ?w b) = unat (ma_width_byte a)" using width by simp
  fix start and data :: "u8 list"
  assume "False \<or> start + unat (ma_width_byte a) \<le> length data"
  then have data: "start + 4 * ?w \<le> length data" using width by simp
  show "\<exists>c. WriteBuffer (Ecc32MemArea_methods a) b data start w s = (Inr c, s) \<and> length c = 40 \<and>
      ecc_dec ?w (keep (39 * ?w) c) = padded (unat (ma_width_byte a)) data start"
    using WriteBuffer_dec [OF \<open>39 * ?w \<le> 312\<close> b data, of w s] data width \<open>39 * ?w \<le> 312\<close>
    by (auto simp: Ecc32MemArea_methods_def ecc_dec_keep padded_def vec_resize_def)
qed

section \<open>Integrity\<close>

lemma bit_read_word_4: "bit (read_word_4 bs) n \<longleftrightarrow> n < 32 \<and> vbit bs n"
proof -
  define q r where "q = n div 8" and "r = n mod 8"
  have n: "n = 8 * q + r" "r < 8" by (simp_all add: q_def r_def)
  have high: "\<not> bit (bs ! k) m" if "8 \<le> m" for k m
    using that bit_imp_le_length [of "bs ! k" m] by auto
  have "q = 0 \<or> q = 1 \<or> q = 2 \<or> q = 3 \<or> 4 \<le> q" by linarith
  then show ?thesis
    using n(2) unfolding n(1) vbit_split [OF n(2)]
    by (elim disjE) (auto simp: read_word_4_def bit_or_iff bit_push_bit_iff bit_ucast_iff high)
qed

lemma length_word_bytes [simp]: "length (word_bytes w) = 4"
  by (simp add: word_bytes_def)

lemma vbit_word_bytes: "n < 32 \<Longrightarrow> vbit (word_bytes w) n = bit w n"
proof -
  assume n: "n < 32"
  have mask: "(x :: u32) AND 0xff = take_bit 8 x" for x by (simp add: take_bit_eq_mask mask_numeral)
  have "n div 8 < 4" "n mod 8 < 8" "8 * (n div 8) + n mod 8 = n" using n by auto
  then show ?thesis
    by (simp add: vbit_def word_bytes_def mask bit_ucast_iff bit_take_bit_iff bit_drop_bit_eq del: upt_Suc mult_div_mod_eq)
qed

lemma read_word_bytes: "length bs = 4 \<Longrightarrow> word_bytes (read_word_4 bs) = bs"
  by (rule vbit_ext) (simp_all add: vbit_word_bytes bit_read_word_4)

lemma read_word_word_bytes: "read_word_4 (word_bytes w) = w"
  by (rule bit_word_eqI) (simp add: bit_read_word_4 vbit_word_bytes)

definition ecc_word_at :: "u8 list \<Rightarrow> nat \<Rightarrow> ecc_word" where
  "ecc_word_at buf i =
     (stored_check buf i = check_of (stored_bytes buf i), read_word_4 (stored_bytes buf i))"

lemma length_stored_bytes [simp]: "length (stored_bytes buf i) = 4"
  by (simp add: stored_bytes_def)

lemma read_integrity_step_eq:
  assumes "39 * i + 39 \<le> 8 * length buf"
  shows "ecc_read_integrity_step buf i data = Inr (data @ [ecc_word_at buf i])"
proof -
  have "fold (\<lambda>j w. w OR push_bit (8 * j) (ucast (stored_bytes buf i ! j))) [0..<4] 0 = read_word_4 (stored_bytes buf i)"
    by (simp add: upt_rec read_word_4_def or.assoc numeral_2_eq_2 numeral_3_eq_3)
  moreover have "extract_bits buf (39 * i + 32) 7 = Inr (stored_check buf i)"
    using assms by (simp add: extract_bits_eq stored_check_def)
  ultimately show ?thesis
    using assms enc_check_of [of "stored_bytes buf i"]
    by (simp add: ecc_read_integrity_step_def extract_word_eq ecc_word_at_def Let_def del: res_bind_Inr)
qed

lemma ReadBufferWithIntegrity_eq:
  assumes "39 * unat (ma_width_byte a div 4) \<le> 8 * length buf"
  shows "Ecc32MemArea_ReadBufferWithIntegrity a acc buf w s =
    (Inr (acc @ map (ecc_word_at buf) [0..<unat (ma_width_byte a div 4)]), s)"
proof -
  have "foldM (ecc_read_integrity_step buf) [0..<unat (ma_width_byte a div 4)] acc =
      Inr (fold (\<lambda>i data. data @ [ecc_word_at buf i]) [0..<unat (ma_width_byte a div 4)] acc)"
    by (rule foldM_total) (use assms in \<open>simp add: read_integrity_step_eq\<close>)
  moreover have "concat (map (\<lambda>i. [f i]) xs) = map f xs" for f :: "nat \<Rightarrow> ecc_word" and xs
    by (induction xs) auto
  ultimately show ?thesis
    by (simp add: Ecc32MemArea_ReadBufferWithIntegrity_def act_lift_def fold_append_concat)
qed

text \<open>The check bits stored for a word written as good or as bad.\<close>

definition marked_check :: "ecc_word \<Rightarrow> u8" where
  "marked_check x = (if fst x then check_of (word_bytes (snd x)) else check_of (word_bytes (snd x)) XOR 0x7f)"

lemma marked_check_7: "drop_bit 7 (marked_check x) = 0"
proof -
  have "drop_bit 7 (check_of (word_bytes (snd x))) = 0" using enc_check_of [of "word_bytes (snd x)"] by simp
  moreover have "drop_bit 7 (c XOR 0x7f) = drop_bit 7 c XOR drop_bit 7 0x7f" for c :: u8 by simp
  ultimately show ?thesis by (simp add: marked_check_def)
qed

lemma marked_check_good: "marked_check x = check_of (word_bytes (snd x)) \<longleftrightarrow> fst x"
proof -
  have "c XOR 0x7f \<noteq> c" for c :: u8
  proof
    assume "c XOR 0x7f = c"
    moreover have "c XOR (c XOR 0x7f) = 0x7f" by (simp add: xor.assoc [symmetric])
    ultimately show False by simp
  qed
  then show ?thesis by (auto simp: marked_check_def)
qed

lemma integrity_words:
  assumes w: "39 * unat (ma_width_byte a div 4) \<le> 312" and buf: "length buf = 40"
    and data: "start + unat (ma_width_byte a div 4) \<le> length data"
  shows "\<exists>v. Ecc32MemArea_WriteBufferWithIntegrity a buf data start dst s = (Inr v, s) \<and> length v = 40 \<and>
    map (ecc_word_at v) [0..<unat (ma_width_byte a div 4)] = take (unat (ma_width_byte a div 4)) (drop start data) \<and>
    ecc_dec (unat (ma_width_byte a div 4)) v =
      concat (map (\<lambda>x. word_bytes (snd x)) (take (unat (ma_width_byte a div 4)) (drop start data)))"
proof -
  let ?w = "unat (ma_width_byte a div 4)"
  let ?bs = "\<lambda>i. word_bytes (snd (data ! (start + i)))" and ?cs = "\<lambda>i. marked_check (data ! (start + i))"
  have step: "\<exists>v. ecc_write_integrity_step data start i c = Inr v \<and> length v = 40 \<and>
      (\<forall>n<320. vbit v n = (vbit c n \<or> 39 * i \<le> n \<and> n < 39 * i + 39 \<and> ecc_field (?bs i) (?cs i) (n - 39 * i)))"
    if "i < ?w" "length c = 40" for i c
  proof -
    have "start + i < length data" "39 * i + 39 \<le> 320" using that data w by linarith+
    then show ?thesis
      using enc_check_of [of "?bs i"] that(2) marked_check_7 [of "data ! (start + i)"]
        insert_word_eq [of "?cs i" 0 "?bs i" "39 * i" c]
      by (auto simp: ecc_write_integrity_step_def Let_def marked_check_def)
  qed
  have "?w * 39 \<le> 320" using w by linarith
  from pack_loop [OF this buf step]
  obtain v where v: "Ecc32MemArea_WriteBufferWithIntegrity a buf data start dst s = (Inr v, s)" "length v = 40"
    "\<And>n. n < 39 * ?w \<Longrightarrow> vbit v n = ecc_field (?bs (n div 39)) (?cs (n div 39)) (n mod 39)"
    by (auto simp: Ecc32MemArea_WriteBufferWithIntegrity_def act_lift_def)
  have fields: "stored_bytes v i = ?bs i" "stored_check v i = ?cs i" if "i < ?w" for i
    using field_of_word [of ?w v ?bs ?cs, OF v(3) that] marked_check_7 by simp_all
  have "ecc_word_at v i = data ! (start + i)" if "i < ?w" for i
    using fields [OF that] by (simp add: ecc_word_at_def marked_check_good read_word_word_bytes)
  then have words: "map (ecc_word_at v) [0..<?w] = take ?w (drop start data)"
    using data by (intro nth_equalityI) simp_all
  have "map (stored_bytes v) [0..<?w] = map (\<lambda>x. word_bytes (snd x)) (take ?w (drop start data))"
    using data fields by (intro nth_equalityI) simp_all
  then show ?thesis using v words unfolding ecc_dec_def by metis
qed

text \<open>One to three flipped bits among the 39 of a word are noticed.\<close>

definition flipped_bits :: "u8 list \<Rightarrow> u8 list \<Rightarrow> nat \<Rightarrow> nat" where
  "flipped_bits b c i = length (filter (\<lambda>j. vbit b (39 * i + j) \<noteq> vbit c (39 * i + j)) [0..<39])"

lemma flips_detected:
  assumes good: "fst (ecc_word_at b i)" and flips: "0 < flipped_bits b c i" "flipped_bits b c i \<le> 3"
  shows "\<not> fst (ecc_word_at c i)"
proof
  assume bad: "fst (ecc_word_at c i)"
  let ?E = "mask_checks masks_39_32"
  let ?x = "\<lambda>v. ucast (read_word_4 (stored_bytes v i)) :: u64"
  define e where "e = ?x b XOR ?x c"
  define d where "d = stored_check b i XOR stored_check c i"
  have check: "stored_check v i = ?E (?x v) XOR 0x2a" if "fst (ecc_word_at v i)" for v
    using that by (simp add: ecc_word_at_def check_of_def checks_secded_inv_39_32_xor checks_secded_39_32_masks)
  have "?E e = ?E (?x b) XOR ?E (?x c)" unfolding e_def by (rule xor_linear.f_xor [OF mask_checks_linear])
  then have d: "?E e = d"
    by (simp add: d_def check [OF good] check [OF bad] xor.assoc xor.left_commute xor.commute)
  have bits: "bit (?x v) n = (n < 32 \<and> vbit v (39 * i + n))" for v n
    by (auto simp: bit_ucast_iff bit_read_word_4 stored_bytes_def vbit_vec_of)
  let ?diff = "\<lambda>j. vbit b (39 * i + j) \<noteq> vbit c (39 * i + j)"
  have "weight e = length (filter ?diff [0..<32])"
  proof -
    have "[0..<64] = [0..<32] @ [32..<64 :: nat]" using upt_add_eq_append [of 0 32 32] by simp
    moreover have "filter (bit e) [0..<32] = filter ?diff [0..<32]"
      by (rule filter_cong) (auto simp: e_def bit_xor_iff bits)
    moreover have "filter (bit e) [32..<64] = []" by (simp add: filter_empty_conv e_def bit_xor_iff bits)
    ultimately show ?thesis by (simp add: weight_filter del: upt_Suc)
  qed
  moreover have "weight d = length (filter ?diff [32..<39])"
  proof -
    have "filter (bit d) [0..<8] = filter (bit d) [0..<7]"
      by (simp add: upt_rec d_def bit_xor_iff stored_check_def bit_byte_of)
    also have "\<dots> = filter (\<lambda>j. ?diff (32 + j)) [0..<7]"
      by (rule filter_cong) (auto simp: d_def bit_xor_iff stored_check_def bit_byte_of add.assoc)
    finally have "filter (bit d) [0..<8] = filter (\<lambda>j. ?diff (32 + j)) [0..<7]" .
    moreover have "[32..<39] = map (\<lambda>j. 32 + j) [0..<7 :: nat]" using map_add_upt [of 32 7] by (simp add: add.commute)
    ultimately show ?thesis by (simp add: weight_filter filter_map comp_def del: upt_Suc)
  qed
  moreover have "flipped_bits b c i = length (filter ?diff [0..<32]) + length (filter ?diff [32..<39])"
    unfolding flipped_bits_def using upt_add_eq_append [of 0 32 7] by simp
  moreover have "\<forall>n\<ge>32. \<not> bit e n" by (simp add: e_def bit_xor_iff bits)
  ultimately have "?E e \<noteq> d" using flips by (intro code_39_32.error_detected) auto
  then show False using d by simp
qed

section \<open>Access with integrity bits\<close>

text \<open>The contract of the two methods that carry integrity bits: a physical word decodes to a list of
  words with their flags, \<open>dec\<close> gives the bytes of the same words, and what is written is read back.\<close>

locale ecc_codec = mem_codec +
  fixes em :: ecc_methods and decw :: "u8 list \<Rightarrow> u32 \<Rightarrow> ecc_word list"
  assumes base: "ecc_base em = ms"
    and width_32: "env s \<Longrightarrow> unat (ma_width_byte a) = 4 * unat (ma_width_byte a div 4)"
    and readi: "env s \<Longrightarrow> length b = 40 \<Longrightarrow> w < ma_num_words a \<Longrightarrow>
      ReadBufferWithIntegrity em words b w s = (Inr (words @ decw b w), s)"
    and writei: "env s \<Longrightarrow> length b = 40 \<Longrightarrow> start + unat (ma_width_byte a div 4) \<le> length words \<Longrightarrow>
      w < ma_num_words a \<Longrightarrow> \<exists>c. WriteBufferWithIntegrity em b words start w s = (Inr c, s) \<and> length c = 40 \<and>
        decw (keep phys_width c) w = take (unat (ma_width_byte a div 4)) (drop start words)"
    and dec_words: "env s \<Longrightarrow> length b = 40 \<Longrightarrow> w < ma_num_words a \<Longrightarrow>
      dec b w = concat (map (\<lambda>x. word_bytes (snd x)) (decw b w))"
begin

definition words_at :: "sim \<Rightarrow> nat \<Rightarrow> ecc_word list" where
  "words_at s k = decw (stored s k) (word_of_nat k)"

lemma read_integrity_run:
  assumes s: "env s" and k: "unat off + i < unat (ma_num_words a)"
  shows "\<exists>b. read_integrity_word a em off i (buf, ret) s = (Inr (b, ret @ words_at s (unat off + i)), s)"
proof -
  note fetch = fetch_word [OF s k refl]
  show ?thesis
    using fetch(1,4) readi [OF s length_stored [OF s] fetch(2), of ret "unat off + i"]
    by (simp add: read_integrity_word_def base Let_def act_bind_def act_return_def words_at_def)
qed

lemma ReadWithIntegrity_run:
  assumes s: "env s" and n: "unat off + unat n \<le> unat (ma_num_words a)"
  shows "ReadWithIntegrity a em off n s = (Inr (concat (map (words_at s) [unat off..<unat off + unat n])), s)"
proof -
  obtain buf where "act_loop (read_integrity_word a em off) [0..<unat n] (minibuf_zero, []) s =
      (Inr (buf, concat (map (words_at s) [unat off..<unat off + unat n])), s)"
    using fetch_loop [of "unat n" "read_integrity_word a em off" s "words_at s" "unat off" minibuf_zero]
      read_integrity_run [OF s] n by fastforce
  moreover have "unat (ma_width_byte a) \<le> SV_MEM_WIDTH_BYTES"
    using width [OF s] by (simp add: SV_MEM_WIDTH_BYTES_40)
  ultimately show ?thesis
    using word_range [OF n] by (simp add: ReadWithIntegrity_def act_bind_def act_return_def act_assert_def)
qed

lemma write_integrity_run:
  assumes s: "env s" and k: "unat off + i < unat (ma_num_words a)" and buf: "length buf = 40"
    and start: "i * unat (ma_width_byte a div 4) + unat (ma_width_byte a div 4) \<le> length data" "length data < 2 ^ 30"
  shows "\<exists>c. length c = 40 \<and> decw (keep phys_width c) (word_of_nat (unat off + i)) =
        take (unat (ma_width_byte a div 4)) (drop (i * unat (ma_width_byte a div 4)) data) \<and>
      write_integrity_word a em off data i buf s =
      (Inr c, put_word s home (unat (pa (word_of_nat (unat off + i)))) (keep phys_width c))"
proof -
  note fetch = fetch_word [OF s k refl]
  let ?w = "off + word_of_nat i :: u32" and ?start = "i * unat (ma_width_byte a div 4)"
  have "(word_of_nat i :: u32) * (ma_width_byte a div 4) = word_of_nat ?start" by simp
  moreover have "?start < 2 ^ 32" using add_leD1 [OF start(1)] start(2) by simp
  ultimately have idx: "unat ((word_of_nat i :: u32) * (ma_width_byte a div 4)) = ?start"
    by (simp add: unsigned_of_nat take_bit_nat_eq_self del: of_nat_mult)
  obtain c where c: "WriteBufferWithIntegrity em buf data ?start ?w s = (Inr c, s)" "length c = 40"
    "decw (keep phys_width c) ?w = take (unat (ma_width_byte a div 4)) (drop ?start data)"
    using writei [OF s buf start(1) fetch(2)] by auto
  show ?thesis
    using fetch(1) fetch(5) [of c] c unfolding fetch(3) [symmetric] write_integrity_word_def Let_def idx
    by (simp add: base act_bind_def act_return_def)
qed

lemma concat_slices: "concat (map (\<lambda>k. take w (drop (k * w) xs)) [0..<n]) = take (n * w) xs"
proof (induction n)
  case (Suc n)
  have "Suc n * w = n * w + w" by simp
  then show ?case using Suc by (simp only: take_add) simp
qed simp

lemma WriteWithIntegrity_run:
  assumes s: "env s" and data: "length data < 2 ^ 30" "length data mod unat (ma_width_byte a div 4) = 0"
    and n: "n = length data div unat (ma_width_byte a div 4)" and fit: "unat off + n \<le> unat (ma_num_words a)"
  shows "\<exists>t. WriteWithIntegrity a em off data s = (Inr (), t) \<and> env t \<and> cur_scope t = cur_scope s \<and>
    (\<forall>j<unat (ma_num_words a). words_at t j =
       (if unat off \<le> j \<and> j < unat off + n
        then take (unat (ma_width_byte a div 4)) (drop ((j - unat off) * unat (ma_width_byte a div 4)) data)
        else words_at s j))"
proof -
  let ?W = "unat (ma_width_byte a div 4)"
  let ?Q = "\<lambda>i c. decw (keep phys_width c) (word_of_nat (unat off + i)) = take ?W (drop (i * ?W) data)"
  have wd: "0 < ?W" "unat (ma_width_byte a) \<le> 40" using width [OF s] width_32 [OF s] by simp_all
  have total: "n * ?W = length data" using data(2) n by (simp add: mod_0_imp_dvd)
  have turn: "\<exists>c. length c = 40 \<and> ?Q i c \<and> write_integrity_word a em off data i buf t =
      (Inr c, put_word t home (unat (pa (word_of_nat (unat off + i)))) (keep phys_width c))"
    if i: "i < n" and buf: "length buf = 40" and t: "env t" for i buf t
  proof -
    have "(i + 1) * ?W \<le> n * ?W" using i by (intro mult_le_mono1) simp
    then have "i * ?W + ?W \<le> length data" using total by simp
    moreover have "unat off + i < unat (ma_num_words a)" using i fit by simp
    ultimately show ?thesis using write_integrity_run [OF t, of off i buf data] buf data by auto
  qed
  obtain c t where loop: "act_loop (write_integrity_word a em off data) [0..<n] minibuf_zero s = (Inr c, t)"
    and t: "env t" "cur_scope t = cur_scope s" and words: "\<And>j. j < unat (ma_num_words a) \<Longrightarrow>
      if unat off \<le> j \<and> j < unat off + n then \<exists>c. ?Q (j - unat off) c \<and> stored t j = keep phys_width c
      else stored t j = stored s j"
    using store_loop [OF s fit, of ?Q "write_integrity_word a em off data", OF turn] by auto
  have "n < 2 ^ 32" using fit u32_less [of "ma_num_words a"] by simp
  then have un: "unat (word_of_nat n :: u32) = n" by (simp add: unsigned_of_nat take_bit_nat_eq_self)
  have "off + word_of_nat n \<le> ma_num_words a" using fit un by (intro word_range) simp
  moreover have "ma_width_byte a div 4 \<noteq> 0" using wd(1) by auto
  ultimately have "WriteWithIntegrity a em off data s = (Inr (), t)"
    using loop un wd data(2) unfolding WriteWithIntegrity_def n [symmetric] Let_def
    by (simp add: SV_MEM_WIDTH_BYTES_40 act_bind_def act_return_def act_assert_def)
  moreover have "words_at t j = (if unat off \<le> j \<and> j < unat off + n then take ?W (drop ((j - unat off) * ?W) data)
      else words_at s j)" if "j < unat (ma_num_words a)" for j
    using words [OF that] by (auto simp: words_at_def split: if_splits)
  ultimately show ?thesis using t by blast
qed

theorem integrity_round_trip:
  assumes s: "env s" and data: "length data < 2 ^ 30" "length data mod unat (ma_width_byte a div 4) = 0"
    and n: "n = length data div unat (ma_width_byte a div 4)" and fit: "unat off + n \<le> unat (ma_num_words a)"
  shows "\<exists>t. WriteWithIntegrity a em off data s = (Inr (), t) \<and> cur_scope t = cur_scope s \<and>
    ReadWithIntegrity a em off (word_of_nat n) t = (Inr data, t) \<and>
    MemArea_Read a ms off (word_of_nat n) t = (Inr (concat (map (\<lambda>x. word_bytes (snd x)) data)), t)"
proof -
  let ?W = "unat (ma_width_byte a div 4)"
  obtain t where t: "WriteWithIntegrity a em off data s = (Inr (), t)" "env t" "cur_scope t = cur_scope s"
    "\<And>j. j < unat (ma_num_words a) \<Longrightarrow> words_at t j =
       (if unat off \<le> j \<and> j < unat off + n then take ?W (drop ((j - unat off) * ?W) data) else words_at s j)"
    using WriteWithIntegrity_run [OF s data n fit] by auto
  have "n < 2 ^ 32" using fit u32_less [of "ma_num_words a"] by simp
  then have un: "unat (word_of_nat n :: u32) = n" by (simp add: unsigned_of_nat take_bit_nat_eq_self)
  have total: "n * ?W = length data" using data(2) n by (simp add: mod_0_imp_dvd)
  have "map (words_at t) [unat off..<unat off + n] = map (\<lambda>k. take ?W (drop (k * ?W) data)) [0..<n]"
    using t(4) fit by (intro nth_equalityI) simp_all
  then have all: "concat (map (words_at t) [unat off..<unat off + n]) = data"
    by (simp add: concat_slices total)
  have "map (logical t) [unat off..<unat off + n] =
      map (\<lambda>k. concat (map (\<lambda>x. word_bytes (snd x)) (words_at t k))) [unat off..<unat off + n]"
  proof (intro map_cong refl)
    fix k
    assume "k \<in> set [unat off..<unat off + n]"
    then show "logical t k = concat (map (\<lambda>x. word_bytes (snd x)) (words_at t k))"
      using dec_words [OF t(2) length_stored [OF t(2)] word_index(2) [of k "ma_num_words a"]] fit
      by (simp add: logical_def words_at_def)
  qed
  moreover have "concat (map (\<lambda>k. concat (map g (f k))) ks) = concat (map g (concat (map f ks)))"
    for f :: "nat \<Rightarrow> ecc_word list" and g :: "ecc_word \<Rightarrow> u8 list" and ks
    by (induction ks) simp_all
  ultimately have bytes: "concat (map (logical t) [unat off..<unat off + n]) = concat (map (\<lambda>x. word_bytes (snd x)) data)"
    using all by (simp only:)
  have "unat (ma_width_byte a) * n < 2 ^ 32" using total data(1) width_32 [OF s] by simp
  then show ?thesis
    using t(1,3) ReadWithIntegrity_run [OF t(2), of off "word_of_nat n"] read_spec [OF t(2), of off "word_of_nat n"]
      un fit all bytes by simp
qed

end

lemma stored_check_keep: "39 * w \<le> 312 \<Longrightarrow> i < w \<Longrightarrow> stored_check (keep (39 * w) b) i = stored_check b i"
  unfolding stored_check_def
  by (rule bit_word_eqI) (auto simp: bit_byte_of vbit_keep_fields)

lemma ecc_words_keep:
  assumes w: "39 * w \<le> 312"
  shows "map (ecc_word_at (keep (39 * w) b)) [0..<w] = map (ecc_word_at b) [0..<w]"
proof (intro map_cong refl)
  fix i
  assume "i \<in> set [0..<w]"
  then have i: "i < w" by simp
  have "stored_bytes (keep (39 * w) b) i = stored_bytes b i"
    unfolding stored_bytes_def
    by (rule vbit_ext) (use i w in \<open>auto simp: vbit_vec_of vbit_keep_fields\<close>)
  then show "ecc_word_at (keep (39 * w) b) i = ecc_word_at b i"
    using stored_check_keep [OF w i] by (simp add: ecc_word_at_def)
qed

lemma ecc_dec_words: "ecc_dec w b = concat (map (\<lambda>x. word_bytes (snd x)) (map (ecc_word_at b) [0..<w]))"
  by (simp add: ecc_dec_def ecc_word_at_def read_word_bytes comp_def)

interpretation ecci: ecc_codec a "Ecc32MemArea_methods a" home "39 * unat (ma_width_byte a div 4)" depth
    "ecc_env a home depth" "\<lambda>w. w" "\<lambda>b w. ecc_dec (unat (ma_width_byte a div 4)) b" False
    "Ecc32MemArea_ecc_methods a" "\<lambda>b w. map (ecc_word_at b) [0..<unat (ma_width_byte a div 4)]"
  for a home depth
proof
  show "ecc_base (Ecc32MemArea_ecc_methods a) = Ecc32MemArea_methods a" by (simp add: Ecc32MemArea_ecc_methods_def)
  fix s
  assume s: "ecc_env a home depth s"
  let ?w = "unat (ma_width_byte a div 4)"
  show width: "unat (ma_width_byte a) = 4 * ?w" using s ecc_width [of a] unfolding ecc_env_def by blast
  have w: "39 * ?w \<le> 312" using s mem_presentD(2) unfolding ecc_env_def by blast
  fix b :: "u8 list" and w :: u32
  assume b: "length b = 40" and lt: "w < ma_num_words a"
  show "ReadBufferWithIntegrity (Ecc32MemArea_ecc_methods a) words b w s =
      (Inr (words @ map (ecc_word_at b) [0..<?w]), s)" for words
    using b w by (simp add: Ecc32MemArea_ecc_methods_def ReadBufferWithIntegrity_eq)
  show "ecc_dec ?w b = concat (map (\<lambda>x. word_bytes (snd x)) (map (ecc_word_at b) [0..<?w]))" by (rule ecc_dec_words)
  fix start and data :: "ecc_word list"
  assume "start + ?w \<le> length data"
  from integrity_words [OF w b this, of w s]
  show "\<exists>c. WriteBufferWithIntegrity (Ecc32MemArea_ecc_methods a) b data start w s = (Inr c, s) \<and> length c = 40 \<and>
      map (ecc_word_at (keep (39 * ?w) c)) [0..<?w] = take ?w (drop start data)"
    unfolding ecc_words_keep [OF w] by (auto simp: Ecc32MemArea_ecc_methods_def)
qed

section \<open>Properties\<close>

text \<open>The constructor accepts a memory exactly when it has words and is one to eight 32-bit words
  wide; in particular the wrapped-around products of larger widths never pass the assertions.\<close>

theorem ecc_constructor_bounds:
  "Ecc32MemArea scope words width_32 =
    (if 0 < words \<and> 1 \<le> width_32 \<and> width_32 \<le> 8
     then Inr \<lparr>ma_scope = scope, ma_num_words = words, ma_width_byte = 4 * width_32\<rparr> else Inl Assert_failed)"
proof -
  have four: "unat (4 * width_32) = 4 * unat width_32 mod 2 ^ 32" by (simp add: unat_word_ariths)
  have prod: "unat (39 * width_32) = 39 * unat width_32 mod 2 ^ 32" by (simp add: unat_word_ariths)
  have less: "unat width_32 < 2 ^ 32" by (rule u32_less)
  have iff: "unat (4 * width_32) \<le> 40 \<and> width_32 < 4 * width_32 \<and> unat (39 * width_32) \<le> 312 \<longleftrightarrow>
      1 \<le> unat width_32 \<and> unat width_32 \<le> 8"
  proof
    assume a: "unat (4 * width_32) \<le> 40 \<and> width_32 < 4 * width_32 \<and> unat (39 * width_32) \<le> 312"
    then have "unat width_32 < unat (4 * width_32)" by (simp add: word_less_nat_alt)
    then have "0 < unat width_32" "unat width_32 \<le> 40" using a four less by (simp_all add: gr0I)
    then show "1 \<le> unat width_32 \<and> unat width_32 \<le> 8" using a prod by simp
  next
    assume a: "1 \<le> unat width_32 \<and> unat width_32 \<le> 8"
    then show "unat (4 * width_32) \<le> 40 \<and> width_32 < 4 * width_32 \<and> unat (39 * width_32) \<le> 312"
      using four prod by (simp add: word_less_nat_alt)
  qed
  show ?thesis
    using iff by (auto simp: Ecc32MemArea_def MemArea_def SV_MEM_WIDTH_BYTES_40 SV_MEM_WIDTH_BITS_def Let_def
      word_le_nat_alt simp del: word_not_simps)
qed

text \<open>C24: Bytes written to a memory with ECC bits are read back, and every range of words outside the
  written one reads as before.  The data has to be whole memory words: the code reads past the end of
  shorter data.\<close>

theorem ecc_read_back:
  assumes "ecc_env a home depth s" and "length data < 2 ^ 32 - 40" and "length data mod unat (ma_width_byte a) = 0"
    and "n = (length data + unat (ma_width_byte a) - 1) div unat (ma_width_byte a)"
    and "unat off + n \<le> unat (ma_num_words a)"
  shows "\<exists>t. MemArea_Write a (Ecc32MemArea_methods a) off data s = (Inr (), t) \<and> cur_scope t = cur_scope s \<and>
    MemArea_Read a (Ecc32MemArea_methods a) off (word_of_nat n) t = (Inr data, t) \<and>
    (\<forall>o' k. unat o' + unat k \<le> unat (ma_num_words a) \<and> unat (ma_width_byte a) * unat k < 2 ^ 32 \<and>
       (unat o' + unat k \<le> unat off \<or> unat off + n \<le> unat o') \<longrightarrow>
       fst (MemArea_Read a (Ecc32MemArea_methods a) o' k t) = fst (MemArea_Read a (Ecc32MemArea_methods a) o' k s))"
proof -
  have "0 < unat (ma_width_byte a)" using ecc.width [OF assms(1)] by blast
  then have "n * unat (ma_width_byte a) = length data"
    unfolding assms(4) using assms(3) by (rule words_exact)
  then have "vec_resize data (n * unat (ma_width_byte a)) = data" by (simp add: vec_resize_def)
  then show ?thesis using ecc.write_read [OF assms(1,2) disjI2 [OF assms(3)] assms(4,5)] by (simp only:)
qed

lemma ecc_env_one_memory:
  "ecc_env \<lparr>ma_scope = ''TOP.m'', ma_num_words = 8, ma_width_byte = 8\<rparr> ''TOP.m'' 8 (one_memory ''TOP.m'' 78 8 (replicate 40 0))"
  by (simp add: ecc_env_def mem_present_one_memory)

theorem ecc_read_back_witness:
  "\<exists>t. MemArea_Write \<lparr>ma_scope = ''TOP.m'', ma_num_words = 8, ma_width_byte = 8\<rparr>
      (Ecc32MemArea_methods \<lparr>ma_scope = ''TOP.m'', ma_num_words = 8, ma_width_byte = 8\<rparr>) 3
      [1, 2, 3, 4, 5, 6, 7, 8] (one_memory ''TOP.m'' 78 8 (replicate 40 0)) = (Inr (), t) \<and>
    MemArea_Read \<lparr>ma_scope = ''TOP.m'', ma_num_words = 8, ma_width_byte = 8\<rparr>
      (Ecc32MemArea_methods \<lparr>ma_scope = ''TOP.m'', ma_num_words = 8, ma_width_byte = 8\<rparr>) 3 1 t =
      (Inr [1, 2, 3, 4, 5, 6, 7, 8], t)"
proof -
  let ?a = "\<lparr>ma_scope = ''TOP.m'', ma_num_words = 8, ma_width_byte = 8\<rparr>" and ?d = "[1, 2, 3, 4, 5, 6, 7, 8 :: u8]"
  have prem: "length ?d < 2 ^ 32 - 40" "length ?d mod unat (ma_width_byte ?a) = 0"
    "1 = (length ?d + unat (ma_width_byte ?a) - 1) div unat (ma_width_byte ?a)"
    "unat (3 :: u32) + 1 \<le> unat (ma_num_words ?a)" by simp_all
  from ecc_read_back [OF ecc_env_one_memory prem]
  obtain t where "MemArea_Write ?a (Ecc32MemArea_methods ?a) 3 ?d (one_memory ''TOP.m'' 78 8 (replicate 40 0)) = (Inr (), t)"
    "MemArea_Read ?a (Ecc32MemArea_methods ?a) 3 (word_of_nat 1) t = (Inr ?d, t)" by blast
  then show ?thesis by (intro exI [of _ t]) simp
qed

text \<open>C26: Words written with flags saying whether their check bits are to be valid are read back with
  the same flags, and the ordinary read gives their bytes.\<close>

theorem ecc_integrity_round_trip:
  assumes "ecc_env a home depth s" and "length words < 2 ^ 30" and "length words mod unat (ma_width_byte a div 4) = 0"
    and "n = length words div unat (ma_width_byte a div 4)" and "unat off + n \<le> unat (ma_num_words a)"
  shows "\<exists>t. WriteWithIntegrity a (Ecc32MemArea_ecc_methods a) off words s = (Inr (), t) \<and> cur_scope t = cur_scope s \<and>
    ReadWithIntegrity a (Ecc32MemArea_ecc_methods a) off (word_of_nat n) t = (Inr words, t) \<and>
    MemArea_Read a (Ecc32MemArea_methods a) off (word_of_nat n) t =
      (Inr (concat (map (\<lambda>x. word_bytes (snd x)) words)), t)"
  using assms by (rule ecci.integrity_round_trip)

theorem ecc_integrity_round_trip_witness:
  "\<exists>t. WriteWithIntegrity \<lparr>ma_scope = ''TOP.m'', ma_num_words = 8, ma_width_byte = 8\<rparr>
      (Ecc32MemArea_ecc_methods \<lparr>ma_scope = ''TOP.m'', ma_num_words = 8, ma_width_byte = 8\<rparr>) 3
      [(True, 5), (False, 6)] (one_memory ''TOP.m'' 78 8 (replicate 40 0)) = (Inr (), t) \<and>
    ReadWithIntegrity \<lparr>ma_scope = ''TOP.m'', ma_num_words = 8, ma_width_byte = 8\<rparr>
      (Ecc32MemArea_ecc_methods \<lparr>ma_scope = ''TOP.m'', ma_num_words = 8, ma_width_byte = 8\<rparr>) 3 1 t =
      (Inr [(True, 5), (False, 6)], t)"
proof -
  let ?a = "\<lparr>ma_scope = ''TOP.m'', ma_num_words = 8, ma_width_byte = 8\<rparr>"
  let ?d = "[(True, 5), (False, 6)] :: ecc_word list"
  have prem: "length ?d < 2 ^ 30" "length ?d mod unat (ma_width_byte ?a div 4) = 0"
    "1 = length ?d div unat (ma_width_byte ?a div 4)" "unat (3 :: u32) + 1 \<le> unat (ma_num_words ?a)" by simp_all
  from ecc_integrity_round_trip [OF ecc_env_one_memory prem]
  obtain t where "WriteWithIntegrity ?a (Ecc32MemArea_ecc_methods ?a) 3 ?d (one_memory ''TOP.m'' 78 8 (replicate 40 0)) = (Inr (), t)"
    "ReadWithIntegrity ?a (Ecc32MemArea_ecc_methods ?a) 3 (word_of_nat 1) t = (Inr ?d, t)" by blast
  then show ?thesis by (intro exI [of _ t]) simp
qed

lemma read_one_integrity:
  assumes u: "ecc_env a home depth u" and m: "mem_at u home = Some m" and k: "k < unat (ma_num_words a)"
  shows "ReadWithIntegrity a (Ecc32MemArea_ecc_methods a) (word_of_nat k) 1 u =
    (Inr (map (ecc_word_at (mem_word m k)) [0..<unat (ma_width_byte a div 4)]), u)"
proof -
  have w: "39 * unat (ma_width_byte a div 4) \<le> 312" using u mem_presentD(2) unfolding ecc_env_def by blast
  note at = ecc.word_index [OF k]
  have "ecc.stored home a u k = keep (39 * unat (ma_width_byte a div 4)) (mem_word m k)"
    using m at(1) by (simp add: ecc.stored_def)
  then show ?thesis
    using ecci.ReadWithIntegrity_run [OF u, of "word_of_nat k" 1] at(1) k ecc_words_keep [OF w]
    by (simp add: ecci.words_at_def)
qed

text \<open>C16: When the design changes one to three of the 39 bits that hold a 32-bit word whose check bits
  were right, reading with integrity afterwards reports that word as bad.\<close>

theorem ecc_corruption_reported:
  assumes env: "ecc_env a home depth s" and m: "mem_at s home = Some m" and k: "k < unat (ma_num_words a)"
    and i: "i < unat (ma_width_byte a div 4)"
    and good: "ReadWithIntegrity a (Ecc32MemArea_ecc_methods a) (word_of_nat k) 1 s = (Inr ws, s)" "fst (ws ! i)"
    and flips: "0 < flipped_bits (mem_word m k) c i" "flipped_bits (mem_word m k) c i \<le> 3"
  shows "\<exists>ws'. ReadWithIntegrity a (Ecc32MemArea_ecc_methods a) (word_of_nat k) 1 (put_word s home k c) =
      (Inr ws', put_word s home k c) \<and> \<not> fst (ws' ! i)"
proof -
  let ?w = "unat (ma_width_byte a div 4)" and ?t = "put_word s home k c"
  have t: "ecc_env a home depth ?t" using env by (simp add: ecc_env_def)
  have "ws = map (ecc_word_at (mem_word m k)) [0..<?w]"
    using good(1) read_one_integrity [OF env m k] by simp
  then have "fst (ecc_word_at (mem_word m k) i)" using good(2) i by simp
  then have "\<not> fst (ecc_word_at c i)" by (rule flips_detected [OF _ flips])
  moreover have "mem_at ?t home = Some (m\<lparr>mem_word := (mem_word m)(k := c)\<rparr>)" using m by (simp add: put_word_def)
  ultimately show ?thesis using read_one_integrity [OF t _ k] i by simp
qed

theorem ecc_corruption_reported_witness:
  "\<exists>ws'. ReadWithIntegrity \<lparr>ma_scope = ''TOP.m'', ma_num_words = 8, ma_width_byte = 4\<rparr>
      (Ecc32MemArea_ecc_methods \<lparr>ma_scope = ''TOP.m'', ma_num_words = 8, ma_width_byte = 4\<rparr>) 2 1
      (put_word (one_memory ''TOP.m'' 39 8 (0 # 0 # 0 # 0 # 0x2a # replicate 35 0)) ''TOP.m'' 2
        (0 # 1 # 0 # 0 # 0x2b # replicate 35 0)) =
      (Inr ws', put_word (one_memory ''TOP.m'' 39 8 (0 # 0 # 0 # 0 # 0x2a # replicate 35 0)) ''TOP.m'' 2
        (0 # 1 # 0 # 0 # 0x2b # replicate 35 0)) \<and> \<not> fst (ws' ! 0)"
proof -
  let ?a = "\<lparr>ma_scope = ''TOP.m'', ma_num_words = 8, ma_width_byte = 4\<rparr>"
  let ?b = "0 # 0 # 0 # 0 # 0x2a # replicate 35 0 :: u8 list" and ?c = "0 # 1 # 0 # 0 # 0x2b # replicate 35 0 :: u8 list"
  let ?s = "one_memory ''TOP.m'' 39 8 ?b"
  have env: "ecc_env ?a ''TOP.m'' 8 ?s" by (simp add: ecc_env_def mem_present_one_memory)
  have m: "mem_at ?s ''TOP.m'' = Some \<lparr>mem_width = 39, mem_depth = 8, mem_word = (\<lambda>_. ?b)\<rparr>"
    by (simp add: one_memory_def)
  have k: "2 < unat (ma_num_words ?a)" and i: "0 < unat (ma_width_byte ?a div 4)" by simp_all
  have good: "fst (ecc_word_at ?b 0)"
    by (simp add: ecc_word_at_def stored_bytes_def stored_check_def vec_of_def byte_of_def vbit_def check_of_def
      read_word_4_def checks_secded_inv_39_32_xor checks_secded_39_32_masks xor_linear.f_0 [OF mask_checks_linear]
      upt_rec nth_Cons')
  have flips: "flipped_bits ?b ?c 0 = 2"
    by (simp add: flipped_bits_def vbit_def upt_rec nth_Cons')
  have read: "ReadWithIntegrity ?a (Ecc32MemArea_ecc_methods ?a) (word_of_nat 2) 1 ?s =
      (Inr (map (ecc_word_at ?b) [0..<unat (ma_width_byte ?a div 4)]), ?s)"
    using read_one_integrity [OF env m k] by simp
  have "fst (map (ecc_word_at ?b) [0..<unat (ma_width_byte ?a div 4)] ! 0)" using good i by simp
  from ecc_corruption_reported [OF env m k i read this, of ?c] flips show ?thesis by simp
qed

end
