(* ===== verification/Scrambled_Ecc32_Mem_Area.thy ===== *)
theory Scrambled_Ecc32_Mem_Area
  imports Ecc32_Mem_Area Scramble
begin

text \<open>
  \<open>scrambled_ecc32_mem_area.cc\<close>: class \<open>ScrambledEcc32MemArea\<close>, a memory whose words are encrypted and
  whose addresses are permuted.  \<open>GetScrambleKey\<close> and \<open>GetScrambleNonce\<close> return what local arrays hold that
  nothing has written.  The state supplies those contents anew for every call, and nothing in the program
  makes two calls find the same.  The theory shows that the class keeps the contract of its base class
  when they do, which is a hypothesis of every theorem that needs it, and what a word reads as when they
  do not.
\<close>

section \<open>Addresses and buffers as byte vectors\<close>

definition kScrMaxNonceWidth :: nat where
  "kScrMaxNonceWidth = 320"

definition kScrMaxNonceWidthByte :: nat where
  "kScrMaxNonceWidthByte = (kScrMaxNonceWidth + 7) div 8"

definition AddrIntToBytes :: "u32 \<Rightarrow> nat \<Rightarrow> u8 list" where
  "AddrIntToBytes addr addr_width =
     (let addr_width_bytes = bytes_for addr_width
      in snd (fold (\<lambda>i (addr, addr_bytes). (drop_bit 8 addr, addr_bytes[i := ucast (addr AND 0xff)]))
           [0..<addr_width_bytes] (addr, replicate addr_width_bytes 0)))"

definition AddrBytesToInt :: "u8 list \<Rightarrow> u32 res" where
  "AddrBytesToInt addr =
     (if \<not> length addr \<le> 4 then Inl Assert_failed
      else Inr (fst (fold (\<lambda>b (addr_out, cur_shift). (addr_out OR push_bit cur_shift (ucast b), cur_shift + 8))
             addr (0, 0))))"

definition ByteVecFromSV :: "u32 list \<Rightarrow> nat \<Rightarrow> u8 list res" where
  "ByteVecFromSV sv_val bytes =
     res_bind (foldM (\<lambda>i (shift, vec).
         if i div 4 < length sv_val then
           let vec = vec[i := ucast (drop_bit shift (sv_val ! (i div 4)) AND 0xff)];
               shift = shift + 8
           in Inr (if shift = 32 then 0 else shift, vec)
         else Inl Undefined) [0..<bytes] (0, replicate bytes 0))
       (\<lambda>(_, vec). Inr vec)"

fun vbits_loop :: "nat \<Rightarrow> nat \<Rightarrow> nat" where
  "vbits_loop 0 width = width"
| "vbits_loop (Suc n) width = vbits_loop (Suc n div 2) (width + 1)"

definition vbits :: "u32 \<Rightarrow> nat res" where
  "vbits items =
     (if \<not> 0 < items then Inl Assert_failed
      else if items = 1 then Inr 1
      else Inr (vbits_loop (unat (items - 1)) 0))"

section \<open>The class\<close>

record scr_area =
  scr_base :: mem_area
  scr_scope :: string
  addr_width :: nat
  repeat_keystream :: bool

definition mem_subscope :: string where
  "mem_subscope = ''u_prim_ram_1p_adv.u_mem.gen_generic.u_impl_generic''"

definition ScrambledEcc32MemArea :: "string \<Rightarrow> u32 \<Rightarrow> u32 \<Rightarrow> bool \<Rightarrow> scr_area res" where
  "ScrambledEcc32MemArea scope words width_32 repeat_ks =
     res_bind (join_sv_scopes scope mem_subscope) (\<lambda>mem_scope.
     res_bind (Ecc32MemArea mem_scope words width_32) (\<lambda>base.
     res_bind (vbits words) (\<lambda>width.
     Inr \<lparr>scr_base = base, scr_scope = scope, addr_width = width, repeat_keystream = repeat_ks\<rparr>)))"

definition GetPhysWidth :: "scr_area \<Rightarrow> u32" where
  "GetPhysWidth a = (GetWidthByte (scr_base a) div 4) * 39"

definition GetPhysWidthByte :: "scr_area \<Rightarrow> u32" where
  "GetPhysWidthByte a = (GetPhysWidth a + 7) div 8"

definition GetPrinceReplications :: "scr_area \<Rightarrow> u32" where
  "GetPrinceReplications a = (if repeat_keystream a then 1 else (GetPhysWidthByte a + 7) div 8)"

definition GetNonceWidth :: "scr_area \<Rightarrow> u32" where
  "GetNonceWidth a = GetPrinceReplications a * 64"

definition GetNonceWidthByte :: "scr_area \<Rightarrow> u32" where
  "GetNonceWidthByte a = GetPrinceReplications a * 8"

text \<open>The declarations of the two arrays.  Each takes the contents of the next call.\<close>

definition key_minibuf_array :: "u32 list action" where
  "key_minibuf_array s =
     (Inr (map (key_minibuf s 0) [0..<(kPrinceWidthByte * 2 + 3) div 4]), s\<lparr>key_minibuf := \<lambda>i. key_minibuf s (Suc i)\<rparr>)"

definition nonce_minibuf_array :: "u32 list action" where
  "nonce_minibuf_array s =
     (Inr (map (nonce_minibuf s 0) [0..<(kScrMaxNonceWidthByte + 3) div 4]), s\<lparr>nonce_minibuf := \<lambda>i. nonce_minibuf s (Suc i)\<rparr>)"

definition GetScrambleKey :: "scr_area \<Rightarrow> u8 list action" where
  "GetScrambleKey a =
     SVScoped (scr_scope a)
       (act_bind key_minibuf_array (\<lambda>buf. act_lift (ByteVecFromSV buf (kPrinceWidthByte * 2))))"

definition GetScrambleNonce :: "scr_area \<Rightarrow> u8 list action" where
  "GetScrambleNonce a =
     act_bind (act_assert (unat (GetNonceWidthByte a) \<le> kScrMaxNonceWidthByte)) (\<lambda>_.
     SVScoped (scr_scope a)
       (act_bind nonce_minibuf_array (\<lambda>buf. act_lift (ByteVecFromSV buf (unat (GetNonceWidthByte a))))))"

definition ScrambleBuffer :: "scr_area \<Rightarrow> u8 list \<Rightarrow> u32 \<Rightarrow> u8 list action" where
  "ScrambleBuffer a buf dst_word =
     (if length buf < unat (GetPhysWidthByte a) then act_fail Undefined
      else
        let scramble_buf = take (unat (GetPhysWidthByte a)) buf in
        act_bind (GetScrambleNonce a) (\<lambda>nonce.
        act_bind (GetScrambleKey a) (\<lambda>key.
        act_bind (act_lift (scramble_encrypt_data scramble_buf (unat (GetPhysWidth a)) 39
          (AddrIntToBytes dst_word (addr_width a)) (addr_width a) nonce key (repeat_keystream a) False))
          (\<lambda>scramble_buf.
        act_lift (vec_copy buf 0 scramble_buf 0 (length scramble_buf))))))"

definition Scrambled_WriteBuffer :: "scr_area \<Rightarrow> u8 list \<Rightarrow> u8 list \<Rightarrow> nat \<Rightarrow> u32 \<Rightarrow> u8 list action" where
  "Scrambled_WriteBuffer a buf data start_idx dst_word =
     act_bind (Ecc32MemArea_WriteBuffer (scr_base a) buf data start_idx dst_word) (\<lambda>buf.
     ScrambleBuffer a buf dst_word)"

definition Scrambled_WriteBufferWithIntegrity ::
  "scr_area \<Rightarrow> u8 list \<Rightarrow> ecc_word list \<Rightarrow> nat \<Rightarrow> u32 \<Rightarrow> u8 list action" where
  "Scrambled_WriteBufferWithIntegrity a buf data start_idx dst_word =
     act_bind (Ecc32MemArea_WriteBufferWithIntegrity (scr_base a) buf data start_idx dst_word) (\<lambda>buf.
     ScrambleBuffer a buf dst_word)"

definition ReadUnscrambled :: "scr_area \<Rightarrow> u8 list \<Rightarrow> u32 \<Rightarrow> u8 list action" where
  "ReadUnscrambled a buf src_word =
     (if length buf < unat (GetPhysWidthByte a) then act_fail Undefined
      else
        let scrambled_data = take (unat (GetPhysWidthByte a)) buf in
        act_bind (GetScrambleNonce a) (\<lambda>nonce.
        act_bind (GetScrambleKey a) (\<lambda>key.
        act_lift (scramble_decrypt_data scrambled_data (unat (GetPhysWidth a)) 39
          (AddrIntToBytes src_word (addr_width a)) (addr_width a) nonce key (repeat_keystream a) False))))"

definition Scrambled_ReadBuffer :: "scr_area \<Rightarrow> u8 list \<Rightarrow> u8 list \<Rightarrow> u32 \<Rightarrow> u8 list action" where
  "Scrambled_ReadBuffer a data buf src_word =
     act_bind (ReadUnscrambled a buf src_word) (\<lambda>unscrambled_data.
     Ecc32MemArea_ReadBuffer (scr_base a) data unscrambled_data src_word)"

definition Scrambled_ReadBufferWithIntegrity ::
  "scr_area \<Rightarrow> ecc_word list \<Rightarrow> u8 list \<Rightarrow> u32 \<Rightarrow> ecc_word list action" where
  "Scrambled_ReadBufferWithIntegrity a data buf src_word =
     act_bind (ReadUnscrambled a buf src_word) (\<lambda>unscrambled_data.
     Ecc32MemArea_ReadBufferWithIntegrity (scr_base a) data unscrambled_data src_word)"

definition Scrambled_ToPhysAddr :: "scr_area \<Rightarrow> u32 \<Rightarrow> u32 action" where
  "Scrambled_ToPhysAddr a logical_addr =
     act_bind (GetScrambleNonce a) (\<lambda>nonce.
     act_lift (res_bind (scramble_addr (AddrIntToBytes logical_addr (addr_width a)) (addr_width a) nonce
       (unat (GetNonceWidth a))) AddrBytesToInt))"

definition Scrambled_methods :: "scr_area \<Rightarrow> mem_methods" where
  "Scrambled_methods a = \<lparr>ToPhysAddr = Scrambled_ToPhysAddr a,
     WriteBuffer = Scrambled_WriteBuffer a, ReadBuffer = Scrambled_ReadBuffer a\<rparr>"

definition Scrambled_ecc_methods :: "scr_area \<Rightarrow> ecc_methods" where
  "Scrambled_ecc_methods a = \<lparr>ecc_base = Scrambled_methods a,
     ReadBufferWithIntegrity = Scrambled_ReadBufferWithIntegrity a,
     WriteBufferWithIntegrity = Scrambled_WriteBufferWithIntegrity a\<rparr>"

section \<open>The conversions\<close>

text \<open>What \<open>ByteVecFromSV\<close> returns when the array is long enough.\<close>

definition sv_bytes :: "u32 list \<Rightarrow> nat \<Rightarrow> u8 list" where
  "sv_bytes sv n = map (\<lambda>i. ucast (drop_bit (8 * (i mod 4)) (sv ! (i div 4)) AND 0xff)) [0..<n]"

lemma length_sv_bytes [simp]: "length (sv_bytes sv n) = n"
  by (simp add: sv_bytes_def)

lemma fill_next: "i < n \<Longrightarrow> (xs @ replicate (n - i) 0)[i := v] = (xs @ [v]) @ replicate (n - Suc i) (0 :: u8)"
  if "length xs = i" for i n
proof -
  assume "i < n"
  then obtain k where "n - i = Suc k" "n - Suc i = k" by (metis Suc_diff_Suc)
  then show ?thesis using that by (simp add: list_update_append)
qed

lemma ByteVecFromSV_eq:
  assumes "n \<le> 4 * length sv"
  shows "ByteVecFromSV sv n = Inr (sv_bytes sv n)"
proof -
  have "\<exists>r. foldM (\<lambda>i (shift, vec).
         if i div 4 < length sv then
           let vec = vec[i := ucast (drop_bit shift (sv ! (i div 4)) AND 0xff)];
               shift = shift + 8
           in Inr (if shift = 32 then 0 else shift, vec)
         else Inl Undefined) [0..<n] (0, replicate n 0) = Inr r \<and> snd r = sv_bytes sv n @ replicate (n - n) 0 \<and> fst r = 8 * (n mod 4)"
  proof (rule foldM_upt_rule [where P = "\<lambda>i r. snd r = sv_bytes sv i @ replicate (n - i) 0 \<and> fst r = 8 * (i mod 4)"])
    fix i and r :: "nat \<times> u8 list"
    assume i: "0 \<le> i" "i < n" and r: "snd r = sv_bytes sv i @ replicate (n - i) 0 \<and> fst r = 8 * (i mod 4)"
    obtain shift vec where p: "r = (shift, vec)" by (cases r)
    have "i div 4 < length sv" using i assms by (simp add: less_mult_imp_div_less)
    moreover have "(if 8 * (i mod 4) + 8 = 32 then 0 else 8 * (i mod 4) + 8) = 8 * (Suc i mod 4)"
      by (simp add: mod_Suc)
    moreover have "sv_bytes sv (Suc i) = sv_bytes sv i @ [ucast (drop_bit (8 * (i mod 4)) (sv ! (i div 4)) AND 0xff)]"
      by (simp add: sv_bytes_def)
    ultimately show "\<exists>r'. (case r of (shift, vec) \<Rightarrow> if i div 4 < length sv then
           let vec = vec[i := ucast (drop_bit shift (sv ! (i div 4)) AND 0xff)]; shift = shift + 8
           in Inr (if shift = 32 then 0 else shift, vec) else Inl Undefined) = Inr r' \<and>
        snd r' = sv_bytes sv (Suc i) @ replicate (n - Suc i) 0 \<and> fst r' = 8 * (Suc i mod 4)"
      using r fill_next [OF length_sv_bytes i(2)] by (simp add: p Let_def)
  qed (simp_all add: sv_bytes_def)
  then show ?thesis by (auto simp: ByteVecFromSV_def)
qed

lemma AddrIntToBytes_eq:
  assumes "aw \<le> 32"
  shows "AddrIntToBytes addr aw = vec_of (bytes_for aw) (bit addr)"
proof -
  let ?n = "bytes_for aw"
  have "fold (\<lambda>i (addr, addr_bytes). (drop_bit 8 addr, addr_bytes[i := ucast (addr AND 0xff)])) [0..<i] (addr, replicate ?n 0) =
      (drop_bit (8 * i) addr, vec_of i (bit addr) @ replicate (?n - i) 0)" if "i \<le> ?n" for i
    using that
  proof (induction i)
    case (Suc i)
    have byte: "ucast (drop_bit (8 * i) addr AND 0xff) = byte_of (\<lambda>j. bit addr (8 * i + j))"
    proof (rule bit_word_eqI)
      fix n :: nat assume "n < LENGTH(8)"
      then have n: "n < 8" by simp
      have "(0xff :: u32) = mask 8" by (simp add: mask_eq_exp_minus_1)
      then have "bit (0xff :: u32) n" using n by (simp only: bit_mask_iff) simp
      then show "bit (ucast (drop_bit (8 * i) addr AND 0xff) :: u8) n = bit (byte_of (\<lambda>j. bit addr (8 * i + j))) n"
        using n by (simp add: bit_ucast_iff bit_and_iff bit_drop_bit_eq bit_byte_of)
    qed
    have "vec_of (Suc i) (bit addr) = vec_of i (bit addr) @ [byte_of (\<lambda>j. bit addr (8 * i + j))]"
      by (simp add: vec_of_def)
    then show ?case
      using Suc byte fill_next [OF length_vec_of, of i ?n] by (simp add: add.commute)
  qed (simp add: vec_of_def)
  from this [of ?n] show ?thesis by (simp add: AddrIntToBytes_def Let_def)
qed

lemma bytes_for_32: "aw \<le> 32 \<Longrightarrow> bytes_for aw = (aw + 7) div 8" "aw \<le> 32 \<Longrightarrow> bytes_for aw \<le> 4"
  by (simp_all add: bytes_for_def wrap32_def)

text \<open>An address below \<open>2 ^ aw\<close> becomes a vector of that width.\<close>

lemma AddrIntToBytes_clean:
  assumes aw: "aw \<le> 32" and addr: "unat addr < 2 ^ aw"
  shows "clean aw (AddrIntToBytes addr aw)" and "n < aw \<Longrightarrow> vbit (AddrIntToBytes addr aw) n = bit addr n"
proof -
  have "take_bit aw (unat addr) = unat addr" using addr by (simp add: take_bit_nat_eq_self)
  then have high: "\<not> bit addr n" if "aw \<le> n" for n
  proof -
    have "bit (unat addr) n \<longleftrightarrow> n < aw \<and> bit (unat addr) n"
      using \<open>take_bit aw (unat addr) = unat addr\<close> by (metis bit_take_bit_iff)
    then show ?thesis using that bit_unsigned_iff [of addr n, where 'a = nat] by simp
  qed
  show "clean aw (AddrIntToBytes addr aw)"
    by (rule cleanI) (use aw high in \<open>simp_all add: AddrIntToBytes_eq vbit_vec_of\<close>)
  show "vbit (AddrIntToBytes addr aw) n = bit addr n" if "n < aw"
    using that aw bytes_for_32(1) [OF aw] by (simp add: AddrIntToBytes_eq vbit_vec_of)
qed

lemma AddrBytesToInt_bits:
  assumes "length v \<le> 4"
  shows "\<exists>x. AddrBytesToInt v = Inr x \<and> (\<forall>n. bit x n \<longleftrightarrow> n < 8 * length v \<and> vbit v n)"
proof -
  have "fold (\<lambda>b (addr_out, cur_shift). (addr_out OR push_bit cur_shift (ucast b), cur_shift + 8)) bs (x, 8 * length vs) =
      (y, 8 * length vs + 8 * length bs) \<Longrightarrow> length vs + length bs \<le> 4 \<Longrightarrow>
      \<forall>n. bit x n \<longleftrightarrow> n < 8 * length vs \<and> vbit vs n \<Longrightarrow>
      \<forall>n. bit y n \<longleftrightarrow> n < 8 * length (vs @ bs) \<and> vbit (vs @ bs) n" for bs vs and x y :: u32
  proof (induction bs arbitrary: x vs)
    case (Cons b bs)
    have "bit (x OR push_bit (8 * length vs) (ucast b)) n \<longleftrightarrow> n < 8 * length (vs @ [b]) \<and> vbit (vs @ [b]) n" for n
    proof (cases "n < 8 * length vs")
      case True
      then show ?thesis using Cons.prems(3) by (simp add: bit_or_iff bit_push_bit_iff vbit_append)
    next
      case False
      then obtain m where n: "n = 8 * length vs + m" by (metis le_add_diff_inverse linorder_not_less)
      have len: "8 * length vs + 8 \<le> 32" using Cons.prems(2) by simp
      have "bit (push_bit (8 * length vs) (ucast b) :: u32) n \<longleftrightarrow> m < 8 \<and> bit b m"
        using len bit_imp_le_length [of b m] by (auto simp: n bit_push_bit_iff bit_ucast_iff)
      moreover have "vbit (vs @ [b]) n \<longleftrightarrow> bit b m" if "m < 8"
        using that vbit_append [of n vs "[b]"] by (simp add: n vbit_def)
      ultimately show ?thesis using False Cons.prems(3) by (auto simp: bit_or_iff n)
    qed
    then have "\<forall>n. bit y n \<longleftrightarrow> n < 8 * length ((vs @ [b]) @ bs) \<and> vbit ((vs @ [b]) @ bs) n"
      using Cons.prems by (intro Cons.IH [of "x OR push_bit (8 * length vs) (ucast b)" "vs @ [b]"]) (simp_all add: algebra_simps)
    then show ?case by simp
  qed simp
  note bits = this
  have shift: "snd (fold (\<lambda>b (addr_out, cur_shift). (addr_out OR push_bit cur_shift (ucast b), cur_shift + 8)) bs (x :: u32, k)) =
      k + 8 * length bs" for bs :: "u8 list" and x k
    by (induction bs arbitrary: x k) simp_all
  show ?thesis
    using bits [of v 0 "[]" "fst (fold (\<lambda>b (addr_out, cur_shift). (addr_out OR push_bit cur_shift (ucast b), cur_shift + 8)) v (0, 0))"]
      shift [of v 0 0] assms
    by (simp add: AddrBytesToInt_def prod_eq_iff)
qed

lemma vbits_loop_bound: "width \<le> vbits_loop n width" "n < 2 ^ (vbits_loop n width - width)"
  "n < 2 ^ k \<Longrightarrow> vbits_loop n width \<le> width + k"
proof -
  have "width \<le> vbits_loop n width \<and> n < 2 ^ (vbits_loop n width - width) \<and> (\<forall>k. n < 2 ^ k \<longrightarrow> vbits_loop n width \<le> width + k)"
  proof (induction n width rule: vbits_loop.induct)
    case (2 n width)
    let ?r = "vbits_loop (Suc n div 2) (width + 1)"
    have "width + 1 \<le> ?r" using 2 by blast
    then have "?r - width = Suc (?r - (width + 1))" "width \<le> ?r" by linarith+
    then have "Suc n < 2 ^ (?r - width)" using 2 by (simp add: div_less_iff_less_mult)
    moreover have "?r \<le> width + k" if "Suc n < 2 ^ k" for k
    proof (cases k)
      case (Suc j)
      then have "Suc n div 2 < 2 ^ j" using that by (simp add: div_less_iff_less_mult mult.commute)
      then show ?thesis using 2 Suc by auto
    qed (use that in simp)
    ultimately show ?case using \<open>width \<le> ?r\<close> by simp
  qed simp
  then show "width \<le> vbits_loop n width" "n < 2 ^ (vbits_loop n width - width)"
    "n < 2 ^ k \<Longrightarrow> vbits_loop n width \<le> width + k" by blast+
qed

text \<open>\<open>vbits\<close> is enough bits to number the words, and never more than 32.\<close>

lemma vbits_bound:
  assumes "vbits n = Inr k"
  shows "unat n \<le> 2 ^ k" and "k \<le> 32" and "0 < n"
proof -
  have pos: "0 < n" using assms by (auto simp: vbits_def split: if_splits)
  then show "0 < n" .
  have "unat n \<le> 2 ^ k \<and> k \<le> 32"
  proof (cases "n = 1")
    case True
    then show ?thesis using assms by (simp add: vbits_def)
  next
    case False
    then have k: "k = vbits_loop (unat (n - 1)) 0" using assms pos by (simp add: vbits_def)
    have "unat (n - 1) = unat n - 1" using pos by (simp add: unat_minus_one word_neq_0_conv)
    moreover have "unat (n - 1) < 2 ^ 32" by (rule u32_less)
    ultimately show ?thesis
      using vbits_loop_bound(2) [of "unat (n - 1)" 0] vbits_loop_bound(3) [of "unat (n - 1)" 32 0] k by simp
  qed
  then show "unat n \<le> 2 ^ k" "k \<le> 32" by blast+
qed

section \<open>What the methods compute\<close>

text \<open>The memory is in the design, and the scope of the scrambling primitive exists.\<close>

definition scr_present :: "scr_area \<Rightarrow> string \<Rightarrow> nat \<Rightarrow> sim \<Rightarrow> bool" where
  "scr_present a home depth s \<longleftrightarrow>
     0 < unat (ma_width_byte (scr_base a) div 4) \<and>
     ma_width_byte (scr_base a) = 4 * (ma_width_byte (scr_base a) div 4) \<and>
     unat (ma_width_byte (scr_base a)) \<le> 40 \<and>
     vbits (ma_num_words (scr_base a)) = Inr (addr_width a) \<and> 2 ^ addr_width a \<le> depth \<and>
     mem_present s (ma_scope (scr_base a)) home (39 * unat (ma_width_byte (scr_base a) div 4)) depth \<and>
     ok (fst (SetRelScope (scr_scope a) s))"

text \<open>The unwritten arrays hold the same in every call from now on.  This is not something that the program
  ensures.\<close>

definition same_contents :: "(nat \<Rightarrow> u32) \<Rightarrow> (nat \<Rightarrow> u32) \<Rightarrow> sim \<Rightarrow> bool" where
  "same_contents key nonce s \<longleftrightarrow> (\<forall>i. key_minibuf s i = key) \<and> (\<forall>i. nonce_minibuf s i = nonce)"

text \<open>The state in which the class works as intended; \<open>key\<close> and \<open>nonce\<close> are the contents of the arrays.\<close>

definition scr_env :: "scr_area \<Rightarrow> string \<Rightarrow> nat \<Rightarrow> u32 list \<Rightarrow> u32 list \<Rightarrow> sim \<Rightarrow> bool" where
  "scr_env a home depth key nonce s \<longleftrightarrow> scr_present a home depth s \<and>
     (\<exists>k n. same_contents k n s \<and> key = map k [0..<4] \<and> nonce = map n [0..<10])"

lemma scr_env_same: "scr_present a home depth s \<Longrightarrow> same_contents k n s \<Longrightarrow>
    scr_env a home depth (map k [0..<4]) (map n [0..<10]) s"
  by (auto simp: scr_env_def)

lemma scr_envD:
  assumes "scr_env a home depth key nonce s"
  shows "scr_present a home depth s" and "length key = 4" and "length nonce = 10"
    and "key_minibuf t = key_minibuf s \<Longrightarrow> key_minibuf_array t = (Inr key, t)"
    and "nonce_minibuf t = nonce_minibuf s \<Longrightarrow> nonce_minibuf_array t = (Inr nonce, t)"
proof -
  obtain k n where kn: "key_minibuf s = (\<lambda>_. k)" "nonce_minibuf s = (\<lambda>_. n)" "key = map k [0..<4]" "nonce = map n [0..<10]"
    using assms by (auto simp: scr_env_def same_contents_def fun_eq_iff)
  show "scr_present a home depth s" using assms by (simp add: scr_env_def)
  show "length key = 4" "length nonce = 10" using kn by simp_all
  show "key_minibuf_array t = (Inr key, t)" if "key_minibuf t = key_minibuf s"
    using that kn by (cases t) (simp add: key_minibuf_array_def kPrinceWidthByte_def kPrinceWidth_def)
  show "nonce_minibuf_array t = (Inr nonce, t)" if "nonce_minibuf t = nonce_minibuf s"
    using that kn by (cases t) (simp add: nonce_minibuf_array_def kScrMaxNonceWidthByte_def kScrMaxNonceWidth_def)
qed

definition scr_words :: "scr_area \<Rightarrow> nat" where
  "scr_words a = unat (ma_width_byte (scr_base a) div 4)"

definition phys_bytes :: "scr_area \<Rightarrow> nat" where
  "phys_bytes a = bytes_for (39 * scr_words a)"

definition scr_nonce :: "scr_area \<Rightarrow> u32 list \<Rightarrow> u8 list" where
  "scr_nonce a nonce = sv_bytes nonce (unat (GetNonceWidthByte a))"

text \<open>The keystream of a word, its address vector, and a physical word with the keystream removed.\<close>

definition scr_keystream :: "scr_area \<Rightarrow> u32 list \<Rightarrow> u32 list \<Rightarrow> u32 \<Rightarrow> u8 list" where
  "scr_keystream a key nonce w =
     projr (scramble_gen_keystream (AddrIntToBytes w (addr_width a)) (addr_width a) (scr_nonce a nonce)
       (sv_bytes key 16) (39 * scr_words a) kNumPrinceHalfRounds (repeat_keystream a))"

definition unscrambled :: "scr_area \<Rightarrow> u32 list \<Rightarrow> u32 list \<Rightarrow> u8 list \<Rightarrow> u32 \<Rightarrow> u8 list" where
  "unscrambled a key nonce b w = map2 (XOR) (take (phys_bytes a) b) (scr_keystream a key nonce w)"

definition scr_phys :: "scr_area \<Rightarrow> u32 list \<Rightarrow> u32 \<Rightarrow> u32" where
  "scr_phys a nonce w = projr (res_bind (scramble_addr (AddrIntToBytes w (addr_width a)) (addr_width a)
     (scr_nonce a nonce) (unat (GetNonceWidth a))) AddrBytesToInt)"

lemma SVScoped_read:
  assumes "ok (fst (SetRelScope name s))" and "\<And>t. key_minibuf t = key_minibuf s \<Longrightarrow> nonce_minibuf t = nonce_minibuf s \<Longrightarrow>
      body t = (Inr x, t)"
  shows "SVScoped name body s = (Inr x, s)"
proof -
  obtain prev t where t: "SetRelScope name s = (Inr prev, t)"
    using assms(1) by (cases "SetRelScope name s") (auto simp: ok_iff)
  from SetRelScope_result [OF t] have "prev = cur_scope s" "t = s\<lparr>cur_scope := cur_scope t\<rparr>" by blast+
  moreover from this(2) have "key_minibuf t = key_minibuf s" "nonce_minibuf t = nonce_minibuf s"
    by (metis sim.ext_inject sim.surjective sim.update_convs(1))+
  then have "body t = (Inr x, t)" by (rule assms(2))
  ultimately show ?thesis using t
    by (simp add: SVScoped_def) (metis sim.surjective sim.update_convs(1) sim.ext_inject)
qed

lemma scr_widths:
  assumes env: "scr_env a home depth key nonce s"
  shows "0 < scr_words a" "39 * scr_words a \<le> 312" "unat (GetPhysWidth a) = 39 * scr_words a"
  "unat (GetPhysWidthByte a) = phys_bytes a" "phys_bytes a \<le> 39" "39 * scr_words a \<le> 8 * phys_bytes a"
proof -
  show pos: "0 < scr_words a" and bound: "39 * scr_words a \<le> 312"
    using env mem_presentD(2) unfolding scr_env_def scr_present_def scr_words_def by blast+
  have "unat (GetPhysWidth a) = scr_words a * 39 mod 2 ^ 32"
    by (simp add: GetPhysWidth_def GetWidthByte_def scr_words_def unat_word_ariths)
  then show width: "unat (GetPhysWidth a) = 39 * scr_words a" using bound by simp
  have "unat (GetPhysWidth a + 7) = 39 * scr_words a + 7"
    using width bound by (simp add: unat_word_ariths)
  then show "unat (GetPhysWidthByte a) = phys_bytes a"
    using bound by (simp add: GetPhysWidthByte_def unat_div phys_bytes_def bytes_for_eq)
  show "phys_bytes a \<le> 39" "39 * scr_words a \<le> 8 * phys_bytes a"
    using bound by (auto simp: phys_bytes_def bytes_for_eq)
qed

lemma scr_nonce_width:
  assumes env: "scr_env a home depth key nonce s"
  shows "unat (GetPrinceReplications a) = keystream_princes (39 * scr_words a) (repeat_keystream a)"
  "unat (GetNonceWidthByte a) = 8 * unat (GetPrinceReplications a)"
  "unat (GetNonceWidth a) = 64 * unat (GetPrinceReplications a)"
  "1 \<le> unat (GetPrinceReplications a)" "unat (GetPrinceReplications a) \<le> 5"
proof -
  have "unat (GetPhysWidthByte a + 7) = phys_bytes a + 7"
    using scr_widths(4,5) [OF env] by (simp add: unat_word_ariths)
  moreover have "phys_bytes a = (39 * scr_words a + 7) div 8"
    using scr_widths(2) [OF env] by (simp add: phys_bytes_def bytes_for_eq)
  moreover have "((39 * scr_words a + 7) div 8 + 7) div 8 = (39 * scr_words a + 63) div 64" by simp
  ultimately show princes: "unat (GetPrinceReplications a) = keystream_princes (39 * scr_words a) (repeat_keystream a)"
    by (simp add: GetPrinceReplications_def keystream_princes_def unat_div)
  show bounds: "1 \<le> unat (GetPrinceReplications a)" "unat (GetPrinceReplications a) \<le> 5"
    unfolding princes using scr_widths(1,2) [OF env] by (auto simp: keystream_princes_def)
  show "unat (GetNonceWidthByte a) = 8 * unat (GetPrinceReplications a)"
    "unat (GetNonceWidth a) = 64 * unat (GetPrinceReplications a)"
    using bounds(2) by (simp_all add: GetNonceWidthByte_def GetNonceWidth_def unat_word_ariths)
qed

lemma scr_addr_width:
  assumes env: "scr_env a home depth key nonce s"
  shows "addr_width a \<le> 32" and "w < ma_num_words (scr_base a) \<Longrightarrow> unat w < 2 ^ addr_width a"
  using env vbits_bound [of "ma_num_words (scr_base a)" "addr_width a"]
  by (auto simp: scr_env_def scr_present_def word_less_nat_alt)

lemma GetScrambleKey_run:
  assumes env: "scr_env a home depth key nonce s"
  shows "GetScrambleKey a s = (Inr (sv_bytes key 16), s)"
  unfolding GetScrambleKey_def
  by (rule SVScoped_read)
    (use scr_envD [OF env] in \<open>simp_all add: scr_present_def act_bind_def act_lift_def kPrinceWidthByte_def kPrinceWidth_def
      ByteVecFromSV_eq\<close>)

lemma GetScrambleNonce_run:
  assumes env: "scr_env a home depth key nonce s"
  shows "GetScrambleNonce a s = (Inr (scr_nonce a nonce), s)"
proof -
  have n: "unat (GetNonceWidthByte a) \<le> 40" using scr_nonce_width(2,5) [OF env] by simp
  have "SVScoped (scr_scope a) (act_bind nonce_minibuf_array
      (\<lambda>buf. act_lift (ByteVecFromSV buf (unat (GetNonceWidthByte a))))) s = (Inr (scr_nonce a nonce), s)"
    by (rule SVScoped_read)
      (use scr_envD [OF env] n in \<open>simp_all add: scr_present_def act_bind_def act_lift_def ByteVecFromSV_eq scr_nonce_def\<close>)
  then show ?thesis
    using n by (simp add: GetScrambleNonce_def act_bind_def act_assert_def kScrMaxNonceWidthByte_def kScrMaxNonceWidth_def)
qed

lemma scr_keystream_run:
  assumes env: "scr_env a home depth key nonce s" and "w < ma_num_words (scr_base a)"
  shows "scramble_gen_keystream (AddrIntToBytes w (addr_width a)) (addr_width a) (scr_nonce a nonce)
       (sv_bytes key 16) (39 * scr_words a) kNumPrinceHalfRounds (repeat_keystream a) =
      Inr (scr_keystream a key nonce w)"
    and "clean (39 * scr_words a) (scr_keystream a key nonce w)"
    and "length (AddrIntToBytes w (addr_width a)) = bytes_for (addr_width a)"
proof -
  show len: "length (AddrIntToBytes w (addr_width a)) = bytes_for (addr_width a)"
    using cleanD(1) [OF AddrIntToBytes_clean(1) [OF scr_addr_width(1) [OF env] scr_addr_width(2) [OF env assms(2)]]] .
  then have addr: "addr_width a \<le> 8 * length (AddrIntToBytes w (addr_width a))"
    using bytes_for_32(1) [OF scr_addr_width(1) [OF env]] by simp
  have len_nonce: "length (scr_nonce a nonce) = 8 * unat (GetPrinceReplications a)"
    using scr_nonce_width(2) [OF env] by (simp add: scr_nonce_def)
  have "unat (GetPrinceReplications a) * (64 - addr_width a) \<le> unat (GetPrinceReplications a) * 64"
    by (intro mult_le_mono2) simp
  then have "unat (GetPrinceReplications a) * (64 - addr_width a) \<le> 320"
    using scr_nonce_width(5) [OF env] by linarith
  then have "unat (GetPrinceReplications a) * (64 - addr_width a) < 2 ^ 32" by simp
  then have enough: "nonce_long_enough (keystream_princes (39 * scr_words a) (repeat_keystream a)) (addr_width a) (scr_nonce a nonce)"
    using \<open>_ \<le> unat (GetPrinceReplications a) * 64\<close> len_nonce
    unfolding nonce_long_enough_def scr_nonce_width(1) [OF env, symmetric] by (intro conjI) linarith+
  then obtain ks where "scramble_gen_keystream (AddrIntToBytes w (addr_width a)) (addr_width a) (scr_nonce a nonce)
       (sv_bytes key 16) (39 * scr_words a) 3 (repeat_keystream a) = Inr ks" "clean (39 * scr_words a) ks"
    using gen_keystream_Inr [OF addr _ enough, of "sv_bytes key 16"] scr_widths(2) [OF env] by auto
  then show "scramble_gen_keystream (AddrIntToBytes w (addr_width a)) (addr_width a) (scr_nonce a nonce)
       (sv_bytes key 16) (39 * scr_words a) kNumPrinceHalfRounds (repeat_keystream a) =
      Inr (scr_keystream a key nonce w)" "clean (39 * scr_words a) (scr_keystream a key nonce w)"
    by (simp_all add: scr_keystream_def kNumPrinceHalfRounds_def)
qed

lemma length_keystream:
  assumes env: "scr_env a home depth key nonce s" and w: "w < ma_num_words (scr_base a)"
  shows "length (scr_keystream a key nonce w) = phys_bytes a"
  using cleanD(1) [OF scr_keystream_run(2) [OF env w]] by (simp add: phys_bytes_def)

lemma ReadUnscrambled_run:
  assumes env: "scr_env a home depth key nonce s" and w: "w < ma_num_words (scr_base a)" and b: "length b = 40"
  shows "ReadUnscrambled a b w s = (Inr (unscrambled a key nonce b w), s)"
    and "length (unscrambled a key nonce b w) = phys_bytes a"
proof -
  note widths = scr_widths(3,4,5) [OF env]
  have len: "length (take (phys_bytes a) b) = bytes_for (39 * scr_words a)"
    using b widths(3) by (simp add: phys_bytes_def)
  have "scramble_decrypt_data (take (phys_bytes a) b) (39 * scr_words a) 39
      (AddrIntToBytes w (addr_width a)) (addr_width a) (scr_nonce a nonce) (sv_bytes key 16) (repeat_keystream a) False =
      Inr (unscrambled a key nonce b w)"
    using len scr_keystream_run(1,3) [OF env w] length_keystream [OF env w]
    by (simp add: scramble_decrypt_data_def unscrambled_def xor_vectors_def phys_bytes_def)
  then show "ReadUnscrambled a b w s = (Inr (unscrambled a key nonce b w), s)"
    using b widths GetScrambleKey_run [OF env] GetScrambleNonce_run [OF env]
    by (simp add: ReadUnscrambled_def Let_def act_bind_def act_lift_def)
  show "length (unscrambled a key nonce b w) = phys_bytes a"
    using len length_keystream [OF env w] by (simp add: unscrambled_def phys_bytes_def)
qed

lemma ScrambleBuffer_run:
  assumes env: "scr_env a home depth key nonce s" and w: "w < ma_num_words (scr_base a)" and v: "length v = 40"
  shows "\<exists>c. ScrambleBuffer a v w s = (Inr c, s) \<and> length c = 40 \<and>
    (\<forall>n<39 * scr_words a. vbit (unscrambled a key nonce (keep (39 * scr_words a) c) w) n = vbit v n)"
proof -
  note widths = scr_widths(3,4,5,6) [OF env] and ks = length_keystream [OF env w]
  define x where "x = map2 (XOR) (take (phys_bytes a) v) (scr_keystream a key nonce w)"
  have len: "length (take (phys_bytes a) v) = phys_bytes a" "length x = phys_bytes a"
    using v widths(3) ks by (simp_all add: x_def)
  have "scramble_encrypt_data (take (phys_bytes a) v) (39 * scr_words a) 39
      (AddrIntToBytes w (addr_width a)) (addr_width a) (scr_nonce a nonce) (sv_bytes key 16) (repeat_keystream a) False = Inr x"
    using len scr_keystream_run(1,3) [OF env w] ks
    by (simp add: scramble_encrypt_data_def x_def xor_vectors_def phys_bytes_def)
  then have "ScrambleBuffer a v w s = (vec_copy v 0 x 0 (phys_bytes a), s)"
    using v widths len GetScrambleKey_run [OF env] GetScrambleNonce_run [OF env]
    by (simp add: ScrambleBuffer_def Let_def act_bind_def act_lift_def)
  moreover have "vec_copy v 0 x 0 (phys_bytes a) = Inr (x @ drop (phys_bytes a) v)"
    using v widths(3) len by (simp add: vec_copy_def)
  moreover have "vbit (unscrambled a key nonce (keep (39 * scr_words a) (x @ drop (phys_bytes a) v)) w) n = vbit v n"
    if n: "n < 39 * scr_words a" for n
  proof -
    have n8: "n < 8 * phys_bytes a" "n < 320" using n widths scr_widths(2) [OF env] by linarith+
    have "vbit (unscrambled a key nonce (keep (39 * scr_words a) (x @ drop (phys_bytes a) v)) w) n =
        (vbit (x @ drop (phys_bytes a) v) n \<noteq> vbit (scr_keystream a key nonce w) n)"
      using n n8 widths(3) ks by (simp add: unscrambled_def vbit_map2_xor vbit_take vbit_keep)
    also have "vbit (x @ drop (phys_bytes a) v) n = vbit x n" using n8 len by (simp add: vbit_append)
    also have "vbit x n = (vbit v n \<noteq> vbit (scr_keystream a key nonce w) n)"
      using n8 len ks by (simp add: x_def vbit_map2_xor vbit_take)
    finally show ?thesis by auto
  qed
  ultimately show ?thesis using v len widths(3) by auto
qed

lemma Scrambled_ToPhysAddr_run:
  assumes env: "scr_env a home depth key nonce s" and w: "w < ma_num_words (scr_base a)"
  shows "Scrambled_ToPhysAddr a w s = (Inr (scr_phys a nonce w), s)"
    and "unat (scr_phys a nonce w) < 2 ^ addr_width a"
    and "v < ma_num_words (scr_base a) \<Longrightarrow> scr_phys a nonce w = scr_phys a nonce v \<Longrightarrow> w = v"
proof -
  let ?aw = "addr_width a" and ?nw = "unat (GetNonceWidth a)"
  note aw = scr_addr_width(1) [OF env]
  have nw: "?aw \<le> 2 ^ 32 - 8" "?aw \<le> ?nw" "?nw < 2 ^ 32" "?nw \<le> 8 * length (scr_nonce a nonce)"
    using aw scr_nonce_width(2-5) [OF env] by (simp_all add: scr_nonce_def)
  note total = scramble_addr_total [OF nw]
  have run: "\<exists>p. scramble_addr (AddrIntToBytes v ?aw) ?aw (scr_nonce a nonce) ?nw = Inr p \<and> clean ?aw p \<and>
      AddrBytesToInt p = Inr (scr_phys a nonce v) \<and>
      (\<forall>n. bit (scr_phys a nonce v) n \<longleftrightarrow> n < 8 * length p \<and> vbit p n)"
    if v: "v < ma_num_words (scr_base a)" for v
  proof -
    obtain p where p: "scramble_addr (AddrIntToBytes v ?aw) ?aw (scr_nonce a nonce) ?nw = Inr p" "clean ?aw p"
      using total(1) [OF AddrIntToBytes_clean(1) [OF aw scr_addr_width(2) [OF env v]]] by blast
    then have "length p \<le> 4" using cleanD(1) bytes_for_32(2) [OF aw] by metis
    then obtain x where "AddrBytesToInt p = Inr x" "\<forall>n. bit x n \<longleftrightarrow> n < 8 * length p \<and> vbit p n"
      using AddrBytesToInt_bits by blast
    then show ?thesis using p by (simp add: scr_phys_def)
  qed
  obtain p where p: "scramble_addr (AddrIntToBytes w ?aw) ?aw (scr_nonce a nonce) ?nw = Inr p" "clean ?aw p"
    "AddrBytesToInt p = Inr (scr_phys a nonce w)"
    "\<And>n. bit (scr_phys a nonce w) n \<longleftrightarrow> n < 8 * length p \<and> vbit p n" using run [OF w] by blast
  show "Scrambled_ToPhysAddr a w s = (Inr (scr_phys a nonce w), s)"
    using p GetScrambleNonce_run [OF env] by (simp add: Scrambled_ToPhysAddr_def act_bind_def act_lift_def)
  have "\<not> bit (scr_phys a nonce w) n" if "?aw \<le> n" for n
    using that p(4) cleanD [OF p(2)] by auto
  then have "take_bit ?aw (scr_phys a nonce w) = scr_phys a nonce w"
    by (intro bit_word_eqI) (simp add: bit_take_bit_iff, metis linorder_not_less)
  then have "unat (scr_phys a nonce w) = take_bit ?aw (unat (scr_phys a nonce w))"
    by (metis unsigned_take_bit_eq)
  then show "unat (scr_phys a nonce w) < 2 ^ ?aw" by (metis take_bit_nat_less_exp)
  show "w = v" if v: "v < ma_num_words (scr_base a)" and eq: "scr_phys a nonce w = scr_phys a nonce v"
  proof -
    obtain q where q: "scramble_addr (AddrIntToBytes v ?aw) ?aw (scr_nonce a nonce) ?nw = Inr q" "clean ?aw q"
      "\<And>n. bit (scr_phys a nonce v) n \<longleftrightarrow> n < 8 * length q \<and> vbit q n" using run [OF v] by blast
    have len: "length p = length q" using p(2) q(2) by (simp add: cleanD)
    have "p = q"
    proof (rule vbit_ext [OF len])
      fix n assume "n < 8 * length p"
      then show "vbit p n = vbit q n" using p(4) q(3) eq len by auto
    qed
    then have same: "AddrIntToBytes w ?aw = AddrIntToBytes v ?aw"
      using p(1) q(1) total(3) AddrIntToBytes_clean(1) [OF aw] scr_addr_width(2) [OF env] v w by metis
    have high: "\<not> bit u n" if "unat u < 2 ^ ?aw" "?aw \<le> n" for u :: u32 and n
    proof -
      have "take_bit ?aw (unat u) = unat u" using that(1) by (simp add: take_bit_nat_eq_self)
      then have "bit (unat u) n \<longleftrightarrow> n < ?aw \<and> bit (unat u) n" by (metis bit_take_bit_iff)
      then show ?thesis using that bit_unsigned_iff [of u n, where 'a = nat] by simp
    qed
    show "w = v"
    proof (rule bit_word_eqI)
      fix n assume "n < LENGTH(32)"
      show "bit w n = bit v n"
        using AddrIntToBytes_clean(2) [OF aw scr_addr_width(2) [OF env w], of n] high [OF scr_addr_width(2) [OF env w], of n]
          AddrIntToBytes_clean(2) [OF aw scr_addr_width(2) [OF env v], of n] high [OF scr_addr_width(2) [OF env v], of n] same
        by (cases "n < ?aw") auto
    qed
  qed
qed

section \<open>The contract\<close>

lemma ecc_words_cong:
  assumes "\<And>n. n < 39 * w \<Longrightarrow> vbit b n = vbit c n"
  shows "map (ecc_word_at b) [0..<w] = map (ecc_word_at c) [0..<w]"
proof (intro map_cong refl)
  fix i
  assume "i \<in> set [0..<w]"
  then have bits: "vbit b (39 * i + n) = vbit c (39 * i + n)" if "n < 39" for n
    using assms that by simp
  have "stored_bytes b i = stored_bytes c i"
    unfolding stored_bytes_def by (rule vbit_ext) (simp_all add: vbit_vec_of bits)
  moreover have "stored_check b i = stored_check c i"
    unfolding stored_check_def
    by (rule bit_word_eqI) (use bits [of "32 + _"] in \<open>auto simp: bit_byte_of add.assoc\<close>)
  ultimately show "ecc_word_at b i = ecc_word_at c i" by (simp add: ecc_word_at_def)
qed

lemma SetRelScope_put: "fst (SetRelScope name (put_word s h i v)) = fst (SetRelScope name s)"
  by (simp add: SetRelScope_def SetAbsScope_def Let_def split: option.splits)

interpretation scr: ecc_codec "scr_base a" "Scrambled_methods a" home "39 * scr_words a" depth
    "scr_env a home depth key nonce" "scr_phys a nonce"
    "\<lambda>b w. ecc_dec (scr_words a) (unscrambled a key nonce b w)" False
    "Scrambled_ecc_methods a" "\<lambda>b w. map (ecc_word_at (unscrambled a key nonce b w)) [0..<scr_words a]"
  for a home depth key nonce
proof
  show "ecc_base (Scrambled_ecc_methods a) = Scrambled_methods a" by (simp add: Scrambled_ecc_methods_def)
  fix s
  assume s: "scr_env a home depth key nonce s"
  note widths = scr_widths [OF s]
  show width: "unat (ma_width_byte (scr_base a)) = 4 * unat (ma_width_byte (scr_base a) div 4)"
    using s ecc_width [of "scr_base a"] unfolding scr_env_def scr_present_def by blast
  then show "0 < unat (ma_width_byte (scr_base a)) \<and> unat (ma_width_byte (scr_base a)) \<le> 40"
    using s by (simp add: scr_env_def scr_present_def)
  show "resolves s (ma_scope (scr_base a)) home" "39 * scr_words a \<le> 312 \<and> depth < 2 ^ 31"
    "\<exists>m. mem_at s home = Some m \<and> mem_width m = 39 * scr_words a \<and> mem_depth m = depth"
    using s mem_presentD unfolding scr_env_def scr_present_def scr_words_def by blast+
  show "scr_env a home depth key nonce (put_word s home i x)" for i x
    using s by (simp add: scr_env_def scr_present_def same_contents_def SetRelScope_put)
  fix w :: u32
  assume w: "w < ma_num_words (scr_base a)"
  note phys = Scrambled_ToPhysAddr_run [OF s w]
  show "ToPhysAddr (Scrambled_methods a) w s = (Inr (scr_phys a nonce w), s)"
    using phys(1) by (simp add: Scrambled_methods_def)
  show "unat (scr_phys a nonce w) < depth" using phys(2) s by (simp add: scr_env_def scr_present_def)
  show "w = v" if "v < ma_num_words (scr_base a)" "scr_phys a nonce w = scr_phys a nonce v" for v
    using phys(3) that by blast
  fix b :: "u8 list"
  assume b: "length b = 40"
  note read = ReadUnscrambled_run [OF s w b]
  show "ReadBuffer (Scrambled_methods a) acc b w s =
      (Inr (acc @ ecc_dec (scr_words a) (unscrambled a key nonce b w)), s)" for acc
    using read widths(6) ReadBuffer_eq [of "scr_base a" "unscrambled a key nonce b w" acc w s]
    by (simp add: Scrambled_methods_def Scrambled_ReadBuffer_def act_bind_def scr_words_def)
  show "length (ecc_dec (scr_words a) (unscrambled a key nonce b w)) = unat (ma_width_byte (scr_base a))"
    using width by (simp add: scr_words_def)
  show "ReadBufferWithIntegrity (Scrambled_ecc_methods a) words b w s =
      (Inr (words @ map (ecc_word_at (unscrambled a key nonce b w)) [0..<scr_words a]), s)" for words
    using read widths(6) ReadBufferWithIntegrity_eq [of "scr_base a" "unscrambled a key nonce b w" words w s]
    by (simp add: Scrambled_ecc_methods_def Scrambled_ReadBufferWithIntegrity_def act_bind_def scr_words_def)
  show "ecc_dec (scr_words a) (unscrambled a key nonce b w) = concat (map (\<lambda>x. word_bytes (snd x))
      (map (ecc_word_at (unscrambled a key nonce b w)) [0..<scr_words a]))" by (rule ecc_dec_words)
  note fold_words = scr_words_def [symmetric]
  show "\<exists>c. WriteBuffer (Scrambled_methods a) b data start w s = (Inr c, s) \<and> length c = 40 \<and>
      ecc_dec (scr_words a) (unscrambled a key nonce (keep (39 * scr_words a) c) w) =
        padded (unat (ma_width_byte (scr_base a))) data start"
    if "False \<or> start + unat (ma_width_byte (scr_base a)) \<le> length data" for start data
  proof -
    have data: "start + 4 * scr_words a \<le> length data" using that width by (simp add: scr_words_def)
    obtain v where v: "Ecc32MemArea_WriteBuffer (scr_base a) b data start w s = (Inr v, s)" "length v = 40"
      "ecc_dec (scr_words a) v = take (4 * scr_words a) (drop start data)"
      using WriteBuffer_dec [of "scr_base a" b start data w s] widths(2) b data unfolding fold_words by blast
    obtain c where c: "ScrambleBuffer a v w s = (Inr c, s)" "length c = 40"
      "\<And>n. n < 39 * scr_words a \<Longrightarrow> vbit (unscrambled a key nonce (keep (39 * scr_words a) c) w) n = vbit v n"
      using ScrambleBuffer_run [OF s w v(2)] by blast
    have "ecc_dec (scr_words a) (unscrambled a key nonce (keep (39 * scr_words a) c) w) = ecc_dec (scr_words a) v"
      unfolding ecc_dec_words by (simp only: ecc_words_cong [OF c(3)])
    then show ?thesis
      using v c(1,2) data width
      by (auto simp: Scrambled_methods_def Scrambled_WriteBuffer_def act_bind_def padded_def vec_resize_def scr_words_def)
  qed
  show "\<exists>c. WriteBufferWithIntegrity (Scrambled_ecc_methods a) b data start w s = (Inr c, s) \<and> length c = 40 \<and>
      map (ecc_word_at (unscrambled a key nonce (keep (39 * scr_words a) c) w)) [0..<scr_words a] =
        take (unat (ma_width_byte (scr_base a) div 4)) (drop start data)"
    if data: "start + unat (ma_width_byte (scr_base a) div 4) \<le> length data" for start data
  proof -
    obtain v where v: "Ecc32MemArea_WriteBufferWithIntegrity (scr_base a) b data start w s = (Inr v, s)" "length v = 40"
      "map (ecc_word_at v) [0..<scr_words a] = take (scr_words a) (drop start data)"
      using integrity_words [of "scr_base a" b start data w s] widths(2) b data unfolding fold_words by blast
    obtain c where c: "ScrambleBuffer a v w s = (Inr c, s)" "length c = 40"
      "\<And>n. n < 39 * scr_words a \<Longrightarrow> vbit (unscrambled a key nonce (keep (39 * scr_words a) c) w) n = vbit v n"
      using ScrambleBuffer_run [OF s w v(2)] by blast
    have "map (ecc_word_at (unscrambled a key nonce (keep (39 * scr_words a) c) w)) [0..<scr_words a] =
        map (ecc_word_at v) [0..<scr_words a]" by (rule ecc_words_cong [OF c(3)])
    then show ?thesis
      using v c(1,2) unfolding fold_words
      by (auto simp: Scrambled_ecc_methods_def Scrambled_WriteBufferWithIntegrity_def act_bind_def)
  qed
qed

section \<open>Properties\<close>

lemma vbits_loop_numeral [simp]: "vbits_loop (numeral k) width = vbits_loop (numeral k div 2) (width + 1)"
  by (subst numeral_eq_Suc) (simp only: vbits_loop.simps, simp only: numeral_eq_Suc [symmetric])

text \<open>Turning a word address into bytes and back gives the address, when it fits the width that
  \<open>vbits\<close> computes for the memory; so every address of the memory does.\<close>

theorem address_bytes_round_trip:
  assumes "vbits words = Inr width" and "addr < words"
  shows "AddrBytesToInt (AddrIntToBytes addr width) = Inr addr \<and> unat words \<le> 2 ^ width \<and> width \<le> 32"
proof -
  note aw = vbits_bound [OF assms(1)]
  have less: "unat addr < 2 ^ width" using aw(1) assms(2) by (simp add: word_less_nat_alt)
  note clean = AddrIntToBytes_clean [OF aw(2) less]
  have len: "length (AddrIntToBytes addr width) = bytes_for width" by (rule cleanD(1) [OF clean(1)])
  obtain x where x: "AddrBytesToInt (AddrIntToBytes addr width) = Inr x"
    "\<And>n. bit x n \<longleftrightarrow> n < 8 * bytes_for width \<and> vbit (AddrIntToBytes addr width) n"
    using AddrBytesToInt_bits [of "AddrIntToBytes addr width"] len bytes_for_32(2) [OF aw(2)] by auto
  have "take_bit width (unat addr) = unat addr" using less by (simp add: take_bit_nat_eq_self)
  then have high: "\<not> bit addr n" if "width \<le> n" for n
    using that bit_unsigned_iff [of addr n, where 'a = nat] by (metis bit_take_bit_iff linorder_not_less possible_bit_nat)
  have "x = addr"
  proof (rule bit_word_eqI)
    fix n assume "n < LENGTH(32)"
    show "bit x n = bit addr n"
      using x(2) [of n] clean(2) [of n] high [of n] cleanD(2) [OF clean(1), of n] bytes_for_32(1) [OF aw(2)]
      by (cases "n < width") auto
  qed
  then show ?thesis using x(1) aw by simp
qed

theorem address_bytes_round_trip_witness:
  "AddrBytesToInt (AddrIntToBytes 700 10) = Inr 700 \<and> unat (1000 :: u32) \<le> 2 ^ 10 \<and> (10 :: nat) \<le> 32"
  by (rule address_bytes_round_trip) (simp_all add: vbits_def)

text \<open>The scrambling key that the class uses is whatever an array holds that the function declares
  and does not fill: nothing is asked of the design, and the next call takes other contents.\<close>

lemma scramble_key_is_uninitialised:
  assumes "ok (fst (SetRelScope (scr_scope a) s))"
  shows "GetScrambleKey a s =
    (Inr (sv_bytes (map (key_minibuf s 0) [0..<4]) 16), s\<lparr>key_minibuf := \<lambda>i. key_minibuf s (Suc i)\<rparr>)"
proof -
  obtain prev t where t: "SetRelScope (scr_scope a) s = (Inr prev, t)"
    using assms by (cases "SetRelScope (scr_scope a) s") (auto simp: ok_iff)
  from SetRelScope_result [OF t] have st: "prev = cur_scope s" "t = s\<lparr>cur_scope := cur_scope t\<rparr>" by blast+
  then obtain c where c: "t = s\<lparr>cur_scope := c\<rparr>" by blast
  show ?thesis
    using t by (simp add: GetScrambleKey_def SVScoped_def st(1) c act_bind_def act_lift_def key_minibuf_array_def
      kPrinceWidthByte_def kPrinceWidth_def ByteVecFromSV_eq)
qed

text \<open>When a word is read with another key or nonce than it was written with, it comes back with the two
  keystreams laid over it: it is the word written only where they agree.\<close>

lemma other_contents_other_word:
  assumes s: "scr_env a home depth key nonce s" and t: "scr_env a home depth key' nonce' t"
    and w: "w < ma_num_words (scr_base a)" and v: "length v = 40"
  shows "\<exists>c u. ScrambleBuffer a v w s = (Inr c, s) \<and> length c = 40 \<and>
    ReadUnscrambled a (keep (39 * scr_words a) c) w t = (Inr u, t) \<and>
    (\<forall>n<39 * scr_words a. vbit u n =
       (vbit v n \<noteq> (vbit (scr_keystream a key nonce w) n \<noteq> vbit (scr_keystream a key' nonce' w) n)))"
proof -
  obtain c where c: "ScrambleBuffer a v w s = (Inr c, s)" "length c = 40"
    "\<And>n. n < 39 * scr_words a \<Longrightarrow> vbit (unscrambled a key nonce (keep (39 * scr_words a) c) w) n = vbit v n"
    using ScrambleBuffer_run [OF s w v] by blast
  note widths = scr_widths(5,6) [OF s]
  have bit: "vbit (unscrambled a k m (keep (39 * scr_words a) c) w) n =
      (vbit (keep (39 * scr_words a) c) n \<noteq> vbit (scr_keystream a k m w) n)"
    if "n < 39 * scr_words a" "length (scr_keystream a k m w) = phys_bytes a" for k m n
    using that widths by (simp add: unscrambled_def vbit_map2_xor vbit_take)
  show ?thesis
    using c(1,2) ReadUnscrambled_run(1) [OF t w length_keep] c(3) bit [OF _ length_keystream [OF s w]]
      bit [OF _ length_keystream [OF t w]] by (intro exI [of _ c] exI [of _ "unscrambled a key' nonce' (keep (39 * scr_words a) c) w"]) auto
qed

definition demo_area :: scr_area where
  "demo_area = \<lparr>scr_base = \<lparr>ma_scope = ''TOP.m'', ma_num_words = 8, ma_width_byte = 8\<rparr>, scr_scope = ''TOP.m'',
     addr_width = 3, repeat_keystream = True\<rparr>"

lemma scr_present_demo: "scr_present demo_area ''TOP.m'' 8 (one_memory ''TOP.m'' 78 8 (replicate 40 0))"
proof -
  have "vbits 8 = Inr 3" by (simp add: vbits_def)
  moreover have "ok (fst (SetRelScope ''TOP.m'' (one_memory ''TOP.m'' 78 8 (replicate 40 0))))"
    by (simp add: SetRelScope_def SetAbsScope_def one_memory_def)
  ultimately show ?thesis
    by (simp add: scr_present_def demo_area_def mem_present_one_memory)
qed

lemma same_contents_demo: "same_contents word_of_nat (\<lambda>_. 5) (one_memory ''TOP.m'' 78 8 (replicate 40 0))"
  by (simp add: same_contents_def one_memory_def)

text \<open>C13: Bytes written to a scrambled memory are read back, although every word is encrypted and stored at a
  permuted address, and every range of words outside the written one reads as before.  The code does not
  ensure this: key and nonce are the contents of arrays that are not initialised, in C++ indeterminate
  and perhaps others in every call, and the hypothesis \<open>same_contents\<close> is that every call finds the same.\<close>

theorem scrambled_read_back:
  assumes "scr_present a home depth s" and "same_contents key nonce s" and "length data < 2 ^ 32 - 40"
    and "length data mod unat (ma_width_byte (scr_base a)) = 0"
    and "n = (length data + unat (ma_width_byte (scr_base a)) - 1) div unat (ma_width_byte (scr_base a))"
    and "unat off + n \<le> unat (ma_num_words (scr_base a))"
  shows "\<exists>t. MemArea_Write (scr_base a) (Scrambled_methods a) off data s = (Inr (), t) \<and> cur_scope t = cur_scope s \<and>
    MemArea_Read (scr_base a) (Scrambled_methods a) off (word_of_nat n) t = (Inr data, t) \<and>
    (\<forall>o' k. unat o' + unat k \<le> unat (ma_num_words (scr_base a)) \<and> unat (ma_width_byte (scr_base a)) * unat k < 2 ^ 32 \<and>
       (unat o' + unat k \<le> unat off \<or> unat off + n \<le> unat o') \<longrightarrow>
       fst (MemArea_Read (scr_base a) (Scrambled_methods a) o' k t) =
       fst (MemArea_Read (scr_base a) (Scrambled_methods a) o' k s))"
proof -
  note env = scr_env_same [OF assms(1,2)]
  have "0 < unat (ma_width_byte (scr_base a))" using scr.width [OF env] by blast
  then have "n * unat (ma_width_byte (scr_base a)) = length data"
    unfolding assms(5) using assms(4) by (rule words_exact)
  then have "vec_resize data (n * unat (ma_width_byte (scr_base a))) = data" by (simp add: vec_resize_def)
  then show ?thesis using scr.write_read [OF env assms(3) disjI2 [OF assms(4)] assms(5,6)] by (simp only:)
qed

theorem scrambled_read_back_witness:
  "\<exists>t. MemArea_Write (scr_base demo_area) (Scrambled_methods demo_area) 3 [1, 2, 3, 4, 5, 6, 7, 8]
      (one_memory ''TOP.m'' 78 8 (replicate 40 0)) = (Inr (), t) \<and>
    MemArea_Read (scr_base demo_area) (Scrambled_methods demo_area) 3 1 t = (Inr [1, 2, 3, 4, 5, 6, 7, 8], t)"
proof -
  let ?d = "[1, 2, 3, 4, 5, 6, 7, 8 :: u8]"
  have prem: "length ?d < 2 ^ 32 - 40" "length ?d mod unat (ma_width_byte (scr_base demo_area)) = 0"
    "1 = (length ?d + unat (ma_width_byte (scr_base demo_area)) - 1) div unat (ma_width_byte (scr_base demo_area))"
    "unat (3 :: u32) + 1 \<le> unat (ma_num_words (scr_base demo_area))" by (simp_all add: demo_area_def)
  from scrambled_read_back [OF scr_present_demo same_contents_demo prem]
  obtain t where "MemArea_Write (scr_base demo_area) (Scrambled_methods demo_area) 3 ?d
      (one_memory ''TOP.m'' 78 8 (replicate 40 0)) = (Inr (), t)"
    "MemArea_Read (scr_base demo_area) (Scrambled_methods demo_area) 3 (word_of_nat 1) t = (Inr ?d, t)" by blast
  then show ?thesis by (intro exI [of _ t]) simp
qed

text \<open>C25: Words written with integrity flags to a scrambled memory are read back with the same flags, and read as
  bytes without them, under the hypothesis \<open>same_contents\<close> that the code does not ensure: every call finds
  the same key and nonce in the arrays that are not initialised.\<close>

theorem scrambled_integrity_round_trip:
  assumes "scr_present a home depth s" and "same_contents key nonce s" and "length words < 2 ^ 30"
    and "length words mod unat (ma_width_byte (scr_base a) div 4) = 0"
    and "n = length words div unat (ma_width_byte (scr_base a) div 4)"
    and "unat off + n \<le> unat (ma_num_words (scr_base a))"
  shows "\<exists>t. WriteWithIntegrity (scr_base a) (Scrambled_ecc_methods a) off words s = (Inr (), t) \<and>
    cur_scope t = cur_scope s \<and>
    ReadWithIntegrity (scr_base a) (Scrambled_ecc_methods a) off (word_of_nat n) t = (Inr words, t) \<and>
    MemArea_Read (scr_base a) (Scrambled_methods a) off (word_of_nat n) t =
      (Inr (concat (map (\<lambda>x. word_bytes (snd x)) words)), t)"
  by (rule scr.integrity_round_trip [OF scr_env_same [OF assms(1,2)] assms(3-6)])

theorem scrambled_integrity_round_trip_witness:
  "\<exists>t. WriteWithIntegrity (scr_base demo_area) (Scrambled_ecc_methods demo_area) 3 [(True, 5), (False, 6)]
      (one_memory ''TOP.m'' 78 8 (replicate 40 0)) = (Inr (), t) \<and>
    ReadWithIntegrity (scr_base demo_area) (Scrambled_ecc_methods demo_area) 3 1 t = (Inr [(True, 5), (False, 6)], t)"
proof -
  let ?d = "[(True, 5), (False, 6)] :: ecc_word list"
  have prem: "length ?d < 2 ^ 30" "length ?d mod unat (ma_width_byte (scr_base demo_area) div 4) = 0"
    "1 = length ?d div unat (ma_width_byte (scr_base demo_area) div 4)"
    "unat (3 :: u32) + 1 \<le> unat (ma_num_words (scr_base demo_area))" by (simp_all add: demo_area_def)
  from scrambled_integrity_round_trip [OF scr_present_demo same_contents_demo prem]
  obtain t where "WriteWithIntegrity (scr_base demo_area) (Scrambled_ecc_methods demo_area) 3 ?d
      (one_memory ''TOP.m'' 78 8 (replicate 40 0)) = (Inr (), t)"
    "ReadWithIntegrity (scr_base demo_area) (Scrambled_ecc_methods demo_area) 3 (word_of_nat 1) t = (Inr ?d, t)" by blast
  then show ?thesis by (intro exI [of _ t]) simp
qed

end
