(* ===== verification/Ordered_Map.thy ===== *)
theory Ordered_Map
  imports Outcome "HOL-Library.Char_ord" "HOL-Library.List_Lexorder"
begin

text \<open>
  \<open>std::map\<close> with \<open>std::string\<close> keys, as the classes that register memories and areas use it: an
  association list in ascending key order, which is the order of iteration.  Characters compare as
  unsigned bytes and strings lexicographically, as \<open>std::string\<close> does.  \<open>map_of\<close> is \<open>find\<close>.
\<close>

text \<open>\<open>m[key] = v\<close>, and \<open>m.emplace(key, v)\<close> for a key that is not there.\<close>

fun smap_put :: "'k::linorder \<Rightarrow> 'v \<Rightarrow> ('k \<times> 'v) list \<Rightarrow> ('k \<times> 'v) list" where
  "smap_put k v [] = [(k, v)]"
| "smap_put k v ((k', v') # m) =
     (if k < k' then (k, v) # (k', v') # m
      else if k = k' then (k, v) # m
      else (k', v') # smap_put k v m)"

definition smap_erase :: "'k::linorder \<Rightarrow> ('k \<times> 'v) list \<Rightarrow> ('k \<times> 'v) list" where
  "smap_erase k m = filter (\<lambda>e. fst e \<noteq> k) m"

definition ordered :: "('k::linorder \<times> 'v) list \<Rightarrow> bool" where
  "ordered m \<longleftrightarrow> sorted_wrt (<) (map fst m)"

lemma ordered_simps [simp]:
  "ordered []"
  "ordered ((k, v) # m) \<longleftrightarrow> (\<forall>k'\<in>fst ` set m. k < k') \<and> ordered m"
  by (auto simp: ordered_def)

lemma keys_put [simp]: "fst ` set (smap_put k v m) = insert k (fst ` set m)"
  by (induction k v m rule: smap_put.induct) auto

lemma set_put_fresh: "k \<notin> fst ` set m \<Longrightarrow> set (smap_put k v m) = insert (k, v) (set m)"
  by (induction k v m rule: smap_put.induct) auto

lemma ordered_put [simp]: "ordered m \<Longrightarrow> ordered (smap_put k v m)"
  by (induction k v m rule: smap_put.induct) auto

lemma ordered_erase [simp]: "ordered m \<Longrightarrow> ordered (smap_erase k m)"
  by (induction m) (auto simp: smap_erase_def)

lemma map_of_put [simp]: "ordered m \<Longrightarrow> map_of (smap_put k v m) = (map_of m)(k \<mapsto> v)"
proof (induction k v m rule: smap_put.induct)
  case (2 k v k' v' m)
  then show ?case by (auto simp: fun_eq_iff)
qed auto

lemma map_of_erase [simp]: "map_of (smap_erase k m) = (map_of m)(k := None)"
  by (induction m) (auto simp: smap_erase_def fun_eq_iff)

lemma ordered_distinct: "ordered m \<Longrightarrow> distinct (map fst m)"
  by (induction m) (auto simp: ordered_def)

lemma map_of_entry: "ordered m \<Longrightarrow> (k, v) \<in> set m \<longleftrightarrow> map_of m k = Some v"
  using ordered_distinct by fastforce

text \<open>Putting a fresh key in and taking it out again changes nothing.\<close>

lemma erase_put: "k \<notin> fst ` set m \<Longrightarrow> smap_erase k (smap_put k v m) = m"
  by (induction k v m rule: smap_put.induct) (auto simp: smap_erase_def filter_id_conv)

end
