(* ===== verification/Dpi_Memutil.thy ===== *)
theory Dpi_Memutil
  imports Scrambled_Ecc32_Mem_Area Staged_Mem Ordered_Map
begin

text \<open>
  \<open>dpi_memutil.cc\<close> and \<open>dpi_memutil.h\<close>: the registry of memory areas and the loading of ELF and vmem
  files into them.  What libelf reports about a file and what \<open>$readmemh\<close> does are parameters, collected
  in the record \<open>host\<close>; the messages printed when loading verbosely are left out.
  The theory shows that the registry keeps its invariant, that a segment is placed in the area that
  contains it, and that staging and flattening a file agree with overlaying its segments in order.
\<close>

section \<open>Files\<close>

datatype MemImageType = kMemImageUnknown | kMemImageElf | kMemImageVmem

text \<open>\<open>s.find_last_of(c)\<close>\<close>

definition find_last :: "char \<Rightarrow> string \<Rightarrow> nat option" where
  "find_last c s =
     (if c \<in> set s then Some (length s - 1 - length (takeWhile (\<lambda>x. x \<noteq> c) (rev s))) else None)"

definition GetMemImageTypeByName :: "string \<Rightarrow> MemImageType res" where
  "GetMemImageTypeByName name =
     (if name = ''elf'' then Inr kMemImageElf
      else if name = ''vmem'' then Inr kMemImageVmem
      else Inl (Throw (Runtime_error (Unknown_image_type name))))"

definition DetectMemImageType :: "string \<Rightarrow> MemImageType res" where
  "DetectMemImageType filepath =
     (let stem_pos = find_last CHR ''/'' filepath in
      case find_last CHR ''.'' filepath of
        None \<Rightarrow> Inr kMemImageElf
      | Some ext_pos \<Rightarrow>
          if (case stem_pos of None \<Rightarrow> False | Some p \<Rightarrow> ext_pos < p) then Inr kMemImageElf
          else
            let ext = drop (ext_pos + 1) filepath
            in res_bind (GetMemImageTypeByName ext) (\<lambda>image_type.
                 if image_type = kMemImageUnknown
                 then Inl (Throw (Runtime_error (Cannot_auto_detect filepath)))
                 else Inr image_type))"

definition GetMemImageType :: "string \<Rightarrow> string option \<Rightarrow> MemImageType res" where
  "GetMemImageType path type = (case type of Some t \<Rightarrow> GetMemImageTypeByName t | None \<Rightarrow> DetectMemImageType path)"

text \<open>The fields of \<open>Elf32_Phdr\<close> that are used, and \<open>PT_LOAD\<close> of \<open>elf.h\<close>.\<close>

record phdr =
  p_type :: u32
  p_offset :: u32
  p_paddr :: u32
  p_filesz :: u32

definition PT_LOAD :: u32 where
  "PT_LOAD = 1"

text \<open>The results of the calls to libelf and to \<open>open\<close>, for a path; an error comes with the message of
  \<open>elf_errmsg\<close>.\<close>

record host =
  elf_version_error :: "string option"
  can_open :: "string \<Rightarrow> bool"
  elf_begin_error :: "string \<Rightarrow> string option"
  elf_kind_elf :: "string \<Rightarrow> bool"
  elf_getphdrnum :: "string \<Rightarrow> string + nat"
  elf32_getphdr :: "string \<Rightarrow> string + phdr list"
  elf_rawfile :: "string \<Rightarrow> u8 list option"
  readmemh :: "string \<Rightarrow> sv_mem \<Rightarrow> sv_mem"

definition ElfError :: "string \<Rightarrow> elf_msg \<Rightarrow> fault" where
  "ElfError path msg = Throw (Elf_error path msg)"

definition ElfFile :: "host \<Rightarrow> string \<Rightarrow> unit res" where
  "ElfFile h path =
     (case elf_version_error h of Some msg \<Rightarrow> Inl (Throw (Runtime_error (Libelf_message msg))) | None \<Rightarrow>
      if \<not> can_open h path then Inl (ElfError path Could_not_open)
      else case elf_begin_error h path of Some msg \<Rightarrow> Inl (ElfError path (Elf_library msg)) | None \<Rightarrow>
      if \<not> elf_kind_elf h path then Inl (ElfError path Not_an_elf_file)
      else Inr ())"

definition GetPhdrNum :: "host \<Rightarrow> string \<Rightarrow> nat res" where
  "GetPhdrNum h path = (case elf_getphdrnum h path of Inl msg \<Rightarrow> Inl (ElfError path (Elf_library msg)) | Inr n \<Rightarrow> Inr n)"

definition GetPhdrs :: "host \<Rightarrow> string \<Rightarrow> phdr list res" where
  "GetPhdrs h path = (case elf32_getphdr h path of Inl msg \<Rightarrow> Inl (ElfError path (Elf_library msg)) | Inr ps \<Rightarrow> Inr ps)"

definition nth_phdr :: "phdr list \<Rightarrow> nat \<Rightarrow> phdr res" where
  "nth_phdr phdrs i = (if i < length phdrs then Inr (phdrs ! i) else Inl Undefined)"

text \<open>\<open>assert(file_data)\<close> after \<open>elf_rawfile\<close>\<close>

definition file_bytes :: "host \<Rightarrow> string \<Rightarrow> u8 list res" where
  "file_bytes h path = (case elf_rawfile h path of None \<Rightarrow> Inl Assert_failed | Some bs \<Rightarrow> Inr bs)"

text \<open>\<open>memcpy\<close> out of the file image.\<close>

definition segment_bytes :: "u8 list \<Rightarrow> phdr \<Rightarrow> u8 list res" where
  "segment_bytes file_data ph =
     (if unat (p_offset ph) + unat (p_filesz ph) \<le> length file_data
      then Inr (take (unat (p_filesz ph)) (drop (unat (p_offset ph)) file_data)) else Inl Undefined)"

section \<open>Flattening an ELF file\<close>

text \<open>The first loop, which finds the range of addresses: \<open>any\<close>, \<open>low\<close> and \<open>high\<close>.\<close>

definition bounds_step :: "string \<Rightarrow> phdr list \<Rightarrow> nat \<Rightarrow> bool \<times> u32 \<times> u32 \<Rightarrow> (bool \<times> u32 \<times> u32) res" where
  "bounds_step filepath phdrs i = (\<lambda>(any, low, high).
     res_bind (nth_phdr phdrs i) (\<lambda>ph.
     if p_type ph \<noteq> PT_LOAD then Inr (any, low, high)
     else if p_filesz ph = 0 then Inr (any, low, high)
     else
       let low = (if \<not> any \<or> p_paddr ph < low then p_paddr ph else low);
           seg_top = p_paddr ph + (p_filesz ph - 1)
       in if seg_top < p_paddr ph then Inl (ElfError filepath (Segment_overflows i (p_paddr ph) (p_filesz ph)))
          else Inr (True, low, if \<not> any \<or> high < seg_top then seg_top else high)))"

text \<open>The second loop.  \<open>p_offset + p_filesz\<close> is a sum of two \<open>Elf32_Word\<close>s and wraps around.\<close>

definition flatten_step :: "string \<Rightarrow> phdr list \<Rightarrow> u8 list \<Rightarrow> u32 \<Rightarrow> nat \<Rightarrow> staged_mem \<Rightarrow> staged_mem res" where
  "flatten_step filepath phdrs file_data low i ret =
     res_bind (nth_phdr phdrs i) (\<lambda>ph.
     if p_type ph \<noteq> PT_LOAD then Inr ret
     else if length file_data < unat (p_offset ph + p_filesz ph)
     then Inl (ElfError filepath (Segment_past_end i (unat (p_offset ph + p_filesz ph)) (length file_data)))
     else if p_filesz ph = 0 then Inr ret
     else res_bind (segment_bytes file_data ph) (\<lambda>seg. AddSegment (p_paddr ph - low) seg ret))"

definition FlattenElfFile :: "host \<Rightarrow> string \<Rightarrow> u8 list res" where
  "FlattenElfFile h filepath =
     res_bind (ElfFile h filepath) (\<lambda>_.
     res_bind (GetPhdrNum h filepath) (\<lambda>phnum.
     res_bind (GetPhdrs h filepath) (\<lambda>phdrs.
     res_bind (foldM (bounds_step filepath phdrs) [0..<phnum] (False, 0, 0)) (\<lambda>(any, low, high).
     if \<not> any then Inr []
     else if \<not> low \<le> high then Inl Assert_failed
     else res_bind (file_bytes h filepath) (\<lambda>file_data.
       res_bind (foldM (flatten_step filepath phdrs file_data low) [0..<phnum] StagedMem) GetFlat)))))"

section \<open>The registry\<close>

text \<open>A pointer to a \<open>MemArea\<close>, with the class of the object.\<close>

datatype any_area = Plain_area mem_area | Ecc32_area mem_area | Scrambled_area scr_area

fun area_base :: "any_area \<Rightarrow> mem_area" where
  "area_base (Plain_area a) = a"
| "area_base (Ecc32_area a) = a"
| "area_base (Scrambled_area a) = scr_base a"

fun area_methods :: "any_area \<Rightarrow> mem_methods" where
  "area_methods (Plain_area a) = MemArea_methods a"
| "area_methods (Ecc32_area a) = Ecc32MemArea_methods a"
| "area_methods (Scrambled_area a) = Scrambled_methods a"

definition area_Write :: "any_area \<Rightarrow> u32 \<Rightarrow> u8 list \<Rightarrow> unit action" where
  "area_Write a = MemArea_Write (area_base a) (area_methods a)"

fun area_LoadVmem :: "host \<Rightarrow> any_area \<Rightarrow> string \<Rightarrow> unit action" where
  "area_LoadVmem h (Plain_area a) path = MemArea_LoadVmem (readmemh h) a path"
| "area_LoadVmem h (Ecc32_area a) path = Ecc32MemArea_LoadVmem a path"
| "area_LoadVmem h (Scrambled_area a) path = Ecc32MemArea_LoadVmem (scr_base a) path"

record dpi_memutil =
  mem_areas :: "any_area list"
  base_addrs :: "u32 list"
  names :: "string list"
  name_to_mem :: "(string \<times> nat) list"
  addr_to_mem :: "(u32, nat) ranged_map"
  staging_area :: "(string \<times> staged_mem) list"

definition DpiMemUtil :: dpi_memutil where
  "DpiMemUtil = \<lparr>mem_areas = [], base_addrs = [], names = [], name_to_mem = [], addr_to_mem = [], staging_area = []\<rparr>"

text \<open>\<open>assert(*clash)\<close> tests the value found, an index.\<close>

definition RegisterMemoryArea :: "string \<Rightarrow> u32 \<Rightarrow> any_area \<Rightarrow> (dpi_memutil, unit) act" where
  "RegisterMemoryArea name base area d =
     (let items = GetSizeBytes (area_base area); addr_top = base + (items - 1) in
      if addr_top < base then (Inl (Throw (Runtime_error (Register_overflow name base items))), d)
      else
        let new_idx = length (mem_areas d) in
        case map_of (name_to_mem d) name of
          Some i \<Rightarrow>
            (if i < length (mem_areas d)
             then Inl (Throw (Runtime_error (Register_duplicate name (ma_scope (area_base area))
               (ma_scope (area_base (mem_areas d ! i))))))
             else Inl Undefined, d)
        | None \<Rightarrow>
            let d = d\<lparr>name_to_mem := smap_put name new_idx (name_to_mem d)\<rparr> in
            case EmplaceDisjoint base addr_top new_idx (addr_to_mem d) of
              Inl e \<Rightarrow> (Inl e, d)
            | Inr (m, Some clash) \<Rightarrow>
                if clash = 0 then (Inl Assert_failed, d)
                else (Inl (Throw (Runtime_error (Register_overlap name base))),
                      d\<lparr>name_to_mem := smap_erase name (name_to_mem d)\<rparr>)
            | Inr (m, None) \<Rightarrow>
                (Inr (), d\<lparr>addr_to_mem := m, mem_areas := mem_areas d @ [area],
                   base_addrs := base_addrs d @ [base], names := names d @ [name]\<rparr>))"

text \<open>One line per memory, in the order of the names: name, width in bits, scope, base and top.\<close>

definition region_line :: "dpi_memutil \<Rightarrow> string \<times> nat \<Rightarrow> (string \<times> u32 \<times> string \<times> u32 \<times> u32) res" where
  "region_line d = (\<lambda>(name, i).
     if \<not> i < length (mem_areas d) \<or> \<not> i < length (base_addrs d) then Inl Undefined
     else
       let mem = area_base (mem_areas d ! i); base = base_addrs d ! i;
           top = base + GetSizeBytes mem - 1
       in Inr (name, GetWidth mem, ma_scope mem, base, top))"

definition PrintMemRegions :: "dpi_memutil \<Rightarrow> (string \<times> u32 \<times> string \<times> u32 \<times> u32) list res" where
  "PrintMemRegions d =
     foldM (\<lambda>pr out. res_bind (region_line d pr) (\<lambda>l. Inr (out @ [l]))) (name_to_mem d) []"

definition GetMemoryData :: "dpi_memutil \<Rightarrow> string \<Rightarrow> staged_mem" where
  "GetMemoryData d mem_name =
     (case map_of (staging_area d) mem_name of None \<Rightarrow> StagedMem | Some sm \<Rightarrow> sm)"

definition GetRegionForSegment :: "dpi_memutil \<Rightarrow> string \<Rightarrow> nat \<Rightarrow> u32 \<Rightarrow> u32 \<Rightarrow> nat res" where
  "GetRegionForSegment d path seg_idx lma mem_sz =
     (if \<not> 0 < mem_sz then Inl Assert_failed
      else
        let it = find_addr (addr_to_mem d) lma in
        if it = length (addr_to_mem d) then Inl (ElfError path (No_region_for lma seg_idx))
        else
          let idx = snd (addr_to_mem d ! it) in
          if \<not> idx < length (mem_areas d) \<or> \<not> idx < length (base_addrs d) \<or> \<not> idx < length (names d)
          then Inl Undefined
          else
            let mem_area = area_base (mem_areas d ! idx); base_addr = base_addrs d ! idx in
            if \<not> base_addr \<le> lma then Inl Assert_failed
            else
              let lma_top = lma + (mem_sz - 1) in
              if lma_top < lma then Inl (ElfError path (Segment_top_overflow seg_idx))
              else
                let local_base = lma - base_addr; local_top = lma_top - base_addr in
                if GetSizeBytes mem_area \<le> local_top
                then Inl (ElfError path (Segment_too_large seg_idx mem_sz lma local_base (names d ! idx) local_top
                  (GetSizeBytes mem_area)))
                else Inr idx)"

section \<open>Staging an ELF file\<close>

text \<open>One turn of the loop of \<open>StageElf\<close>.  \<open>staging_area_[name]\<close> makes an entry when there is none.\<close>

definition stage_segment :: "string \<Rightarrow> u8 list \<Rightarrow> phdr list \<Rightarrow> nat \<Rightarrow> unit \<Rightarrow> (dpi_memutil, unit) act" where
  "stage_segment path file_data phdrs i = (\<lambda>_.
     act_bind (act_lift (nth_phdr phdrs i)) (\<lambda>ph.
     if p_type ph \<noteq> PT_LOAD then act_return ()
     else if p_filesz ph = 0 then act_return ()
     else
       act_bind (act_read (\<lambda>d. d)) (\<lambda>d.
       act_bind (act_lift (GetRegionForSegment d path i (p_paddr ph) (p_filesz ph))) (\<lambda>idx.
       let mem_area = area_base (mem_areas d ! idx); name = names d ! idx;
           local_base = p_paddr ph - base_addrs d ! idx
       in
       if GetWidthByte mem_area = 0 then act_fail Undefined
       else if local_base mod GetWidthByte mem_area \<noteq> 0
       then act_fail (ElfError path (Segment_misaligned i (p_paddr ph) local_base name (GetWidth mem_area)))
       else
         let off_end = unat (p_offset ph) + unat (p_filesz ph) in
         if length file_data < off_end
         then act_fail (ElfError path (Segment_past_end i (off_end - 1) (length file_data)))
         else
           act_bind (act_lift (segment_bytes file_data ph)) (\<lambda>vec.
           let staged_mem = GetMemoryData d name in
           act_bind (\<lambda>d. (Inr (), d\<lparr>staging_area := smap_put name staged_mem (staging_area d)\<rparr>)) (\<lambda>_.
           act_bind (act_lift (AddSegment local_base vec staged_mem)) (\<lambda>staged_mem d.
           (Inr (), d\<lparr>staging_area := smap_put name staged_mem (staging_area d)\<rparr>))))))))"

definition StageElf :: "host \<Rightarrow> string \<Rightarrow> (dpi_memutil, unit) act" where
  "StageElf h path =
     act_bind (\<lambda>d. (Inr (), d\<lparr>staging_area := []\<rparr>)) (\<lambda>_.
     act_bind (act_lift (ElfFile h path)) (\<lambda>_.
     act_bind (act_lift (file_bytes h path)) (\<lambda>file_data.
     act_bind (act_lift (GetPhdrNum h path)) (\<lambda>phnum.
     act_bind (act_lift (GetPhdrs h path)) (\<lambda>phdrs.
     act_loop (stage_segment path file_data phdrs) [0..<phnum] ())))))"

section \<open>Loading\<close>

text \<open>\<open>catch (const SVScoped::Error &err)\<close>\<close>

definition catch_scope :: "(string \<Rightarrow> runtime_msg) \<Rightarrow> 'a action \<Rightarrow> 'a action" where
  "catch_scope msg m s =
     (case m s of
        (Inl (Throw (Scope_error scope_name)), t) \<Rightarrow> (Inl (Throw (Runtime_error (msg scope_name))), t)
      | r \<Rightarrow> r)"

definition LoadFileToNamedMem :: "host \<Rightarrow> dpi_memutil \<Rightarrow> string \<Rightarrow> string \<Rightarrow> MemImageType \<Rightarrow> unit action" where
  "LoadFileToNamedMem h d name filepath type =
     act_bind (act_lift (if type = kMemImageUnknown then DetectMemImageType filepath else Inr type)) (\<lambda>type.
     act_bind (act_assert (type \<noteq> kMemImageUnknown)) (\<lambda>_.
     case map_of (name_to_mem d) name of
       None \<Rightarrow> act_fail (Throw (Runtime_error (Unknown_memory name)))
     | Some i \<Rightarrow>
         if \<not> i < length (mem_areas d) then act_fail Undefined
         else
           let m = mem_areas d ! i
           in catch_scope (\<lambda>scope_name. No_memory_at scope_name name)
                (case type of
                   kMemImageElf \<Rightarrow> act_bind (act_lift (FlattenElfFile h filepath)) (area_Write m 0)
                 | kMemImageVmem \<Rightarrow> area_LoadVmem h m filepath
                 | kMemImageUnknown \<Rightarrow> act_fail Assert_failed)))"

text \<open>One segment, then all segments of a staged memory, then all staged memories.\<close>

definition load_segment :: "dpi_memutil \<Rightarrow> string \<Rightarrow> nat \<Rightarrow> u32 addr_range \<times> u8 list \<Rightarrow> unit \<Rightarrow> unit action" where
  "load_segment d mem_name i = (\<lambda>(seg_rng, seg_data) _.
     let mem_area = mem_areas d ! i; width = GetWidthByte (area_base mem_area) in
     if width = 0 then act_fail Undefined
     else act_bind (act_assert (rng_lo seg_rng mod width = 0)) (\<lambda>_.
       let lo_word = rng_lo seg_rng div width
       in catch_scope (\<lambda>scope_name. No_memory_at_lma scope_name mem_name (base_addrs d ! i + rng_lo seg_rng))
            (area_Write mem_area lo_word seg_data)))"

definition load_staged :: "dpi_memutil \<Rightarrow> string \<times> staged_mem \<Rightarrow> unit \<Rightarrow> unit action" where
  "load_staged d = (\<lambda>(mem_name, staged_mem) _.
     case map_of (name_to_mem d) mem_name of
       None \<Rightarrow> act_fail Assert_failed
     | Some i \<Rightarrow>
         if \<not> i < length (mem_areas d) \<or> \<not> i < length (base_addrs d) then act_fail Undefined
         else act_loop (load_segment d mem_name i) (segs staged_mem) ())"

definition LoadElfToMemories :: "host \<Rightarrow> string \<Rightarrow> (dpi_memutil \<times> sim, unit) act" where
  "LoadElfToMemories h filepath = (\<lambda>(d, s).
     case StageElf h filepath d of
       (Inl e, d) \<Rightarrow> (Inl e, (d, s))
     | (Inr _, d) \<Rightarrow> (case act_loop (load_staged d) (staging_area d) () s of (r, s) \<Rightarrow> (r, (d, s))))"

section \<open>The registry's invariant\<close>

definition area_bytes :: "dpi_memutil \<Rightarrow> nat \<Rightarrow> u32" where
  "area_bytes d i = GetSizeBytes (area_base (mem_areas d ! i))"

definition area_range :: "dpi_memutil \<Rightarrow> nat \<Rightarrow> u32 addr_range" where
  "area_range d i = AddrRange (base_addrs d ! i) (base_addrs d ! i + (area_bytes d i - 1))"

text \<open>The vectors have the same length, the names are different, the two maps say where each name and
  each address range is, and the ranges are disjoint.\<close>

definition registry_ok :: "dpi_memutil \<Rightarrow> bool" where
  "registry_ok d \<longleftrightarrow>
     length (base_addrs d) = length (mem_areas d) \<and> length (names d) = length (mem_areas d) \<and>
     distinct (names d) \<and> ordered (name_to_mem d) \<and>
     set (name_to_mem d) = set (zip (names d) [0..<length (names d)]) \<and>
     disjoint_sorted (addr_to_mem d) \<and>
     set (addr_to_mem d) = set (map (\<lambda>i. (area_range d i, i)) [0..<length (mem_areas d)])"

lemma registry_name:
  assumes "registry_ok d"
  shows "map_of (name_to_mem d) name = Some i \<longleftrightarrow> i < length (mem_areas d) \<and> names d ! i = name"
    and "map_of (name_to_mem d) name = None \<longleftrightarrow> name \<notin> set (names d)"
proof -
  have "map_of (name_to_mem d) name = Some i \<longleftrightarrow> (name, i) \<in> set (zip (names d) [0..<length (names d)])"
    using assms map_of_entry [of "name_to_mem d" name i] by (simp add: registry_ok_def)
  also have "\<dots> \<longleftrightarrow> i < length (mem_areas d) \<and> names d ! i = name"
    using assms by (auto simp: set_zip registry_ok_def)
  finally show "map_of (name_to_mem d) name = Some i \<longleftrightarrow> i < length (mem_areas d) \<and> names d ! i = name" .
  have "fst ` set (name_to_mem d) = set (map fst (zip (names d) [0..<length (names d)]))"
    using assms unfolding registry_ok_def set_map by (elim conjE) (simp only:)
  moreover have "map fst (zip (names d) [0..<length (names d)]) = names d" by simp
  ultimately have "fst ` set (name_to_mem d) = set (names d)" by (simp only:)
  then show "map_of (name_to_mem d) name = None \<longleftrightarrow> name \<notin> set (names d)"
    by (simp add: map_of_eq_None_iff)
qed

lemma registry_entry:
  assumes "registry_ok d"
  shows "(r, i) \<in> set (addr_to_mem d) \<longleftrightarrow> i < length (mem_areas d) \<and> r = area_range d i"
proof -
  have "set (addr_to_mem d) = set (map (\<lambda>i. (area_range d i, i)) [0..<length (mem_areas d)])"
    using assms unfolding registry_ok_def by blast
  then show ?thesis by auto
qed

lemma registry_range:
  assumes "registry_ok d" and "i < length (mem_areas d)"
  shows "base_addrs d ! i \<le> base_addrs d ! i + (area_bytes d i - 1)"
  using disjoint_sorted_valid [of "addr_to_mem d" "(area_range d i, i)"] assms registry_entry [OF assms(1)]
  by (simp add: registry_ok_def area_range_def)

lemma registry_disjoint:
  assumes "registry_ok d" and "i < length (mem_areas d)" and "j < length (mem_areas d)"
    and "covers (area_range d i) x" and "covers (area_range d j) x"
  shows "i = j"
proof -
  obtain k where k: "k < length (addr_to_mem d)" "addr_to_mem d ! k = (area_range d i, i)"
    using registry_entry [OF assms(1), of "area_range d i" i] assms(2) by (auto simp: in_set_conv_nth)
  obtain l where l: "l < length (addr_to_mem d)" "addr_to_mem d ! l = (area_range d j, j)"
    using registry_entry [OF assms(1), of "area_range d j" j] assms(3) by (auto simp: in_set_conv_nth)
  have "k = l"
    using disjoint_sorted_unique [of "addr_to_mem d" k l x] assms k l by (simp add: registry_ok_def)
  then show ?thesis using k l by simp
qed

lemma registry_empty: "registry_ok DpiMemUtil"
  by (simp add: registry_ok_def DpiMemUtil_def)

text \<open>The object after a registration.\<close>

definition register_area :: "string \<Rightarrow> u32 \<Rightarrow> any_area \<Rightarrow> (u32, nat) ranged_map \<Rightarrow> dpi_memutil \<Rightarrow> dpi_memutil" where
  "register_area name base area m d =
     d\<lparr>name_to_mem := smap_put name (length (mem_areas d)) (name_to_mem d), addr_to_mem := m,
       mem_areas := mem_areas d @ [area], base_addrs := base_addrs d @ [base], names := names d @ [name]\<rparr>"

lemma registry_register:
  assumes reg: "registry_ok d" and name: "name \<notin> set (names d)" and m: "disjoint_sorted m"
    and entries: "set m = insert (AddrRange base (base + (GetSizeBytes (area_base area) - 1)), length (mem_areas d))
      (set (addr_to_mem d))"
  shows "registry_ok (register_area name base area m d)"
proof -
  let ?d = "register_area name base area m d" and ?n = "length (mem_areas d)"
  have len: "length (base_addrs d) = ?n" "length (names d) = ?n" using reg by (simp_all add: registry_ok_def)
  have old: "area_range ?d i = area_range d i" if "i < ?n" for i
    using that len by (simp add: register_area_def area_range_def area_bytes_def nth_append)
  have new: "area_range ?d ?n = AddrRange base (base + (GetSizeBytes (area_base area) - 1))"
    using len by (simp add: register_area_def area_range_def area_bytes_def nth_append)
  have "set m = set (map (\<lambda>i. (area_range ?d i, i)) [0..<length (mem_areas ?d)])"
    unfolding entries new [symmetric] using reg old by (auto simp: registry_ok_def register_area_def)
  moreover have "set (smap_put name ?n (name_to_mem d)) = insert (name, ?n) (set (name_to_mem d))"
  proof -
    have "ordered (name_to_mem d)" "name \<notin> fst ` set (name_to_mem d)"
      using reg name registry_name(2) [OF reg, of name] by (auto simp: registry_ok_def map_of_eq_None_iff)
    then show ?thesis by (intro set_put_fresh)
  qed
  ultimately show ?thesis
    using reg name m len by (auto simp: registry_ok_def register_area_def zip_append1)
qed

lemma RegisterMemoryArea_cases:
  fixes base :: u32 and area :: any_area
  assumes reg: "registry_ok d"
  defines "tp \<equiv> base + (GetSizeBytes (area_base area) - 1)"
  shows "tp < base \<Longrightarrow> RegisterMemoryArea name base area d =
      (Inl (Throw (Runtime_error (Register_overflow name base (GetSizeBytes (area_base area))))), d)"
    and "base \<le> tp \<Longrightarrow> i < length (mem_areas d) \<Longrightarrow> names d ! i = name \<Longrightarrow>
      RegisterMemoryArea name base area d =
      (Inl (Throw (Runtime_error (Register_duplicate name (ma_scope (area_base area))
        (ma_scope (area_base (mem_areas d ! i)))))), d)"
    and "base \<le> tp \<Longrightarrow> name \<notin> set (names d) \<Longrightarrow> i < length (mem_areas d) \<Longrightarrow> overlaps (area_range d i) (AddrRange base tp) \<Longrightarrow>
      \<exists>j<length (mem_areas d). overlaps (area_range d j) (AddrRange base tp) \<and>
        RegisterMemoryArea name base area d =
        (if j = 0 then (Inl Assert_failed, d\<lparr>name_to_mem := smap_put name (length (mem_areas d)) (name_to_mem d)\<rparr>)
         else (Inl (Throw (Runtime_error (Register_overlap name base))), d))"
    and "base \<le> tp \<Longrightarrow> name \<notin> set (names d) \<Longrightarrow> \<forall>i<length (mem_areas d). \<not> overlaps (area_range d i) (AddrRange base tp) \<Longrightarrow>
      \<exists>m. RegisterMemoryArea name base area d = (Inr (), register_area name base area m d) \<and>
          registry_ok (register_area name base area m d)"
proof -
  note def = RegisterMemoryArea_def [of name base area d, folded tp_def, unfolded Let_def]
  have dis: "disjoint_sorted (addr_to_mem d)" using reg by (simp add: registry_ok_def)
  show "RegisterMemoryArea name base area d =
      (Inl (Throw (Runtime_error (Register_overflow name base (GetSizeBytes (area_base area))))), d)" if "tp < base"
    using that by (simp add: RegisterMemoryArea_def Let_def tp_def)
  show "RegisterMemoryArea name base area d =
      (Inl (Throw (Runtime_error (Register_duplicate name (ma_scope (area_base area))
        (ma_scope (area_base (mem_areas d ! i)))))), d)"
    if "base \<le> tp" "i < length (mem_areas d)" "names d ! i = name"
    using that registry_name(1) [OF reg, of name i] by (simp add: RegisterMemoryArea_def Let_def tp_def)
  { assume b: "base \<le> tp" and name: "name \<notin> set (names d)"
    have none: "map_of (name_to_mem d) name = None" using registry_name(2) [OF reg] name by simp
    then have fresh: "smap_erase name (smap_put name k (name_to_mem d)) = name_to_mem d" for k
      by (intro erase_put) (simp add: map_of_eq_None_iff)
    have step: "RegisterMemoryArea name base area d =
      (case EmplaceDisjoint base tp (length (mem_areas d)) (addr_to_mem d) of
         Inl e \<Rightarrow> (Inl e, d\<lparr>name_to_mem := smap_put name (length (mem_areas d)) (name_to_mem d)\<rparr>)
       | Inr (m, Some clash) \<Rightarrow>
           if clash = 0 then (Inl Assert_failed, d\<lparr>name_to_mem := smap_put name (length (mem_areas d)) (name_to_mem d)\<rparr>)
           else (Inl (Throw (Runtime_error (Register_overlap name base))), d)
       | Inr (m, None) \<Rightarrow> (Inr (), register_area name base area m d))"
      using b none fresh by (auto simp: RegisterMemoryArea_def Let_def tp_def register_area_def
        split: sum.split prod.split option.split)
    { assume i: "i < length (mem_areas d)" "overlaps (area_range d i) (AddrRange base tp)"
      then have "\<exists>e\<in>set (addr_to_mem d). overlaps (fst e) (AddrRange base tp)"
        using registry_entry [OF reg, of "area_range d i" i] by (metis fst_conv)
      from EmplaceDisjoint_clash [OF dis b this] obtain r j where
        "(r, j) \<in> set (addr_to_mem d)" "overlaps r (AddrRange base tp)"
        "EmplaceDisjoint base tp (length (mem_areas d)) (addr_to_mem d) = Inr (addr_to_mem d, Some j)" by blast
      then show "\<exists>j<length (mem_areas d). overlaps (area_range d j) (AddrRange base tp) \<and>
          RegisterMemoryArea name base area d =
          (if j = 0 then (Inl Assert_failed, d\<lparr>name_to_mem := smap_put name (length (mem_areas d)) (name_to_mem d)\<rparr>)
           else (Inl (Throw (Runtime_error (Register_overlap name base))), d))"
        using registry_entry [OF reg, of r j] step by (intro exI [of _ j]) simp }
    { assume free: "\<forall>i<length (mem_areas d). \<not> overlaps (area_range d i) (AddrRange base tp)"
      have "\<forall>e\<in>set (addr_to_mem d). \<not> overlaps (fst e) (AddrRange base tp)"
        using free registry_entry [OF reg] by (metis prod.collapse)
      from EmplaceDisjoint_free [OF dis b this] obtain m where
        "EmplaceDisjoint base tp (length (mem_areas d)) (addr_to_mem d) = Inr (m, None)" "disjoint_sorted m"
        "set m = insert (AddrRange base tp, length (mem_areas d)) (set (addr_to_mem d))" by blast
      then show "\<exists>m. RegisterMemoryArea name base area d = (Inr (), register_area name base area m d) \<and>
          registry_ok (register_area name base area m d)"
        using step registry_register [OF reg name] by (auto simp: tp_def) }
  }
qed

section \<open>Finding the area of a segment\<close>

text \<open>The segment lies within area \<open>i\<close>.\<close>

definition seg_in :: "dpi_memutil \<Rightarrow> nat \<Rightarrow> u32 \<Rightarrow> u32 \<Rightarrow> bool" where
  "seg_in d i lma sz \<longleftrightarrow> unat (base_addrs d ! i) \<le> unat lma \<and>
     unat lma + unat sz \<le> unat (base_addrs d ! i) + unat (area_bytes d i)"

lemma top_nat:
  assumes "(base :: u32) \<le> base + (sz - 1)" and "0 < sz"
  shows "unat (base + (sz - 1)) = unat base + (unat sz - 1)"
proof -
  have "unat (sz - 1) = unat sz - 1" using assms(2) by (simp add: unat_minus_one word_neq_0_conv)
  moreover have "unat (base + (sz - 1)) = unat base + unat (sz - 1)"
    using assms(1) unat_plus_simple [of base "sz - 1"] by simp
  ultimately show ?thesis by simp
qed

lemma seg_in_covers:
  assumes reg: "registry_ok d" "i < length (mem_areas d)" and seg: "seg_in d i lma sz" "0 < sz"
  shows "covers (area_range d i) x \<longleftrightarrow> unat (base_addrs d ! i) \<le> unat x \<and> unat x < unat (base_addrs d ! i) + unat (area_bytes d i)"
    and "covers (area_range d i) lma" and "unat (area_bytes d i) + unat (base_addrs d ! i) \<le> 2 ^ 32"
proof -
  have sz: "0 < unat sz" using seg(2) by (simp add: word_less_nat_alt)
  then have pos: "0 < area_bytes d i" using seg(1) by (auto simp: seg_in_def word_less_nat_alt)
  note top = top_nat [OF registry_range [OF reg] pos]
  have p: "0 < unat (area_bytes d i)" using pos by (simp add: word_less_nat_alt)
  show cov: "covers (area_range d i) x \<longleftrightarrow> unat (base_addrs d ! i) \<le> unat x \<and> unat x < unat (base_addrs d ! i) + unat (area_bytes d i)" for x
    using p by (auto simp: covers_def area_range_def word_le_nat_alt top)
  show "covers (area_range d i) lma" using cov [of lma] seg sz by (simp add: seg_in_def)
  show "unat (area_bytes d i) + unat (base_addrs d ! i) \<le> 2 ^ 32"
    using u32_less [of "base_addrs d ! i + (area_bytes d i - 1)"] top p by linarith
qed

lemma GetRegionForSegment_in:
  assumes reg: "registry_ok d" "i < length (mem_areas d)" and seg: "seg_in d i lma sz" "0 < sz"
  shows "GetRegionForSegment d path k lma sz = Inr i"
proof -
  have len: "length (base_addrs d) = length (mem_areas d)" "length (names d) = length (mem_areas d)"
    "disjoint_sorted (addr_to_mem d)" using reg(1) by (simp_all add: registry_ok_def)
  obtain j where j: "j < length (addr_to_mem d)" "addr_to_mem d ! j = (area_range d i, i)"
    using registry_entry [OF reg(1), of "area_range d i" i] reg(2) by (auto simp: in_set_conv_nth)
  have find: "find_addr (addr_to_mem d) lma = j"
    using find_addr_eq [OF len(3) j(1)] seg_in_covers(2) [OF reg seg] j(2) by simp
  have le: "base_addrs d ! i \<le> lma" using seg(1) by (simp add: seg_in_def word_le_nat_alt)
  have sz: "0 < unat sz" using seg(2) by (simp add: word_less_nat_alt)
  have bound: "unat lma + unat sz \<le> 2 ^ 32"
    using seg(1) seg_in_covers(3) [OF reg seg] by (simp add: seg_in_def)
  have m1: "unat (sz - 1) = unat sz - 1" using seg(2) by (simp add: unat_minus_one word_neq_0_conv)
  have "unat lma + unat (sz - 1) < 2 ^ 32" unfolding m1 using bound sz by linarith
  then have top: "unat (lma + (sz - 1)) = unat lma + (unat sz - 1)"
    using m1 unat_add_lem [of lma "sz - 1"] by simp
  then have "lma \<le> lma + (sz - 1)" by (simp add: word_le_nat_alt)
  moreover have "unat (lma + (sz - 1) - base_addrs d ! i) = unat lma + (unat sz - 1) - unat (base_addrs d ! i)"
    using le top calculation by (subst unat_diff) (auto simp: word_le_nat_alt)
  then have "\<not> area_bytes d i \<le> lma + (sz - 1) - base_addrs d ! i"
    using seg(1) sz by (auto simp: seg_in_def word_le_nat_alt)
  ultimately show ?thesis
    using find j reg(2) len le seg(2) by (simp add: GetRegionForSegment_def Let_def area_bytes_def not_less)
qed

lemma GetRegionForSegment_out:
  assumes reg: "registry_ok d" and out: "\<forall>i<length (mem_areas d). \<not> seg_in d i lma sz" and sz: "0 < sz"
  shows "\<exists>msg. GetRegionForSegment d path k lma sz = Inl (ElfError path msg)"
proof -
  have len: "length (base_addrs d) = length (mem_areas d)" "length (names d) = length (mem_areas d)"
    "disjoint_sorted (addr_to_mem d)" using reg(1) by (simp_all add: registry_ok_def)
  let ?j = "find_addr (addr_to_mem d) lma"
  show ?thesis
  proof (cases "?j = length (addr_to_mem d)")
    case True
    then show ?thesis using sz by (auto simp: GetRegionForSegment_def Let_def)
  next
    case False
    then have j: "?j < length (addr_to_mem d)" "covers (fst (addr_to_mem d ! ?j)) lma"
      using find_addr_correct [OF len(3), of lma] by auto
    obtain r i where e: "addr_to_mem d ! ?j = (r, i)" by (cases "addr_to_mem d ! ?j")
    then have i: "i < length (mem_areas d)" "r = area_range d i"
      using registry_entry [OF reg, of r i] j(1) by (metis nth_mem)+
    have le: "base_addrs d ! i \<le> lma" using j(2) e i by (simp add: covers_def area_range_def)
    have m1: "unat (sz - 1) = unat sz - 1" "0 < unat sz"
      using sz by (simp_all add: unat_minus_one word_neq_0_conv word_less_nat_alt)
    have "area_bytes d i \<le> lma + (sz - 1) - base_addrs d ! i" if ov: "lma \<le> lma + (sz - 1)"
    proof -
      have top: "unat (lma + (sz - 1)) = unat lma + (unat sz - 1)"
        using ov unat_plus_simple [of lma "sz - 1"] m1 by simp
      have "unat (lma + (sz - 1) - base_addrs d ! i) = unat lma + (unat sz - 1) - unat (base_addrs d ! i)"
        using le top ov by (subst unat_diff) (auto simp: word_le_nat_alt)
      then show ?thesis
        using out i(1) le m1(2) by (auto simp: seg_in_def word_le_nat_alt)
    qed
    then show ?thesis
      using e i(1) len le sz False by (auto simp: GetRegionForSegment_def Let_def area_bytes_def not_less)
  qed
qed

section \<open>The image of a file\<close>

definition loadable :: "phdr \<Rightarrow> bool" where
  "loadable p \<longleftrightarrow> p_type p = PT_LOAD \<and> p_filesz p \<noteq> 0"

definition ph_bytes :: "u8 list \<Rightarrow> phdr \<Rightarrow> u8 list" where
  "ph_bytes raw p = take (unat (p_filesz p)) (drop (unat (p_offset p)) raw)"

text \<open>The abstract content of a file: its loadable segments laid over each other in file order.\<close>

definition elf_image :: "u8 list \<Rightarrow> phdr list \<Rightarrow> byte_mem" where
  "elf_image raw phs = fold (\<lambda>p b. if loadable p then b ++ seg_bytes (p_paddr p) (ph_bytes raw p) else b) phs Map.empty"

lemma elf_image_snoc: "elf_image raw (phs @ [p]) =
    (if loadable p then elf_image raw phs ++ seg_bytes (p_paddr p) (ph_bytes raw p) else elf_image raw phs)"
  by (simp add: elf_image_def)

text \<open>What area \<open>i\<close> sees of it, by offset.\<close>

definition view :: "dpi_memutil \<Rightarrow> nat \<Rightarrow> byte_mem \<Rightarrow> byte_mem" where
  "view d i m = (\<lambda>x. if x < area_bytes d i then m (base_addrs d ! i + x) else None)"

lemma view_empty [simp]: "view d i Map.empty = Map.empty"
  by (simp add: view_def fun_eq_iff)

lemma view_add: "view d i (m ++ n) = view d i m ++ view d i n"
  by (auto simp: view_def map_add_def fun_eq_iff)

lemma view_seg:
  assumes reg: "registry_ok d" "i < length (mem_areas d)" and seg: "seg_in d i lma sz" "0 < sz" "length bs = unat sz"
    and j: "j < length (mem_areas d)"
  shows "view d j (seg_bytes lma bs) = (if j = i then seg_bytes (lma - base_addrs d ! i) bs else Map.empty)"
proof
  fix x
  let ?b = "base_addrs d ! j"
  show "view d j (seg_bytes lma bs) x = (if j = i then seg_bytes (lma - base_addrs d ! i) bs else Map.empty) x"
  proof (cases "x < area_bytes d j")
    case True
    then have pos: "0 < area_bytes d j" by (rule le_less_trans [OF word_zero_le])
    note top = top_nat [OF registry_range [OF reg(1) j] pos]
    have x: "unat x < unat (area_bytes d j)" using True by (simp add: word_less_nat_alt)
    then have "unat ?b + unat x < 2 ^ 32"
      using top u32_less [of "?b + (area_bytes d j - 1)"] by linarith
    then have y: "unat (?b + x) = unat ?b + unat x" using unat_add_lem [of ?b x] by simp
    show ?thesis
    proof (cases "j = i")
      case True
      have "unat (lma - ?b) = unat lma - unat ?b" "unat ?b \<le> unat lma"
        using seg(1) True by (simp_all add: seg_in_def unat_diff word_le_nat_alt)
      then show ?thesis using True \<open>x < area_bytes d j\<close> y by (auto simp: view_def seg_bytes_nat add.commute)
    next
      case False
      have "covers (area_range d j) (?b + x)"
        using x y by (simp add: covers_def area_range_def word_le_nat_alt top)
      then have "\<not> covers (area_range d i) (?b + x)"
        using registry_disjoint [OF reg(1) reg(2) j] False by blast
      then have "seg_bytes lma bs (?b + x) = None"
        unfolding seg_bytes_nat seg_in_covers(1) [OF reg seg(1,2)] using seg(1,3) unfolding seg_in_def by simp linarith
      then show ?thesis using False True by (simp add: view_def)
    qed
  next
    case False
    show ?thesis
    proof (cases "j = i")
      case True
      have "seg_bytes (lma - base_addrs d ! i) bs x = None"
        using seg False True by (auto simp: seg_in_def seg_bytes_nat unat_diff word_le_nat_alt word_less_nat_alt)
      then show ?thesis using False True by (simp add: view_def)
    qed (use False in \<open>simp add: view_def\<close>)
  qed
qed

section \<open>Staging\<close>

text \<open>The segment lies in one of the areas, at a multiple of its width, and within the file.\<close>

definition placeable_at :: "dpi_memutil \<Rightarrow> u8 list \<Rightarrow> phdr \<Rightarrow> nat \<Rightarrow> bool" where
  "placeable_at d raw p i \<longleftrightarrow> seg_in d i (p_paddr p) (p_filesz p) \<and>
     (p_paddr p - base_addrs d ! i) mod ma_width_byte (area_base (mem_areas d ! i)) = 0 \<and>
     unat (p_offset p) + unat (p_filesz p) \<le> length raw"

definition placeable :: "dpi_memutil \<Rightarrow> u8 list \<Rightarrow> phdr \<Rightarrow> bool" where
  "placeable d raw p \<longleftrightarrow> list_ex (placeable_at d raw p) [0..<length (mem_areas d)]"

definition staging_ok :: "dpi_memutil \<Rightarrow> bool" where
  "staging_ok d \<longleftrightarrow> ordered (staging_area d) \<and> fst ` set (staging_area d) \<subseteq> set (names d) \<and>
     list_all (\<lambda>e. staged_inv (snd e)) (staging_area d)"

definition widths_ok :: "dpi_memutil \<Rightarrow> bool" where
  "widths_ok d \<longleftrightarrow> list_all (\<lambda>a. ma_width_byte (area_base a) \<noteq> 0) (mem_areas d)"

text \<open>What is staged for each memory starts at multiples of its width, and ends at them for the memories
  that \<open>full\<close> says.\<close>

definition area_width :: "dpi_memutil \<Rightarrow> nat \<Rightarrow> nat" where
  "area_width d i = unat (ma_width_byte (area_base (mem_areas d ! i)))"

definition staged_aligned :: "(nat \<Rightarrow> bool) \<Rightarrow> dpi_memutil \<Rightarrow> bool" where
  "staged_aligned full d \<longleftrightarrow> list_all (\<lambda>i. list_all (\<lambda>e. aligned_seg (area_width d i) (full i) (fst e) (snd e))
     (segs (GetMemoryData d (names d ! i)))) [0..<length (mem_areas d)]"

text \<open>The segment is a number of whole words of such a memory.\<close>

definition whole_words :: "(nat \<Rightarrow> bool) \<Rightarrow> dpi_memutil \<Rightarrow> u8 list \<Rightarrow> phdr \<Rightarrow> bool" where
  "whole_words full d raw p \<longleftrightarrow>
     list_all (\<lambda>i. full i \<and> placeable_at d raw p i \<longrightarrow> unat (p_filesz p) mod area_width d i = 0) [0..<length (mem_areas d)]"

lemma staging_frame [simp]:
  "registry_ok (d\<lparr>staging_area := st\<rparr>) = registry_ok d"
  "area_bytes (d\<lparr>staging_area := st\<rparr>) = area_bytes d"
  "view (d\<lparr>staging_area := st\<rparr>) = view d"
  "seg_in (d\<lparr>staging_area := st\<rparr>) = seg_in d"
  "placeable (d\<lparr>staging_area := st\<rparr>) = placeable d"
  "widths_ok (d\<lparr>staging_area := st\<rparr>) = widths_ok d"
  "area_width (d\<lparr>staging_area := st\<rparr>) = area_width d"
  "whole_words full (d\<lparr>staging_area := st\<rparr>) = whole_words full d"
  by (simp_all add: registry_ok_def area_range_def area_bytes_def view_def seg_in_def placeable_def placeable_at_def
    widths_ok_def area_width_def whole_words_def fun_eq_iff cong: list_ex_cong)

lemma GetMemoryData_put:
  "ordered (staging_area d) \<Longrightarrow> GetMemoryData (d\<lparr>staging_area := smap_put name sm (staging_area d)\<rparr>) n =
    (if n = name then sm else GetMemoryData d n)"
  by (simp add: GetMemoryData_def)

lemma staged_inv_data: "staging_ok d \<Longrightarrow> staged_inv (GetMemoryData d n)"
  by (auto simp: GetMemoryData_def staging_ok_def staged_inv_empty list_all_iff split: option.split dest!: map_of_SomeD)

lemma staging_put:
  assumes "staging_ok d" and "name \<in> set (names d)" and "staged_inv sm"
  shows "staging_ok (d\<lparr>staging_area := smap_put name sm (staging_area d)\<rparr>)"
proof -
  have "set (smap_put name sm m) \<subseteq> insert (name, sm) (set m)" for m :: "(string \<times> staged_mem) list"
    by (induction name sm m rule: smap_put.induct) auto
  then show ?thesis using assms by (fastforce simp: staging_ok_def list_all_iff)
qed

lemma stage_segment_skip:
  "i < length phdrs \<Longrightarrow> \<not> loadable (phdrs ! i) \<Longrightarrow> stage_segment path raw phdrs i u d = (Inr (), d)"
  by (auto simp: stage_segment_def nth_phdr_def loadable_def act_return_def)

lemma stage_segment_place:
  assumes reg: "registry_ok d" "widths_ok d" "staging_ok d" and i: "i < length phdrs"
    and p: "loadable (phdrs ! i)" "placeable d raw (phdrs ! i)"
  shows "\<exists>st. stage_segment path raw phdrs i u d = (Inr (), d\<lparr>staging_area := st\<rparr>) \<and> staging_ok (d\<lparr>staging_area := st\<rparr>) \<and>
    (\<forall>j<length (mem_areas d). staged_bytes (GetMemoryData (d\<lparr>staging_area := st\<rparr>) (names d ! j)) =
       staged_bytes (GetMemoryData d (names d ! j)) ++
         view d j (seg_bytes (p_paddr (phdrs ! i)) (ph_bytes raw (phdrs ! i)))) \<and>
    (staged_aligned full d \<longrightarrow> whole_words full d raw (phdrs ! i) \<longrightarrow> staged_aligned full (d\<lparr>staging_area := st\<rparr>))"
proof -
  let ?p = "phdrs ! i" and ?bs = "ph_bytes raw (phdrs ! i)"
  obtain k where k: "k < length (mem_areas d)" "placeable_at d raw ?p k"
    using p(2) by (auto simp: placeable_def list_ex_iff)
  have pos: "0 < p_filesz ?p" using p(1) by (simp add: loadable_def word_gt_0)
  have at: "seg_in d k (p_paddr ?p) (p_filesz ?p)" "unat (p_offset ?p) + unat (p_filesz ?p) \<le> length raw"
    using k(2) by (simp_all add: placeable_at_def)
  have len: "length ?bs = unat (p_filesz ?p)" using at(2) by (simp add: ph_bytes_def)
  have lens: "length (names d) = length (mem_areas d)" and dist: "distinct (names d)"
    using reg(1) by (simp_all add: registry_ok_def)
  let ?name = "names d ! k" and ?lb = "p_paddr ?p - base_addrs d ! k"
  let ?sm = "GetMemoryData d ?name"
  have "unat ?lb + length ?bs \<le> unat (area_bytes d k)"
    using at(1) len by (auto simp: seg_in_def unat_diff word_le_nat_alt)
  then have fits: "fits32 ?lb ?bs" using u32_less [of "area_bytes d k"] by (simp add: fits32_def)
  from AddSegment_refines [OF staged_inv_data [OF reg(3)] this, of ?name]
  obtain sm' where sm': "AddSegment ?lb ?bs ?sm = Inr sm'" "staged_inv sm'"
    "staged_bytes sm' = staged_bytes ?sm ++ seg_bytes ?lb ?bs" by blast
  define st where "st = smap_put ?name sm' (staging_area d)"
  have ord: "ordered (staging_area d)" using reg(3) by (simp add: staging_ok_def)
  have twice: "smap_put ?name sm' (smap_put ?name ?sm m) = smap_put ?name sm' m" for m :: "(string \<times> staged_mem) list"
    by (induction ?name ?sm m rule: smap_put.induct) auto
  have width: "GetWidthByte (area_base (mem_areas d ! k)) \<noteq> 0"
    using reg(2) k(1) by (auto simp: widths_ok_def list_all_iff GetWidthByte_def)
  have "stage_segment path raw phdrs i u d = (Inr (), d\<lparr>staging_area := st\<rparr>)"
    using i p(1) GetRegionForSegment_in [OF reg(1) k(1) at(1) pos, of path i] width k(2) at(2) sm'(1)
    by (simp add: stage_segment_def nth_phdr_def loadable_def act_bind_def act_read_def act_lift_def Let_def
      placeable_at_def GetWidthByte_def segment_bytes_def ph_bytes_def [symmetric] twice st_def)
  moreover have "staging_ok (d\<lparr>staging_area := st\<rparr>)"
    unfolding st_def using staging_put [OF reg(3) _ sm'(2)] k(1) lens by simp
  moreover have "staged_bytes (GetMemoryData (d\<lparr>staging_area := st\<rparr>) (names d ! j)) =
       staged_bytes (GetMemoryData d (names d ! j)) ++ view d j (seg_bytes (p_paddr ?p) ?bs)"
    if j: "j < length (mem_areas d)" for j
  proof -
    have "names d ! j = ?name \<longleftrightarrow> j = k" using dist j k(1) lens by (simp add: nth_eq_iff_index_eq)
    then show ?thesis
      using view_seg [OF reg(1) k(1) at(1) pos len j] GetMemoryData_put [OF ord, of ?name sm' "names d ! j"] sm'(3)
      by (auto simp: st_def)
  qed
  moreover have "staged_aligned full (d\<lparr>staging_area := st\<rparr>)"
    if al: "staged_aligned full d" and whole: "whole_words full d raw ?p"
  proof -
    have "list_all (\<lambda>e. aligned_seg (area_width d k) (full k) (fst e) (snd e)) (segs sm')"
    proof (rule AddSegment_aligned [OF sm'(1)])
      show "disjoint_sorted (segs ?sm)" using staged_inv_data [OF reg(3)] by (simp add: staged_inv_def)
      show "list_all (\<lambda>e. aligned_seg (area_width d k) (full k) (fst e) (snd e)) (segs ?sm)"
        using al k(1) by (simp add: staged_aligned_def list_all_iff)
      have "?lb mod ma_width_byte (area_base (mem_areas d ! k)) = 0" using k(2) by (simp add: placeable_at_def)
      then show "unat ?lb mod area_width d k = 0" by (metis area_width_def unat_0 unat_mod)
      show "full k \<longrightarrow> length ?bs mod area_width d k = 0"
        using whole k len by (simp add: whole_words_def list_all_iff)
    qed (rule fits)
    then show ?thesis
      using al dist lens k(1) GetMemoryData_put [OF ord, of ?name sm']
      by (auto simp: staged_aligned_def list_all_iff st_def nth_eq_iff_index_eq)
  qed
  ultimately show ?thesis by blast
qed

lemma stage_segment_bad:
  assumes reg: "registry_ok d" "widths_ok d" and i: "i < length phdrs"
    and p: "loadable (phdrs ! i)" "\<not> placeable d raw (phdrs ! i)"
  shows "\<exists>msg. stage_segment path raw phdrs i u d = (Inl (ElfError path msg), d)"
proof -
  let ?p = "phdrs ! i"
  have pos: "0 < p_filesz ?p" using p(1) by (simp add: loadable_def word_gt_0)
  show ?thesis
  proof (cases "\<exists>k<length (mem_areas d). seg_in d k (p_paddr ?p) (p_filesz ?p)")
    case True
    then obtain k where k: "k < length (mem_areas d)" "seg_in d k (p_paddr ?p) (p_filesz ?p)" by blast
    then have "\<not> placeable_at d raw ?p k" using p(2) by (auto simp: placeable_def list_ex_iff)
    moreover have "ma_width_byte (area_base (mem_areas d ! k)) \<noteq> 0"
      using reg(2) k(1) by (auto simp: widths_ok_def list_all_iff)
    ultimately show ?thesis
      using i p(1) GetRegionForSegment_in [OF reg(1) k pos, of path i] k
      by (auto simp: stage_segment_def nth_phdr_def loadable_def act_bind_def act_read_def act_lift_def Let_def
        placeable_at_def GetWidthByte_def act_fail_def)
  next
    case False
    then show ?thesis
      using i p(1) GetRegionForSegment_out [OF reg(1) _ pos, of "p_paddr ?p" path i]
      by (auto simp: stage_segment_def nth_phdr_def loadable_def act_bind_def act_read_def act_lift_def act_fail_def)
  qed
qed

definition staged_view :: "dpi_memutil \<Rightarrow> byte_mem \<Rightarrow> bool" where
  "staged_view d m \<longleftrightarrow> list_all (\<lambda>j. staged_bytes (GetMemoryData d (names d ! j)) = view d j m) [0..<length (mem_areas d)]"

lemma stage_loop:
  assumes reg: "registry_ok d" "widths_ok d" and n: "n \<le> length phdrs"
    and ok: "\<forall>p\<in>set (take n phdrs). loadable p \<longrightarrow> placeable d raw p"
  shows "\<exists>st. act_loop (stage_segment path raw phdrs) [0..<n] () (d\<lparr>staging_area := []\<rparr>) =
      (Inr (), d\<lparr>staging_area := st\<rparr>) \<and> staging_ok (d\<lparr>staging_area := st\<rparr>) \<and>
      staged_view (d\<lparr>staging_area := st\<rparr>) (elf_image raw (take n phdrs)) \<and>
      (list_all (\<lambda>p. loadable p \<longrightarrow> whole_words full d raw p) (take n phdrs) \<longrightarrow>
        staged_aligned full (d\<lparr>staging_area := st\<rparr>))"
proof -
  define P where "P i (u :: unit) d' \<longleftrightarrow> (\<exists>st. d' = d\<lparr>staging_area := st\<rparr> \<and> staging_ok d' \<and>
    staged_view d' (elf_image raw (take i phdrs)) \<and>
    (list_all (\<lambda>p. loadable p \<longrightarrow> whole_words full d raw p) (take i phdrs) \<longrightarrow> staged_aligned full d'))" for i u d'
  have "\<exists>y t. act_loop (stage_segment path raw phdrs) [0..<n] () (d\<lparr>staging_area := []\<rparr>) = (Inr y, t) \<and> P n y t"
  proof (rule act_loop_rule)
    show "P 0 () (d\<lparr>staging_area := []\<rparr>)"
      by (auto simp: P_def staging_ok_def staged_view_def list_all_iff GetMemoryData_def staged_bytes_empty elf_image_def
        staged_aligned_def segs_empty)
  next
    fix i u d'
    assume i: "0 \<le> i" "i < n" and P: "P i u d'"
    then obtain st where st: "d' = d\<lparr>staging_area := st\<rparr>" "staging_ok d'"
      "staged_view d' (elf_image raw (take i phdrs))"
      "list_all (\<lambda>p. loadable p \<longrightarrow> whole_words full d raw p) (take i phdrs) \<Longrightarrow> staged_aligned full d'"
      by (auto simp: P_def)
    have i': "i < length phdrs" using i n by simp
    have snoc: "take (Suc i) phdrs = take i phdrs @ [phdrs ! i]" using i' by (rule take_Suc_conv_app_nth)
    show "\<exists>y t. stage_segment path raw phdrs i u d' = (Inr y, t) \<and> P (Suc i) y t"
    proof (cases "loadable (phdrs ! i)")
      case False
      then show ?thesis
        using stage_segment_skip [OF i' False, of path raw u d'] st by (auto simp: P_def snoc elf_image_snoc)
    next
      case True
      have "phdrs ! i \<in> set (take n phdrs)" using i i' by (auto simp: in_set_conv_nth intro!: exI [of _ i])
      then have "placeable d' raw (phdrs ! i)" using ok True st(1) by simp
      then obtain st' where "stage_segment path raw phdrs i u d' = (Inr (), d'\<lparr>staging_area := st'\<rparr>)"
        "staging_ok (d'\<lparr>staging_area := st'\<rparr>)"
        "\<And>j. j < length (mem_areas d') \<Longrightarrow> staged_bytes (GetMemoryData (d'\<lparr>staging_area := st'\<rparr>) (names d' ! j)) =
         staged_bytes (GetMemoryData d' (names d' ! j)) ++
           view d' j (seg_bytes (p_paddr (phdrs ! i)) (ph_bytes raw (phdrs ! i)))"
        "staged_aligned full d' \<Longrightarrow> whole_words full d' raw (phdrs ! i) \<Longrightarrow> staged_aligned full (d'\<lparr>staging_area := st'\<rparr>)"
        using stage_segment_place [OF _ _ st(2) i' True, of raw path u full] reg st(1) by auto
      then show ?thesis
        using st True by (auto simp: P_def snoc elf_image_snoc view_add staged_view_def list_all_iff)
    qed
  qed simp
  then show ?thesis by (auto simp: P_def)
qed

lemma stage_loop_bad:
  assumes reg: "registry_ok d" "widths_ok d" and n: "n \<le> length phdrs"
    and bad: "\<exists>p\<in>set (take n phdrs). loadable p \<and> \<not> placeable d raw p"
  shows "\<exists>msg st. act_loop (stage_segment path raw phdrs) [0..<n] () (d\<lparr>staging_area := []\<rparr>) =
      (Inl (ElfError path msg), d\<lparr>staging_area := st\<rparr>)"
proof -
  let ?B = "\<lambda>i. i < n \<and> loadable (phdrs ! i) \<and> \<not> placeable d raw (phdrs ! i)"
  define k where "k = (LEAST i. ?B i)"
  obtain i where "?B i" using bad n by (auto simp: in_set_conv_nth)
  then have k: "?B k" unfolding k_def by (rule LeastI)
  have "\<forall>p\<in>set (take k phdrs). loadable p \<longrightarrow> placeable d raw p"
    using not_less_Least [of _ ?B] k n by (auto simp: in_set_conv_nth k_def [symmetric])
  then obtain st where st: "act_loop (stage_segment path raw phdrs) [0..<k] () (d\<lparr>staging_area := []\<rparr>) =
      (Inr (), d\<lparr>staging_area := st\<rparr>)"
    using stage_loop [OF reg, of k phdrs raw path] k n by auto
  obtain msg where "stage_segment path raw phdrs k () (d\<lparr>staging_area := st\<rparr>) = (Inl (ElfError path msg), d\<lparr>staging_area := st\<rparr>)"
    using stage_segment_bad [of "d\<lparr>staging_area := st\<rparr>" k phdrs raw path "()"] reg k n by auto
  moreover have "[0..<n] = [0..<k] @ k # [Suc k..<n]"
    using k upt_add_eq_append [of 0 k "n - k"] by (simp add: upt_conv_Cons)
  ultimately show ?thesis
    using st by (simp add: act_loop_append act_bind_def) blast
qed

section \<open>Flattening\<close>

text \<open>A file that libelf can open, its bytes and its program headers.\<close>

definition opens :: "host \<Rightarrow> string \<Rightarrow> u8 list \<Rightarrow> nat \<Rightarrow> phdr list \<Rightarrow> bool" where
  "opens h path raw n phdrs \<longleftrightarrow> ElfFile h path = Inr () \<and> elf_rawfile h path = Some raw \<and>
     elf_getphdrnum h path = Inr n \<and> elf32_getphdr h path = Inr phdrs \<and> n \<le> length phdrs"

lemma opens_run:
  assumes "opens h path raw n phdrs"
  shows "ElfFile h path = Inr ()" "file_bytes h path = Inr raw" "GetPhdrNum h path = Inr n"
    "GetPhdrs h path = Inr phdrs" "n \<le> length phdrs"
  using assms by (simp_all add: opens_def file_bytes_def GetPhdrNum_def GetPhdrs_def)

lemma elf_image_dom:
  "y \<in> dom (elf_image raw phs) \<longleftrightarrow> (\<exists>p\<in>set phs. loadable p \<and> y \<in> dom (seg_bytes (p_paddr p) (ph_bytes raw p)))"
proof (induction phs rule: rev_induct)
  case (snoc p phs)
  then show ?case by (auto simp: elf_image_snoc)
qed (simp add: elf_image_def)

lemma bounds_loop:
  assumes n: "n \<le> length phdrs"
    and fit: "\<forall>p\<in>set (take n phdrs). loadable p \<longrightarrow> unat (p_paddr p) + unat (p_filesz p) \<le> 2 ^ 32"
  shows "\<exists>r. foldM (bounds_step path phdrs) [0..<n] (False, 0, 0) = Inr r \<and>
    (fst r \<longleftrightarrow> (\<exists>p\<in>set (take n phdrs). loadable p)) \<and>
    (\<forall>p\<in>set (take n phdrs). loadable p \<longrightarrow> fst (snd r) \<le> p_paddr p \<and> p_paddr p \<le> snd (snd r)) \<and>
    (fst r \<longrightarrow> (\<exists>p\<in>set (take n phdrs). loadable p \<and> p_paddr p = fst (snd r)))"
proof (rule foldM_upt_rule [where P = "\<lambda>i r. (fst r \<longleftrightarrow> (\<exists>p\<in>set (take i phdrs). loadable p)) \<and>
    (\<forall>p\<in>set (take i phdrs). loadable p \<longrightarrow> fst (snd r) \<le> p_paddr p \<and> p_paddr p \<le> snd (snd r)) \<and>
    (fst r \<longrightarrow> (\<exists>p\<in>set (take i phdrs). loadable p \<and> p_paddr p = fst (snd r)))"])
  fix i and r :: "bool \<times> u32 \<times> u32"
  assume i: "0 \<le> i" "i < n" and P: "(fst r \<longleftrightarrow> (\<exists>p\<in>set (take i phdrs). loadable p)) \<and>
    (\<forall>p\<in>set (take i phdrs). loadable p \<longrightarrow> fst (snd r) \<le> p_paddr p \<and> p_paddr p \<le> snd (snd r)) \<and>
    (fst r \<longrightarrow> (\<exists>p\<in>set (take i phdrs). loadable p \<and> p_paddr p = fst (snd r)))"
  obtain any low high where r: "r = (any, low, high)" by (cases r) auto
  let ?p = "phdrs ! i"
  have i': "i < length phdrs" using i n by simp
  have snoc: "set (take (Suc i) phdrs) = insert ?p (set (take i phdrs))"
    using take_Suc_conv_app_nth [OF i'] by auto
  show "\<exists>r'. bounds_step path phdrs i r = Inr r' \<and> (fst r' \<longleftrightarrow> (\<exists>p\<in>set (take (Suc i) phdrs). loadable p)) \<and>
    (\<forall>p\<in>set (take (Suc i) phdrs). loadable p \<longrightarrow> fst (snd r') \<le> p_paddr p \<and> p_paddr p \<le> snd (snd r')) \<and>
    (fst r' \<longrightarrow> (\<exists>p\<in>set (take (Suc i) phdrs). loadable p \<and> p_paddr p = fst (snd r')))"
  proof (cases "loadable ?p")
    case False
    then have "bounds_step path phdrs i r = Inr r"
      using i' r by (auto simp: bounds_step_def nth_phdr_def loadable_def)
    then show ?thesis using P False unfolding snoc by auto
  next
    case True
    have "?p \<in> set (take n phdrs)" using i i' by (auto simp: in_set_conv_nth intro!: exI [of _ i])
    then have "unat (p_paddr ?p) + unat (p_filesz ?p) \<le> 2 ^ 32" using fit True by blast
    moreover have sz: "unat (p_filesz ?p - 1) = unat (p_filesz ?p) - 1" "0 < unat (p_filesz ?p)"
      using True by (simp_all add: loadable_def unat_minus_one unat_gt_0)
    ultimately have "unat (p_paddr ?p) + unat (p_filesz ?p - 1) < 2 ^ 32" by linarith
    then have "unat (p_paddr ?p + (p_filesz ?p - 1)) = unat (p_paddr ?p) + unat (p_filesz ?p - 1)"
      using unat_add_lem [of "p_paddr ?p"] by simp
    then have top: "p_paddr ?p \<le> p_paddr ?p + (p_filesz ?p - 1)" by (simp add: word_le_nat_alt)
    define low' where "low' = (if \<not> any \<or> p_paddr ?p < low then p_paddr ?p else low)"
    define high' where "high' = (if \<not> any \<or> high < p_paddr ?p + (p_filesz ?p - 1) then p_paddr ?p + (p_filesz ?p - 1) else high)"
    have "bounds_step path phdrs i r = Inr (True, low', high')"
      using True i' top r by (simp add: bounds_step_def nth_phdr_def loadable_def Let_def low'_def high'_def)
    moreover have "low' \<le> p_paddr ?p" "p_paddr ?p \<le> high'" "any \<Longrightarrow> low' \<le> low" "any \<Longrightarrow> high \<le> high'"
      using top by (auto simp: low'_def high'_def)
    moreover have "\<exists>p\<in>insert ?p (set (take i phdrs)). loadable p \<and> p_paddr p = low'"
      using P r True by (auto simp: low'_def)
    ultimately show ?thesis
      using P r True unfolding snoc by (auto intro: order_trans)
  qed
qed simp_all

definition rebase :: "u32 \<Rightarrow> byte_mem \<Rightarrow> byte_mem" where
  "rebase low m = (\<lambda>x. if low \<le> low + x then m (low + x) else None)"

lemma rebase_add: "rebase low (m ++ n) = rebase low m ++ rebase low n"
  by (auto simp: rebase_def map_add_def fun_eq_iff)

lemma rebase_seg:
  assumes "low \<le> lma" and "unat lma + length bs \<le> 2 ^ 32"
  shows "rebase low (seg_bytes lma bs) = seg_bytes (lma - low) bs"
proof
  fix x
  have low: "unat low \<le> unat lma" "unat (lma - low) = unat lma - unat low"
    using assms(1) by (simp_all add: word_le_nat_alt unat_diff)
  show "rebase low (seg_bytes lma bs) x = seg_bytes (lma - low) bs x"
  proof (cases "low \<le> low + x")
    case True
    then have "unat (low + x) = unat low + unat x" using unat_plus_simple [of low x] by simp
    then show ?thesis using True low by (auto simp: rebase_def seg_bytes_nat add.commute)
  next
    case False
    then have "2 ^ 32 \<le> unat low + unat x"
      using no_olen_add_nat [of low x] by simp
    then show ?thesis using False low assms(2) by (auto simp: rebase_def seg_bytes_nat)
  qed
qed

lemma flatten_loop:
  assumes n: "n \<le> length phdrs" and raw: "length raw < 2 ^ 32"
    and inside: "\<forall>p\<in>set (take n phdrs). p_type p = PT_LOAD \<longrightarrow> unat (p_offset p) + unat (p_filesz p) \<le> length raw"
    and fit: "\<forall>p\<in>set (take n phdrs). loadable p \<longrightarrow> low \<le> p_paddr p \<and> unat (p_paddr p) + unat (p_filesz p) < 2 ^ 32"
  shows "\<exists>sm. foldM (flatten_step path phdrs raw low) [0..<n] StagedMem = Inr sm \<and> staged_inv sm \<and>
    staged_bytes sm = rebase low (elf_image raw (take n phdrs))"
proof -
  have "\<exists>sm. foldM (flatten_step path phdrs raw low) [0..<n] StagedMem = Inr sm \<and> (staged_inv sm \<and>
    staged_bytes sm = rebase low (elf_image raw (take n phdrs)))"
  proof (rule foldM_upt_rule [where P = "\<lambda>i sm. staged_inv sm \<and> staged_bytes sm = rebase low (elf_image raw (take i phdrs))"])
    show "staged_inv StagedMem \<and> staged_bytes StagedMem = rebase low (elf_image raw (take 0 phdrs))"
      by (simp add: staged_inv_empty staged_bytes_empty elf_image_def rebase_def fun_eq_iff)
  next
    fix i sm
    assume i: "0 \<le> i" "i < n" and P: "staged_inv sm \<and> staged_bytes sm = rebase low (elf_image raw (take i phdrs))"
    let ?p = "phdrs ! i"
    have i': "i < length phdrs" using i n by simp
    have snoc: "take (Suc i) phdrs = take i phdrs @ [?p]" using i' by (rule take_Suc_conv_app_nth)
    have mem: "?p \<in> set (take n phdrs)" using i i' by (auto simp: in_set_conv_nth intro!: exI [of _ i])
    show "\<exists>sm'. flatten_step path phdrs raw low i sm = Inr sm' \<and>
        (staged_inv sm' \<and> staged_bytes sm' = rebase low (elf_image raw (take (Suc i) phdrs)))"
    proof (cases "p_type ?p = PT_LOAD")
      case False
      then show ?thesis using P i' by (simp add: flatten_step_def nth_phdr_def snoc elf_image_snoc loadable_def)
    next
      case True
      have off: "unat (p_offset ?p) + unat (p_filesz ?p) \<le> length raw" using inside mem True by blast
      then have sum: "unat (p_offset ?p + p_filesz ?p) = unat (p_offset ?p) + unat (p_filesz ?p)"
        using raw unat_add_lem [of "p_offset ?p" "p_filesz ?p"] by simp
      show ?thesis
      proof (cases "p_filesz ?p = 0")
        case True
        then show ?thesis using P i' off \<open>p_type ?p = PT_LOAD\<close>
          by (simp add: flatten_step_def nth_phdr_def snoc elf_image_snoc loadable_def sum)
      next
        case False
        then have load: "loadable ?p" using True by (simp add: loadable_def)
        have len: "length (ph_bytes raw ?p) = unat (p_filesz ?p)" using off by (simp add: ph_bytes_def)
        have p: "low \<le> p_paddr ?p" "unat (p_paddr ?p) + unat (p_filesz ?p) < 2 ^ 32" using fit mem load by blast+
        have "fits32 (p_paddr ?p - low) (ph_bytes raw ?p)"
          using p len by (simp add: fits32_def unat_diff)
        from AddSegment_refines [OF _ this, of sm] P obtain sm' where
          "AddSegment (p_paddr ?p - low) (ph_bytes raw ?p) sm = Inr sm'" "staged_inv sm'"
          "staged_bytes sm' = staged_bytes sm ++ seg_bytes (p_paddr ?p - low) (ph_bytes raw ?p)" by blast
        then show ?thesis
          using P i' off load True False p len rebase_seg [OF p(1), of "ph_bytes raw ?p"]
          by (auto simp: flatten_step_def nth_phdr_def sum segment_bytes_def ph_bytes_def [symmetric] snoc
            elf_image_snoc rebase_add)
      qed
    qed
  qed simp
  then show ?thesis by blast
qed

lemma FlattenElfFile_image:
  assumes op: "opens h path raw n phdrs" and raw: "length raw < 2 ^ 32"
    and inside: "\<forall>p\<in>set (take n phdrs). p_type p = PT_LOAD \<longrightarrow> unat (p_offset p) + unat (p_filesz p) \<le> length raw"
    and fit: "\<forall>p\<in>set (take n phdrs). loadable p \<longrightarrow> unat (p_paddr p) + unat (p_filesz p) < 2 ^ 32"
    and some: "\<exists>p\<in>set (take n phdrs). loadable p"
  defines "img \<equiv> elf_image raw (take n phdrs)"
  shows "\<exists>low high bs. FlattenElfFile h path = Inr bs \<and> low \<in> dom img \<and> high \<in> dom img \<and> dom img \<subseteq> {low..high} \<and>
    length bs = 1 + unat (high - low) \<and>
    (\<forall>x. low \<le> x \<and> x \<le> high \<longrightarrow> bs ! unat (x - low) = (case img x of None \<Rightarrow> 0 | Some b \<Rightarrow> b))"
proof -
  note run = opens_run [OF op]
  have le: "\<forall>p\<in>set (take n phdrs). loadable p \<longrightarrow> unat (p_paddr p) + unat (p_filesz p) \<le> 2 ^ 32"
    using fit by (auto intro: less_imp_le)
  obtain r where r: "foldM (bounds_step path phdrs) [0..<n] (False, 0, 0) = Inr r"
    "fst r \<longleftrightarrow> (\<exists>p\<in>set (take n phdrs). loadable p)"
    "\<forall>p\<in>set (take n phdrs). loadable p \<longrightarrow> fst (snd r) \<le> p_paddr p \<and> p_paddr p \<le> snd (snd r)"
    "fst r \<longrightarrow> (\<exists>p\<in>set (take n phdrs). loadable p \<and> p_paddr p = fst (snd r))"
    using bounds_loop [OF run(5) le, of path] by blast
  obtain any low high0 where r3: "r = (any, low, high0)" by (cases r) auto
  have b: "foldM (bounds_step path phdrs) [0..<n] (False, 0, 0) = Inr (any, low, high0)" "any"
    "\<And>p. p \<in> set (take n phdrs) \<Longrightarrow> loadable p \<Longrightarrow> low \<le> p_paddr p \<and> p_paddr p \<le> high0"
    "\<exists>p\<in>set (take n phdrs). loadable p \<and> p_paddr p = low"
    using r some by (simp_all add: r3)
  have "low \<le> high0" using b(3) some by (meson order_trans)
  obtain sm where sm: "foldM (flatten_step path phdrs raw low) [0..<n] StagedMem = Inr sm" "staged_inv sm"
    "staged_bytes sm = rebase low img"
    using flatten_loop [OF run(5) raw inside, of low path] b(3) fit unfolding img_def by blast
  have nonempty: "y \<in> dom (seg_bytes (p_paddr p) (ph_bytes raw p)) \<longleftrightarrow>
      unat (p_paddr p) \<le> unat y \<and> unat y < unat (p_paddr p) + unat (p_filesz p)"
    if "p \<in> set (take n phdrs)" "loadable p" for p y
  proof -
    have "unat (p_offset p) + unat (p_filesz p) \<le> length raw" using inside that by (simp add: loadable_def)
    then have "length (ph_bytes raw p) = unat (p_filesz p)" by (simp add: ph_bytes_def)
    then show ?thesis by (simp add: domIff seg_bytes_nat)
  qed
  have low_dom: "low \<in> dom img"
  proof -
    obtain p where p: "p \<in> set (take n phdrs)" "loadable p" "p_paddr p = low" using b(4) by blast
    moreover have "0 < unat (p_filesz p)" using p(2) by (simp add: loadable_def unat_gt_0)
    ultimately have "low \<in> dom (seg_bytes (p_paddr p) (ph_bytes raw p))" by (subst nonempty) simp_all
    then show ?thesis using p unfolding img_def elf_image_dom by blast
  qed
  have above: "low \<le> y" if "y \<in> dom img" for y
    using that b(3) nonempty unfolding img_def elf_image_dom by (meson order_trans word_le_nat_alt)
  have staged: "y - low \<in> dom (staged_bytes sm)" if "y \<in> dom img" for y
    using that above [OF that] by (auto simp: sm(3) rebase_def)
  have zero: "0 \<in> dom (staged_bytes sm)" using staged [OF low_dom] by simp
  then have ne: "segs sm \<noteq> []" by (auto simp: staged_bytes_def)
  have inv: "min_addr sm \<in> dom (staged_bytes sm)" "max_addr sm \<in> dom (staged_bytes sm)"
    "dom (staged_bytes sm) \<subseteq> {min_addr sm..max_addr sm}" using sm(2) ne by (simp_all add: staged_inv_def)
  have min0: "min_addr sm = 0" using inv(3) zero by (metis atLeastAtMost_iff subset_iff word_le_0_iff)
  obtain bs where bs: "GetFlat sm = Inr bs" "length bs = 1 + unat (max_addr sm)"
    "\<And>x. x \<le> max_addr sm \<Longrightarrow> bs ! unat x = (case staged_bytes sm x of None \<Rightarrow> 0 | Some b \<Rightarrow> b)"
    using GetFlat_bytes [OF sm(2) ne] by (auto simp: min0)
  define high where "high = low + max_addr sm"
  have high: "low \<le> high" "high \<in> dom img" "high - low = max_addr sm"
    using inv(2) by (auto simp: sm(3) rebase_def high_def split: if_splits)
  have shift: "x - low \<le> max_addr sm \<longleftrightarrow> x \<le> high" if "low \<le> x" for x
  proof -
    have "unat high = unat low + unat (max_addr sm)"
      using high(1) unat_plus_simple [of low "max_addr sm"] by (simp add: high_def)
    then show ?thesis using that unat_diff [OF that] unfolding word_le_nat_alt by linarith
  qed
  have "dom img \<subseteq> {low..high}"
  proof
    fix y assume y: "y \<in> dom img"
    have "y - low \<le> max_addr sm" using staged [OF y] inv(3) by (meson atLeastAtMost_iff subsetD)
    then show "y \<in> {low..high}" using shift [OF above [OF y]] above [OF y] by simp
  qed
  moreover have "bs ! unat (x - low) = (case img x of None \<Rightarrow> 0 | Some b \<Rightarrow> b)" if "low \<le> x" "x \<le> high" for x
    using bs(3) [of "x - low"] shift that by (simp add: sm(3) rebase_def)
  moreover have "FlattenElfFile h path = Inr bs"
    using run b(1,2) \<open>low \<le> high0\<close> sm(1) bs(1) by (simp add: FlattenElfFile_def)
  ultimately show ?thesis using low_dom high bs(2) by (intro exI [of _ low] exI [of _ high] exI [of _ bs]) simp
qed

section \<open>Properties\<close>

text \<open>C11: Registering a memory area has one of three outcomes.  It succeeds and keeps the registry's invariant
  exactly when the range does not wrap around, the name is new and no registered range overlaps the new
  one.  Otherwise it throws and the object is as before, or, and only for a new name and a range that
  overlaps the area registered first, the assertion on the index of the clashing area fails, where
  \<open>dpi_memutil.h\<close> documents a \<open>std::runtime_error\<close>; it always fails when that is the only area that the
  range overlaps.\<close>

theorem register_memory_area_spec:
  assumes "registry_ok d" and "tp = base + (GetSizeBytes (area_base area) - 1)"
    and "free \<longleftrightarrow> base \<le> tp \<and> name \<notin> set (names d) \<and>
      (\<forall>i<length (mem_areas d). \<not> overlaps (area_range d i) (AddrRange base tp))"
  shows "case RegisterMemoryArea name base area d of
      (Inr _, d') \<Rightarrow> free \<and> registry_ok d' \<and> mem_areas d' = mem_areas d @ [area] \<and> base_addrs d' = base_addrs d @ [base] \<and>
        names d' = names d @ [name] \<and> staging_area d' = staging_area d
    | (Inl (Throw e), d') \<Rightarrow> \<not> free \<and> d' = d \<and> (\<exists>msg. e = Runtime_error msg) \<and>
        \<not> (base \<le> tp \<and> name \<notin> set (names d) \<and>
           (\<forall>i<length (mem_areas d). overlaps (area_range d i) (AddrRange base tp) \<longleftrightarrow> i = 0))
    | (Inl Assert_failed, _) \<Rightarrow> \<not> free \<and> base \<le> tp \<and> name \<notin> set (names d) \<and> mem_areas d \<noteq> [] \<and>
        overlaps (area_range d 0) (AddrRange base tp)
    | (Inl Undefined, _) \<Rightarrow> False"
proof -
  note cases = RegisterMemoryArea_cases [OF assms(1), where base = base and area = area and name = name, folded assms(2)]
  consider "tp < base" | "base \<le> tp" "name \<in> set (names d)"
    | i where "base \<le> tp" "name \<notin> set (names d)" "i < length (mem_areas d)" "overlaps (area_range d i) (AddrRange base tp)"
    | "base \<le> tp" "name \<notin> set (names d)" "\<forall>i<length (mem_areas d). \<not> overlaps (area_range d i) (AddrRange base tp)"
    using not_less by blast
  then show ?thesis
  proof cases
    case 1
    then have "\<not> base \<le> tp" by simp
    then show ?thesis using cases(1) [OF 1] assms(3) by simp
  next
    case 2
    then obtain i where "i < length (mem_areas d)" "names d ! i = name"
      using assms(1) by (auto simp: registry_ok_def in_set_conv_nth)
    then show ?thesis using cases(2) 2 assms(3) by simp
  next
    case 3
    obtain j where j: "j < length (mem_areas d)" "overlaps (area_range d j) (AddrRange base tp)"
      "RegisterMemoryArea name base area d =
        (if j = 0 then (Inl Assert_failed, d\<lparr>name_to_mem := smap_put name (length (mem_areas d)) (name_to_mem d)\<rparr>)
         else (Inl (Throw (Runtime_error (Register_overlap name base))), d))" using cases(3) [OF 3] by blast
    have "\<not> free" using 3 assms(3) by blast
    then show ?thesis using 3(1,2) j by (cases "j = 0") auto
  next
    case 4
    from cases(4) [OF 4] obtain m where m: "RegisterMemoryArea name base area d = (Inr (), register_area name base area m d)"
      "registry_ok (register_area name base area m d)" by blast
    then show ?thesis using 4 assms(3) by (simp add: register_area_def)
  qed
qed

definition demo_plain :: mem_area where
  "demo_plain = \<lparr>ma_scope = ''TOP.m'', ma_num_words = 8, ma_width_byte = 4\<rparr>"

definition demo_registry :: dpi_memutil where
  "demo_registry = snd (RegisterMemoryArea ''ram'' 0x1000 (Plain_area demo_plain) DpiMemUtil)"

lemma demo_registry_eq:
  "demo_registry = \<lparr>mem_areas = [Plain_area demo_plain], base_addrs = [0x1000], names = [''ram''],
     name_to_mem = [(''ram'', 0)], addr_to_mem = [(AddrRange 0x1000 0x101f, 0)], staging_area = []\<rparr>"
  by (simp add: demo_registry_def RegisterMemoryArea_def DpiMemUtil_def GetSizeBytes_def demo_plain_def Let_def
    EmplaceDisjoint_def)

lemma demo_registry_ok: "registry_ok demo_registry" "widths_ok demo_registry"
  by (simp_all add: demo_registry_eq registry_ok_def disjoint_sorted_def area_range_def area_bytes_def GetSizeBytes_def
    demo_plain_def widths_ok_def)

theorem register_memory_area_spec_witness:
  "(\<exists>d'. RegisterMemoryArea ''rom'' 0x2000 (Plain_area demo_plain) demo_registry = (Inr (), d') \<and> registry_ok d' \<and>
     names d' = [''ram'', ''rom''])"
proof -
  let ?top = "0x2000 + (GetSizeBytes (area_base (Plain_area demo_plain)) - 1)"
  have free: "True \<longleftrightarrow> 0x2000 \<le> ?top \<and> ''rom'' \<notin> set (names demo_registry) \<and>
      (\<forall>i<length (mem_areas demo_registry). \<not> overlaps (area_range demo_registry i) (AddrRange 0x2000 ?top))"
    by (simp add: demo_registry_eq overlaps_def area_range_def area_bytes_def GetSizeBytes_def demo_plain_def)
  from register_memory_area_spec [OF demo_registry_ok(1) refl free]
  show ?thesis by (auto simp: demo_registry_eq split: prod.splits sum.splits fault.splits)
qed

text \<open>Registering an area that overlaps the only registered one ends the program on an assertion
  instead of throwing: the assertion is about the index of the area found, which is 0.\<close>

theorem register_overlap_first_asserts:
  assumes "registry_ok d" and "length (mem_areas d) = 1" and "name \<notin> set (names d)"
    and "base \<le> base + (GetSizeBytes (area_base area) - 1)"
    and "overlaps (area_range d 0) (AddrRange base (base + (GetSizeBytes (area_base area) - 1)))"
  shows "fst (RegisterMemoryArea name base area d) = Inl Assert_failed"
  using RegisterMemoryArea_cases(3) [OF assms(1,4,3) _ assms(5)] assms(2) by auto

theorem register_overlap_first_asserts_witness:
  "fst (RegisterMemoryArea ''rom'' 0x1010 (Plain_area demo_plain) demo_registry) = Inl Assert_failed"
  by (rule register_overlap_first_asserts [OF demo_registry_ok(1)])
    (simp_all add: demo_registry_eq overlaps_def area_range_def area_bytes_def GetSizeBytes_def demo_plain_def)

text \<open>C22: The area found for a segment is the one that contains all its addresses; when no registered
  area does, the call throws an \<open>ElfError\<close>.  No assertion fails and no vector is read out of bounds.\<close>

theorem region_for_segment_spec:
  assumes "registry_ok d" and "0 < mem_sz"
  shows "case GetRegionForSegment d path seg_idx lma mem_sz of
      Inr i \<Rightarrow> i < length (mem_areas d) \<and> seg_in d i lma mem_sz
    | Inl e \<Rightarrow> (\<forall>i<length (mem_areas d). \<not> seg_in d i lma mem_sz) \<and> (\<exists>msg. e = Throw (Elf_error path msg))"
proof (cases "\<exists>i<length (mem_areas d). seg_in d i lma mem_sz")
  case True
  then obtain i where "i < length (mem_areas d)" "seg_in d i lma mem_sz" by blast
  then show ?thesis using GetRegionForSegment_in [OF assms(1) _ _ assms(2)] by simp
next
  case False
  then have out: "\<forall>i<length (mem_areas d). \<not> seg_in d i lma mem_sz" by blast
  from GetRegionForSegment_out [OF assms(1) this assms(2), of path seg_idx]
  show ?thesis using out by (auto simp: ElfError_def)
qed

theorem region_for_segment_spec_witness:
  "case GetRegionForSegment demo_registry ''a.elf'' 0 0x1004 8 of
      Inr i \<Rightarrow> i < length (mem_areas demo_registry) \<and> seg_in demo_registry i 0x1004 8
    | Inl e \<Rightarrow> (\<forall>i<length (mem_areas demo_registry). \<not> seg_in demo_registry i 0x1004 8) \<and>
        (\<exists>msg. e = Throw (Elf_error ''a.elf'' msg))"
  by (rule region_for_segment_spec [OF demo_registry_ok(1)]) simp

text \<open>C2: Staging an ELF file.  When every loadable segment lies within one area, starts at a multiple of
  the area's width and lies within the file, staging succeeds, whatever was staged before is gone, and
  the staging area of each memory holds what the memory sees of the file's segments laid over each
  other.  Otherwise an \<open>ElfError\<close> is thrown and nothing but the staging area has changed.\<close>

theorem stage_elf_image:
  assumes "registry_ok d" and "widths_ok d" and "opens h path raw n phdrs"
  shows "if list_all (\<lambda>p. loadable p \<longrightarrow> placeable d raw p) (take n phdrs)
    then \<exists>st. StageElf h path d = (Inr (), d\<lparr>staging_area := st\<rparr>) \<and>
      (\<forall>i<length (mem_areas d). staged_bytes (GetMemoryData (d\<lparr>staging_area := st\<rparr>) (names d ! i)) =
         view d i (elf_image raw (take n phdrs)))
    else \<exists>msg st. StageElf h path d = (Inl (Throw (Elf_error path msg)), d\<lparr>staging_area := st\<rparr>)"
proof -
  note run = opens_run [OF assms(3)]
  have stage: "StageElf h path d = act_loop (stage_segment path raw phdrs) [0..<n] () (d\<lparr>staging_area := []\<rparr>)"
    using run(1-4) by (simp add: StageElf_def act_bind_def act_lift_def)
  show ?thesis
  proof (cases "list_all (\<lambda>p. loadable p \<longrightarrow> placeable d raw p) (take n phdrs)")
    case True
    then have "\<forall>p\<in>set (take n phdrs). loadable p \<longrightarrow> placeable d raw p" by (simp add: list_all_iff)
    from stage_loop [OF assms(1,2) run(5) this, of path "\<lambda>_. False"] show ?thesis
      using True by (auto simp: stage staged_view_def list_all_iff)
  next
    case False
    then have "\<exists>p\<in>set (take n phdrs). loadable p \<and> \<not> placeable d raw p" by (auto simp: list_all_iff)
    from stage_loop_bad [OF assms(1,2) run(5) this, of path] show ?thesis
      using False by (simp add: stage ElfError_def)
  qed
qed

definition demo_phdrs :: "phdr list" where
  "demo_phdrs = [\<lparr>p_type = 1, p_offset = 0, p_paddr = 0x1004, p_filesz = 6\<rparr>,
     \<lparr>p_type = 6, p_offset = 9, p_paddr = 0, p_filesz = 99\<rparr>, \<lparr>p_type = 1, p_offset = 2, p_paddr = 0x1008, p_filesz = 3\<rparr>]"

definition demo_host :: host where
  "demo_host = \<lparr>elf_version_error = None, can_open = (\<lambda>_. True), elf_begin_error = (\<lambda>_. None), elf_kind_elf = (\<lambda>_. True),
     elf_getphdrnum = (\<lambda>_. Inr 3), elf32_getphdr = (\<lambda>_. Inr demo_phdrs),
     elf_rawfile = (\<lambda>_. Some [1, 2, 3, 4, 5, 6, 7, 8]), readmemh = (\<lambda>_ m. m)\<rparr>"

lemma demo_opens: "opens demo_host ''a.elf'' [1, 2, 3, 4, 5, 6, 7, 8] 3 demo_phdrs"
  by (simp add: opens_def demo_host_def demo_phdrs_def ElfFile_def)

theorem stage_elf_image_witness:
  "\<exists>st. StageElf demo_host ''a.elf'' demo_registry = (Inr (), demo_registry\<lparr>staging_area := st\<rparr>) \<and>
      (\<forall>i<length (mem_areas demo_registry).
         staged_bytes (GetMemoryData (demo_registry\<lparr>staging_area := st\<rparr>) (names demo_registry ! i)) =
         view demo_registry i (elf_image [1, 2, 3, 4, 5, 6, 7, 8] (take 3 demo_phdrs)))"
proof -
  have "list_all (\<lambda>p. loadable p \<longrightarrow> placeable demo_registry [1, 2, 3, 4, 5, 6, 7, 8] p) (take 3 demo_phdrs)"
    by (simp add: demo_phdrs_def loadable_def PT_LOAD_def placeable_def placeable_at_def seg_in_def demo_registry_eq
      area_bytes_def GetSizeBytes_def demo_plain_def)
  then show ?thesis using stage_elf_image [OF demo_registry_ok demo_opens] by simp
qed

text \<open>C17: Flattening an ELF file of which all segments lie within the file and end below the last
  address gives the bytes from the lowest to the highest loaded address, with the segments laid over
  each other in file order and zeros in the gaps.\<close>

theorem flatten_elf_image:
  assumes "opens h path raw n phdrs" and "length raw < 2 ^ 32"
    and "\<forall>p\<in>set (take n phdrs). p_type p = PT_LOAD \<longrightarrow> unat (p_offset p) + unat (p_filesz p) \<le> length raw"
    and "\<forall>p\<in>set (take n phdrs). loadable p \<longrightarrow> unat (p_paddr p) + unat (p_filesz p) < 2 ^ 32"
    and "\<exists>p\<in>set (take n phdrs). loadable p"
  shows "\<exists>low high bs. FlattenElfFile h path = Inr bs \<and>
    low \<in> dom (elf_image raw (take n phdrs)) \<and> high \<in> dom (elf_image raw (take n phdrs)) \<and>
    dom (elf_image raw (take n phdrs)) \<subseteq> {low..high} \<and> length bs = 1 + unat (high - low) \<and>
    (\<forall>x. low \<le> x \<and> x \<le> high \<longrightarrow>
       bs ! unat (x - low) = (case elf_image raw (take n phdrs) x of None \<Rightarrow> 0 | Some b \<Rightarrow> b))"
  using assms by (rule FlattenElfFile_image)

theorem flatten_elf_image_witness:
  "\<exists>low high bs. FlattenElfFile demo_host ''a.elf'' = Inr bs \<and>
    low \<in> dom (elf_image [1, 2, 3, 4, 5, 6, 7, 8] (take 3 demo_phdrs)) \<and>
    high \<in> dom (elf_image [1, 2, 3, 4, 5, 6, 7, 8] (take 3 demo_phdrs)) \<and>
    dom (elf_image [1, 2, 3, 4, 5, 6, 7, 8] (take 3 demo_phdrs)) \<subseteq> {low..high} \<and> length bs = 1 + unat (high - low) \<and>
    (\<forall>x. low \<le> x \<and> x \<le> high \<longrightarrow> bs ! unat (x - low) =
       (case elf_image [1, 2, 3, 4, 5, 6, 7, 8] (take 3 demo_phdrs) x of None \<Rightarrow> 0 | Some b \<Rightarrow> b))"
  by (rule flatten_elf_image [OF demo_opens])
    (simp_all add: demo_phdrs_def PT_LOAD_def loadable_def)

text \<open>C38: Flattening checks the end of a segment with a 32-bit sum: a segment that reaches past the end
  of the file passes the check when the sum wraps around, and the copy reads outside the file.\<close>

theorem flatten_offset_wraps:
  assumes "opens h path raw 1 [p]" and "p_type p = PT_LOAD" and "p_filesz p \<noteq> 0"
    and "unat (p_paddr p) + unat (p_filesz p) \<le> 2 ^ 32"
    and "length raw < unat (p_offset p) + unat (p_filesz p)" and "unat (p_offset p + p_filesz p) \<le> length raw"
  shows "FlattenElfFile h path = Inl Undefined"
proof -
  note run = opens_run [OF assms(1)]
  have "\<forall>q\<in>set (take 1 [p]). loadable q \<longrightarrow> unat (p_paddr q) + unat (p_filesz q) \<le> 2 ^ 32" using assms(4) by simp
  then obtain r where r: "foldM (bounds_step path [p]) [0..<1] (False, 0, 0) = Inr r" "fst r" "fst (snd r) \<le> snd (snd r)"
    using bounds_loop [of 1 "[p]" path] assms(2,3) by (auto simp: loadable_def)
  have "foldM (flatten_step path [p] raw (fst (snd r))) [0..<1] StagedMem = Inl Undefined"
    using assms by (simp add: flatten_step_def nth_phdr_def segment_bytes_def)
  then show ?thesis using run r by (auto simp: FlattenElfFile_def case_prod_unfold)
qed

theorem flatten_offset_wraps_witness:
  "FlattenElfFile (demo_host\<lparr>elf_getphdrnum := (\<lambda>_. Inr 1),
       elf32_getphdr := (\<lambda>_. Inr [\<lparr>p_type = 1, p_offset = 0xfffffff0, p_paddr = 0, p_filesz = 0x12\<rparr>])\<rparr>) ''a.elf'' =
    Inl Undefined"
  by (rule flatten_offset_wraps [of _ _ "[1, 2, 3, 4, 5, 6, 7, 8]"
      "\<lparr>p_type = 1, p_offset = 0xfffffff0, p_paddr = 0, p_filesz = 0x12\<rparr>"])
    (simp_all add: opens_def demo_host_def ElfFile_def PT_LOAD_def)

lemma find_last_append:
  "c \<notin> set ys \<Longrightarrow> find_last c (xs @ c # ys) = Some (length xs)"
proof -
  assume "c \<notin> set ys"
  then have "takeWhile (\<lambda>x. x \<noteq> c) (rev (xs @ c # ys)) = rev ys"
    using takeWhile_append2 [of "rev ys" "\<lambda>x. x \<noteq> c" "c # rev xs"] by auto
  then show ?thesis by (simp add: find_last_def)
qed

lemma detect_image_type_of:
  assumes "CHR ''/'' \<notin> set base"
  shows "DetectMemImageType (dir @ ''/'' @ base) =
    (case find_last CHR ''.'' base of None \<Rightarrow> Inr kMemImageElf | Some i \<Rightarrow> GetMemImageTypeByName (drop (i + 1) base))"
proof -
  have slash: "find_last CHR ''/'' (dir @ ''/'' @ base) = Some (length dir)"
    using find_last_append [OF assms] by simp
  show ?thesis
  proof (cases "CHR ''.'' \<in> set base")
    case True
    then obtain xs ys where base: "base = xs @ CHR ''.'' # ys" "CHR ''.'' \<notin> set ys" by (metis split_list_last)
    have "find_last CHR ''.'' base = Some (length xs)" using find_last_append [OF base(2)] base(1) by simp
    moreover have "find_last CHR ''.'' (dir @ ''/'' @ base) = Some (length dir + 1 + length xs)"
      using find_last_append [OF base(2), of "dir @ ''/'' @ xs"] base(1) by simp
    moreover have "drop (length dir + 1 + length xs + 1) (dir @ ''/'' @ base) = drop (length xs + 1) base" by simp
    ultimately show ?thesis using slash
      by (simp add: DetectMemImageType_def Let_def GetMemImageTypeByName_def)
  next
    case False
    then have none: "find_last CHR ''.'' base = None" by (simp add: find_last_def)
    show ?thesis
    proof (cases "CHR ''.'' \<in> set dir")
      case True
      then obtain xs ys where dir: "dir = xs @ CHR ''.'' # ys" "CHR ''.'' \<notin> set ys" by (metis split_list_last)
      have "find_last CHR ''.'' (dir @ ''/'' @ base) = Some (length xs)"
        using find_last_append [of "CHR ''.''" "ys @ ''/'' @ base" xs] dir False by simp
      then show ?thesis using slash none dir by (simp add: DetectMemImageType_def)
    next
      case nodir: False
      then have "find_last CHR ''.'' (dir @ ''/'' @ base) = None" using False by (simp add: find_last_def)
      then show ?thesis using none by (simp add: DetectMemImageType_def)
    qed
  qed
qed

text \<open>The type of a file without a type given depends on its last path component only: without a dot
  it is taken for an ELF file, otherwise what follows the last dot has to be the name of a type.  The
  result is never \<open>kMemImageUnknown\<close>.\<close>

theorem detect_image_type:
  assumes "CHR ''/'' \<notin> set base"
  shows "GetMemImageType (dir @ ''/'' @ base) None =
      (case find_last CHR ''.'' base of None \<Rightarrow> Inr kMemImageElf | Some i \<Rightarrow> GetMemImageTypeByName (drop (i + 1) base)) \<and>
    GetMemImageType (dir @ ''/'' @ base) None \<noteq> Inr kMemImageUnknown"
  using detect_image_type_of [OF assms, of dir]
  by (auto simp: GetMemImageType_def GetMemImageTypeByName_def split: option.splits)

theorem detect_image_type_witness:
  "GetMemImageType (''build.d'' @ ''/'' @ ''prog.vmem'') None =
      (case find_last CHR ''.'' ''prog.vmem'' of None \<Rightarrow> Inr kMemImageElf
       | Some i \<Rightarrow> GetMemImageTypeByName (drop (i + 1) ''prog.vmem'')) \<and>
    GetMemImageType (''build.d'' @ ''/'' @ ''prog.vmem'') None \<noteq> Inr kMemImageUnknown"
  by (rule detect_image_type) simp

end
