(* ===== verification/Dpi_Session.thy ===== *)
theory Dpi_Session
  imports Dpi_Memutil
begin

text \<open>
  What holds of a \<open>DpiMemUtil\<close> object at any time: the theory formalises the comments on the private members
  of the class in \<open>dpi_memutil.h\<close> and shows that every sequence of calls keeps to them, also when calls throw.
  A failing assertion ends the program, so nothing is called after one.
\<close>

section \<open>The invariant\<close>

text \<open>The vectors have the same length and the maps point into them; the staging area is keyed by names of
  registered memories, and each staged segment starts at a multiple of the width of its memory.\<close>

definition well_formed :: "dpi_memutil \<Rightarrow> bool" where
  "well_formed d \<longleftrightarrow> registry_ok d \<and> widths_ok d \<and> staging_ok d \<and> staged_aligned (\<lambda>_. False) d"

lemma well_formed_new: "well_formed DpiMemUtil"
  by (simp add: well_formed_def registry_empty)
    (simp add: DpiMemUtil_def widths_ok_def staging_ok_def staged_aligned_def)

lemma well_formed_clear: "well_formed d \<Longrightarrow> well_formed (d\<lparr>staging_area := []\<rparr>)"
  by (simp add: well_formed_def staging_ok_def staged_aligned_def GetMemoryData_def segs_empty list_all_iff)

lemma well_formed_register:
  assumes d: "well_formed d" and reg: "registry_ok (register_area name base area m d)" and name: "name \<notin> set (names d)"
    and width: "ma_width_byte (area_base area) \<noteq> 0"
  shows "well_formed (register_area name base area m d)"
proof -
  let ?d = "register_area name base area m d"
  have lens: "length (names d) = length (mem_areas d)" and st: "fst ` set (staging_area d) \<subseteq> set (names d)"
    using d by (simp_all add: well_formed_def registry_ok_def staging_ok_def)
  have data: "GetMemoryData ?d n = GetMemoryData d n" for n by (simp add: GetMemoryData_def register_area_def)
  have "map_of (staging_area d) name = None" using st name by (auto simp: map_of_eq_None_iff)
  then have fresh: "segs (GetMemoryData d name) = []" by (simp add: GetMemoryData_def segs_empty)
  have "list_all (\<lambda>e. aligned_seg (area_width ?d i) False (fst e) (snd e)) (segs (GetMemoryData d (names ?d ! i)))"
    if i: "i < length (mem_areas ?d)" for i
  proof (cases "i < length (mem_areas d)")
    case True
    then have "area_width ?d i = area_width d i" "names ?d ! i = names d ! i"
      using lens by (simp_all add: area_width_def register_area_def nth_append)
    then show ?thesis using d True by (simp add: well_formed_def staged_aligned_def list_all_iff)
  next
    case False
    then have "names ?d ! i = name" using i lens by (simp add: register_area_def nth_append less_Suc_eq)
    then show ?thesis by (simp add: fresh)
  qed
  then have "staged_aligned (\<lambda>_. False) ?d" by (simp add: staged_aligned_def data list_all_iff)
  moreover have "widths_ok ?d" "staging_ok ?d"
    using d width st by (auto simp: well_formed_def widths_ok_def staging_ok_def register_area_def)
  ultimately show ?thesis using reg by (simp add: well_formed_def)
qed

section \<open>Every call keeps it\<close>

lemma stage_segment_keeps:
  assumes d: "well_formed d"
  shows "\<exists>st. snd (stage_segment path raw phdrs i u d) = d\<lparr>staging_area := st\<rparr> \<and> well_formed (d\<lparr>staging_area := st\<rparr>)"
proof -
  have parts: "registry_ok d" "widths_ok d" "staging_ok d" "staged_aligned (\<lambda>_. False) d" using d by (simp_all add: well_formed_def)
  have same: "\<exists>st. snd (r, d) = d\<lparr>staging_area := st\<rparr> \<and> well_formed (d\<lparr>staging_area := st\<rparr>)" for r :: "unit res"
    using d by (intro exI [of _ "staging_area d"]) simp
  consider "\<not> i < length phdrs" | "i < length phdrs" "\<not> loadable (phdrs ! i)"
    | "i < length phdrs" "loadable (phdrs ! i)" "\<not> placeable d raw (phdrs ! i)"
    | "i < length phdrs" "loadable (phdrs ! i)" "placeable d raw (phdrs ! i)" by blast
  then show ?thesis
  proof cases
    case 1
    then have "stage_segment path raw phdrs i u d = (Inl Undefined, d)"
      by (simp add: stage_segment_def nth_phdr_def act_fail_def)
    then show ?thesis using same by simp
  next
    case 2
    then show ?thesis using stage_segment_skip [of i phdrs path raw u d] same by simp
  next
    case 3
    then show ?thesis using stage_segment_bad [OF parts(1,2) 3] same by (metis (no_types))
  next
    case 4
    have "whole_words (\<lambda>_. False) d raw (phdrs ! i)" by (simp add: whole_words_def list_all_iff)
    then obtain st where "stage_segment path raw phdrs i u d = (Inr (), d\<lparr>staging_area := st\<rparr>)" "staging_ok (d\<lparr>staging_area := st\<rparr>)"
      "staged_aligned (\<lambda>_. False) (d\<lparr>staging_area := st\<rparr>)"
      using stage_segment_place [OF parts(1-3) 4, of path u "\<lambda>_. False"] parts(4) by blast
    then show ?thesis using parts(1,2) by (intro exI [of _ st]) (simp add: well_formed_def)
  qed
qed

lemma StageElf_keeps:
  assumes d: "well_formed d"
  shows "\<exists>st. snd (StageElf h path d) = d\<lparr>staging_area := st\<rparr> \<and> well_formed (d\<lparr>staging_area := st\<rparr>)"
proof -
  define P where "P d' \<longleftrightarrow> (\<exists>st. d' = d\<lparr>staging_area := st\<rparr> \<and> well_formed d')" for d'
  have start: "P (d\<lparr>staging_area := []\<rparr>)" using well_formed_clear [OF d] by (auto simp: P_def)
  have loop: "P (snd (act_loop (stage_segment path raw phdrs) is () d'))" if "P d'" for raw phdrs "is" d'
  proof (rule act_loop_keeps [where P = P, OF _ that])
    fix i u d''
    assume "P d''"
    then show "P (snd (stage_segment path raw phdrs i u d''))" using stage_segment_keeps [of d'' path raw phdrs i u] by (auto simp: P_def)
  qed
  have lift: "P (snd (act_bind (act_lift r) f d'))" if "P d'" "\<And>x. P (snd (f x d'))" for r :: "'z res" and f d'
    using that by (cases r) (simp_all add: act_fail_def)
  have "P (snd (StageElf h path d))"
    unfolding StageElf_def act_bind_def [of "\<lambda>d. (Inr (), d\<lparr>staging_area := []\<rparr>)"]
    by (simp only: prod.case sum.case) (intro lift loop start)
  then show ?thesis by (auto simp: P_def)
qed

section \<open>Sessions\<close>

text \<open>The public methods that change the object, and those that change the design through it.\<close>

datatype util_call =
    Register_call string u32 any_area
  | Stage_call string
  | Load_file_call string string MemImageType
  | Load_elf_call string

fun run_call :: "host \<Rightarrow> util_call \<Rightarrow> (dpi_memutil \<times> sim, unit) act" where
  "run_call h (Register_call name base area) (d, s) = (case RegisterMemoryArea name base area d of (r, d) \<Rightarrow> (r, (d, s)))"
| "run_call h (Stage_call path) (d, s) = (case StageElf h path d of (r, d) \<Rightarrow> (r, (d, s)))"
| "run_call h (Load_file_call name path type) (d, s) =
     (case LoadFileToNamedMem h d name path type s of (r, s) \<Rightarrow> (r, (d, s)))"
| "run_call h (Load_elf_call path) (d, s) = LoadElfToMemories h path (d, s)"

text \<open>The width of a registered memory is positive, as \<open>mem_area.h\<close> asks.\<close>

fun call_ok :: "util_call \<Rightarrow> bool" where
  "call_ok (Register_call name base area) = (ma_width_byte (area_base area) \<noteq> 0)"
| "call_ok _ = True"

text \<open>The states of an object and of the design, which runs on between the calls.\<close>

inductive session :: "host \<Rightarrow> dpi_memutil \<times> sim \<Rightarrow> bool" for h where
  created: "session h (DpiMemUtil, s)"
| called: "session h st \<Longrightarrow> call_ok c \<Longrightarrow> run_call h c st = (r, st') \<Longrightarrow> r \<noteq> Inl Assert_failed \<Longrightarrow> session h st'"
| design: "session h (d, s) \<Longrightarrow> session h (d, s')"

inductive_cases session_step: "session h st"

lemma run_call_keeps:
  assumes "well_formed (fst st)" and "call_ok c" and "run_call h c st = (r, st')" and "r \<noteq> Inl Assert_failed"
  shows "well_formed (fst st')"
proof -
  obtain d s where st: "st = (d, s)" by (cases st)
  have d: "well_formed d" using assms(1) st by simp
  then have reg: "registry_ok d" by (simp add: well_formed_def)
  show ?thesis
  proof (cases c)
    case (Register_call name base area)
    obtain r' d' where run: "RegisterMemoryArea name base area d = (r', d')" by (cases "RegisterMemoryArea name base area d")
    then have res: "r' = r" "fst st' = d'" using assms(3) st Register_call by auto
    have width: "ma_width_byte (area_base area) \<noteq> 0" using assms(2) Register_call by simp
    note cs = RegisterMemoryArea_cases [OF reg, where base = base and area = area and name = name]
    have named: "\<exists>i<length (mem_areas d). names d ! i = name" if "name \<in> set (names d)"
      using that reg by (auto simp: in_set_conv_nth registry_ok_def)
    let ?tp = "base + (GetSizeBytes (area_base area) - 1)"
    consider "?tp < base" | i where "base \<le> ?tp" "i < length (mem_areas d)" "names d ! i = name"
      | i where "base \<le> ?tp" "name \<notin> set (names d)" "i < length (mem_areas d)" "overlaps (area_range d i) (AddrRange base ?tp)"
      | "base \<le> ?tp" "name \<notin> set (names d)" "\<forall>i<length (mem_areas d). \<not> overlaps (area_range d i) (AddrRange base ?tp)"
      using named not_less [of ?tp base] by blast
    then show ?thesis
    proof cases
      case 1
      then show ?thesis using cs(1) d run res by simp
    next
      case 2
      then show ?thesis using cs(2) d run res by simp
    next
      case 3
      from cs(3) [OF 3] obtain j :: nat where "(r', d') = (if j = 0
          then (Inl Assert_failed, d\<lparr>name_to_mem := smap_put name (length (mem_areas d)) (name_to_mem d)\<rparr>)
          else (Inl (Throw (Runtime_error (Register_overlap name base))), d))" unfolding run by blast
      then show ?thesis using d res assms(4) by (cases "j = 0") simp_all
    next
      case 4
      then show ?thesis using cs(4) well_formed_register [OF d _ 4(2) width] run res by auto
    qed
  next
    case (Stage_call path)
    then show ?thesis using assms(3) st StageElf_keeps [OF d, of h path] by (auto split: prod.splits)
  next
    case (Load_file_call name path type)
    then show ?thesis using assms(3) st d by (auto split: prod.splits)
  next
    case (Load_elf_call path)
    then show ?thesis using assms(3) st StageElf_keeps [OF d, of h path]
      by (auto simp: LoadElfToMemories_def split: prod.splits sum.splits)
  qed
qed

lemma session_well_formed: "session h st \<Longrightarrow> well_formed (fst st)"
  by (induction rule: session.induct) (auto simp: well_formed_new intro: run_call_keeps)

section \<open>What the invariant is good for\<close>

lemma region_lines:
  assumes "\<forall>e\<in>set m. snd e < length (mem_areas d) \<and> snd e < length (base_addrs d)"
  shows "\<exists>rows. foldM (\<lambda>pr out. res_bind (region_line d pr) (\<lambda>l. Inr (out @ [l]))) m out = Inr (out @ rows) \<and>
    map fst rows = map fst m"
  using assms
proof (induction m arbitrary: out)
  case (Cons e m)
  obtain name i where e: "e = (name, i)" by (cases e)
  then obtain l where l: "region_line d e = Inr l" "fst l = name"
    using Cons.prems by (auto simp: region_line_def Let_def)
  obtain rows where "foldM (\<lambda>pr out. res_bind (region_line d pr) (\<lambda>l. Inr (out @ [l]))) m (out @ [l]) = Inr ((out @ [l]) @ rows)"
    "map fst rows = map fst m" using Cons.IH [of "out @ [l]"] Cons.prems by auto
  then show ?case using l e by (intro exI [of _ "l # rows"]) simp
qed simp

lemma PrintMemRegions_ok:
  assumes reg: "registry_ok d"
  shows "\<exists>rows. PrintMemRegions d = Inr rows \<and> sorted_wrt (<) (map fst rows) \<and> set (map fst rows) = set (names d)"
proof -
  have "\<forall>e\<in>set (name_to_mem d). snd e < length (mem_areas d) \<and> snd e < length (base_addrs d)"
    using reg by (auto simp: registry_ok_def set_zip)
  from region_lines [OF this, of "[]"] obtain rows where
    rows: "PrintMemRegions d = Inr rows" "map fst rows = map fst (name_to_mem d)" by (auto simp: PrintMemRegions_def)
  have "name \<in> fst ` set (name_to_mem d) \<longleftrightarrow> name \<in> set (names d)" for name
    using registry_name(2) [OF reg, of name] by (auto simp: map_of_eq_None_iff)
  then have "set (map fst rows) = set (names d)" unfolding rows(2) by auto
  moreover have "sorted_wrt (<) (map fst rows)" using reg rows(2) by (simp add: registry_ok_def ordered_def)
  ultimately show ?thesis using rows(1) by blast
qed

text \<open>libelf keeps what its documentation says of a file that it has accepted: the bytes are there, and there are as
  many program headers as it counts.\<close>

definition libelf_ok :: "host \<Rightarrow> string \<Rightarrow> bool" where
  "libelf_ok h path \<longleftrightarrow> (ElfFile h path = Inr () \<longrightarrow>
     (\<exists>raw. elf_rawfile h path = Some raw) \<and>
     (\<forall>n phdrs. elf_getphdrnum h path = Inr n \<longrightarrow> elf32_getphdr h path = Inr phdrs \<longrightarrow> n \<le> length phdrs))"

lemma StageElf_outcome:
  assumes d: "well_formed d" and h: "libelf_ok h path"
  shows "fst (StageElf h path d) = Inr () \<or> (\<exists>e. fst (StageElf h path d) = Inl (Throw e))"
proof (cases "\<exists>raw n phdrs. opens h path raw n phdrs")
  case True
  then obtain raw n phdrs where o: "opens h path raw n phdrs" by blast
  note run = opens_run [OF o]
  have stage: "StageElf h path d = act_loop (stage_segment path raw phdrs) [0..<n] () (d\<lparr>staging_area := []\<rparr>)"
    using run(1-4) by (simp add: StageElf_def act_bind_def act_lift_def)
  have reg: "registry_ok d" "widths_ok d" using d by (simp_all add: well_formed_def)
  show ?thesis
  proof (cases "\<forall>p\<in>set (take n phdrs). loadable p \<longrightarrow> placeable d raw p")
    case True
    from stage_loop [OF reg run(5) this, of path "\<lambda>_. False"] show ?thesis by (auto simp: stage)
  next
    case False
    then have "\<exists>p\<in>set (take n phdrs). loadable p \<and> \<not> placeable d raw p" by blast
    from stage_loop_bad [OF reg run(5) this, of path] show ?thesis by (auto simp: stage ElfError_def)
  qed
next
  case False
  show ?thesis
  proof (cases "ElfFile h path")
    case (Inl e)
    then obtain x where "e = Throw x" by (auto simp: ElfFile_def ElfError_def split: option.splits if_splits)
    then show ?thesis using Inl by (simp add: StageElf_def act_bind_def act_lift_def act_fail_def)
  next
    case (Inr u)
    then obtain raw where raw: "elf_rawfile h path = Some raw" using h by (auto simp: libelf_ok_def)
    have "(\<exists>msg. elf_getphdrnum h path = Inl msg) \<or> (\<exists>n msg. elf_getphdrnum h path = Inr n \<and> elf32_getphdr h path = Inl msg)"
    proof (cases "elf_getphdrnum h path"; cases "elf32_getphdr h path")
      fix n phdrs
      assume "elf_getphdrnum h path = Inr n" "elf32_getphdr h path = Inr phdrs"
      then have "opens h path raw n phdrs" using h Inr raw by (auto simp: libelf_ok_def opens_def)
      then show ?thesis using False by blast
    qed auto
    then show ?thesis using Inr raw
      by (auto simp: StageElf_def act_bind_def act_lift_def file_bytes_def GetPhdrNum_def GetPhdrs_def ElfError_def act_fail_def)
  qed
qed

section \<open>Properties\<close>

text \<open>C12: Type safety of the class.  After any sequence of calls on a new object, some of which may have thrown,
  with the design running in between, the vectors have the same length, the maps point into them, the
  ranges are disjoint, the staging area is keyed by registered names, and staged segments start at
  multiples of the width of their memory.  So the list of regions can always be printed, without an
  access outside a vector, and has the registered names in ascending order; and staging a file returns
  or throws an exception, whatever the file holds.\<close>

theorem session_type_safe:
  assumes "session h (d, s)"
  shows "well_formed d \<and>
    (\<exists>rows. PrintMemRegions d = Inr rows \<and> sorted_wrt (<) (map fst rows) \<and> set (map fst rows) = set (names d)) \<and>
    (libelf_ok h path \<longrightarrow> fst (StageElf h path d) = Inr () \<or> (\<exists>e. fst (StageElf h path d) = Inl (Throw e)))"
proof -
  have d: "well_formed d" using session_well_formed [OF assms] by simp
  then have "registry_ok d" by (simp add: well_formed_def)
  then show ?thesis using d PrintMemRegions_ok StageElf_outcome [OF d] by blast
qed

lemma demo_session: "session demo_host (demo_registry, one_memory ''TOP.m'' 32 8 (replicate 40 0))"
proof -
  let ?s = "one_memory ''TOP.m'' 32 8 (replicate 40 0)" and ?c = "Register_call ''ram'' 0x1000 (Plain_area demo_plain)"
  have "fst (RegisterMemoryArea ''ram'' 0x1000 (Plain_area demo_plain) DpiMemUtil) = Inr ()"
    by (simp add: RegisterMemoryArea_def DpiMemUtil_def GetSizeBytes_def demo_plain_def Let_def EmplaceDisjoint_def)
  then have "run_call demo_host ?c (DpiMemUtil, ?s) = (Inr (), (demo_registry, ?s))"
    by (cases "RegisterMemoryArea ''ram'' 0x1000 (Plain_area demo_plain) DpiMemUtil") (simp add: demo_registry_def)
  from session.called [OF session.created _ this] show ?thesis by (simp add: demo_plain_def)
qed

theorem session_type_safe_witness:
  "well_formed demo_registry \<and> (\<exists>rows. PrintMemRegions demo_registry = Inr rows \<and> sorted_wrt (<) (map fst rows) \<and>
     set (map fst rows) = {''ram''}) \<and>
   (fst (StageElf demo_host ''a.elf'' demo_registry) = Inr () \<or>
     (\<exists>e. fst (StageElf demo_host ''a.elf'' demo_registry) = Inl (Throw e)))"
proof -
  have "libelf_ok demo_host ''a.elf''" by (simp add: libelf_ok_def demo_host_def demo_phdrs_def)
  then show ?thesis using session_type_safe [OF demo_session, of "''a.elf''"] by (simp add: demo_registry_eq)
qed

end
