(* ===== verification/Elf_Load.thy ===== *)
theory Elf_Load
  imports Dpi_Memutil
begin

text \<open>
  Loading an ELF file into memories of all classes: what \<open>LoadElfToMemories\<close> promises, put together from
  the contract of the memory areas, the registry and the staging area.  Segments in the staging area start
  at a multiple of the width of their memory, so writing one does not disturb another.
\<close>

section \<open>What loading does to a word\<close>

text \<open>Word \<open>k\<close>, of \<open>w\<close> bytes, after the bytes \<open>m\<close> have been loaded: as before when none of them lies in the
  word; otherwise the bytes loaded, and zeros.\<close>

definition overlay_word :: "nat \<Rightarrow> byte_mem \<Rightarrow> nat \<Rightarrow> u8 list \<Rightarrow> u8 list" where
  "overlay_word w m k old =
     (if \<exists>j<w. m (word_of_nat (k * w + j)) \<noteq> None
      then map (\<lambda>j. case m (word_of_nat (k * w + j)) of None \<Rightarrow> 0 | Some b \<Rightarrow> b) [0..<w] else old)"

lemma overlay_word_cong:
  assumes "\<And>j. j < w \<Longrightarrow> m (word_of_nat (k * w + j)) = n (word_of_nat (k * w + j))"
  shows "overlay_word w m k old = overlay_word w n k old"
proof -
  have "(\<exists>j<w. m (word_of_nat (k * w + j)) \<noteq> None) = (\<exists>j<w. n (word_of_nat (k * w + j)) \<noteq> None)"
    by (intro ex_cong1 conj_cong refl) (simp only: assms)
  moreover have "map (\<lambda>j. case m (word_of_nat (k * w + j)) of None \<Rightarrow> 0 | Some b \<Rightarrow> b) [0..<w] =
      map (\<lambda>j. case n (word_of_nat (k * w + j)) of None \<Rightarrow> 0 | Some b \<Rightarrow> b) [0..<w]"
    by (intro map_cong refl) (simp only: assms set_upt atLeastLessThan_iff)
  ultimately show ?thesis unfolding overlay_word_def by (simp only:)
qed

lemma overlay_word_none:
  assumes "\<And>j. j < w \<Longrightarrow> m (word_of_nat (k * w + j)) = None"
  shows "overlay_word w m k old = old"
  unfolding overlay_word_def by (rule if_not_P) (simp only: assms not_ex de_Morgan_conj not_not simp_thms cong: conj_cong)

text \<open>Word \<open>k\<close> as the methods of a memory read it.\<close>

definition read_one :: "mem_area \<Rightarrow> mem_methods \<Rightarrow> nat \<Rightarrow> sim \<Rightarrow> u8 list" where
  "read_one a ms k s = (case MemArea_Read a ms (word_of_nat k) 1 s of (Inr bytes, _) \<Rightarrow> bytes | _ \<Rightarrow> [])"

lemma byte_address:
  assumes "k < n" and "j < w" and "n * w < 2 ^ 32"
  shows "unat (word_of_nat (k * w + j) :: u32) = k * w + j"
proof -
  have "(k + 1) * w \<le> n * w" using assms(1) by (intro mult_le_mono1) simp
  then have "k * w + j < 2 ^ 32" using assms(2,3) by simp
  then show ?thesis by (simp only: unsigned_of_nat) (simp add: take_bit_nat_eq_self)
qed

lemma multiple_below:
  assumes "x mod w = 0" and "x < (k + 1) * w"
  shows "x \<le> k * (w :: nat)"
proof -
  obtain q where q: "x = q * w" using assms(1) by (metis dvd_def mod_0_imp_dvd mult.commute)
  then have "q < k + 1" using assms(2) by (simp only: mult_less_cancel2)
  then show ?thesis unfolding q by (intro mult_le_mono1) simp
qed

section \<open>Writing the segments of one memory\<close>

context mem_codec begin

lemma write_aligned:
  fixes r :: "u32 addr_range" and data :: "u8 list"
  defines "w \<equiv> unat (ma_width_byte a)"
  assumes s: "env s" and al: "aligned_seg w (\<not> zero_ext) r data" and top: "unat (rng_hi r) < unat (ma_num_words a) * w"
  shows "\<exists>t. MemArea_Write a ms (rng_lo r div ma_width_byte a) data s = (Inr (), t) \<and> env t \<and> only_at home s t \<and>
    (\<forall>k<unat (ma_num_words a). logical t k =
       (if unat (rng_lo r) < (k + 1) * w \<and> k * w \<le> unat (rng_hi r)
        then padded w data (k * w - unat (rng_lo r)) else logical s k))"
proof -
  have wd: "0 < w" "w \<le> 40" using width [OF s] by (simp_all add: w_def)
  define q n where "q = unat (rng_lo r) div w" and "n = (length data + w - 1) div w"
  have ok: "length data = 1 + (unat (rng_hi r) - unat (rng_lo r))" "unat (rng_lo r) \<le> unat (rng_hi r)"
    "unat (rng_hi r) < 4294967295" and lo: "unat (rng_lo r) = q * w"
    using al by (auto simp: aligned_seg_def seg_ok_nat q_def)
  have off: "unat (rng_lo r div ma_width_byte a) = q" by (simp add: unat_div q_def w_def)
  have touched: "(q \<le> k \<and> k < q + n) = (q * w < (k + 1) * w \<and> k * w \<le> unat (rng_hi r))" for k
  proof -
    have "k - q < n \<longleftrightarrow> (k - q) * w < length data"
    proof -
      have "k - q < n \<longleftrightarrow> (k - q + 1) * w \<le> length data + w - 1"
        unfolding n_def using less_eq_div_iff_mult_less_eq [OF wd(1), of "k - q + 1" "length data + w - 1"] by (simp add: Suc_le_eq)
      then show ?thesis using wd(1) by (auto simp: algebra_simps)
    qed
    moreover have "q \<le> k \<Longrightarrow> (k - q) * w = k * w - q * w \<and> q * w \<le> k * w" by (simp add: diff_mult_distrib)
    moreover have "q * w < (k + 1) * w \<longleftrightarrow> q \<le> k" using wd(1) by (simp only: mult_less_cancel2) auto
    ultimately show ?thesis using ok lo by auto
  qed
  have fit: "q + n \<le> unat (ma_num_words a)"
  proof -
    have "q * w < unat (ma_num_words a) * w" using top ok lo by linarith
    then have q: "q < unat (ma_num_words a)" by simp
    have "length data \<le> (unat (ma_num_words a) - q) * w" using top ok lo by (simp add: diff_mult_distrib)
    then have "length data + w - 1 \<le> (w - 1) + (unat (ma_num_words a) - q) * w" using wd(1) by linarith
    then have "n \<le> ((w - 1) + (unat (ma_num_words a) - q) * w) div w" unfolding n_def by (rule div_le_mono)
    also have "\<dots> = unat (ma_num_words a) - q" by (subst div_mult_self1) (use wd(1) in simp_all)
    finally show ?thesis using q by linarith
  qed
  have zeros: "zero_ext \<or> length data mod unat (ma_width_byte a) = 0" using al by (auto simp: aligned_seg_def w_def)
  have "length data \<le> 4294967296" using ok by linarith
  then have len32: "length data \<le> 2 ^ 32" by simp
  have "\<exists>t. MemArea_Write a ms (rng_lo r div ma_width_byte a) data s = (Inr (), t) \<and> env t \<and>
      cur_scope t = cur_scope s \<and> only_at home s t \<and>
      (\<forall>k<unat (ma_num_words a). logical t k =
        (if q \<le> k \<and> k < q + n then padded w data ((k - q) * w) else logical s k))"
    using write_spec [OF s len32 zeros n_def [unfolded w_def], of "rng_lo r div ma_width_byte a"] fit
    unfolding off w_def [symmetric] by simp
  then obtain t where t: "MemArea_Write a ms (rng_lo r div ma_width_byte a) data s = (Inr (), t)" "env t" "only_at home s t"
    "\<forall>k<unat (ma_num_words a). logical t k = (if q \<le> k \<and> k < q + n then padded w data ((k - q) * w) else logical s k)"
    by blast
  moreover have "(k - q) * w = k * w - unat (rng_lo r)" for k by (simp add: diff_mult_distrib lo)
  ultimately show ?thesis unfolding lo touched by (intro exI [of _ t]) simp
qed

text \<open>The segments of a memory, in order.\<close>

lemma load_segments:
  fixes m :: "(u32, u8 list) ranged_map" and body :: "u32 addr_range \<times> u8 list \<Rightarrow> unit \<Rightarrow> unit action"
  defines "w \<equiv> unat (ma_width_byte a)"
  assumes s: "env s" and m: "disjoint_sorted m" and size: "unat (ma_num_words a) * w < 2 ^ 32"
    and segs: "list_all (\<lambda>e. aligned_seg w (\<not> zero_ext) (fst e) (snd e) \<and> unat (rng_hi (fst e)) < unat (ma_num_words a) * w) m"
    and body: "\<And>e t t'. e \<in> set m \<Longrightarrow> unat (rng_lo (fst e)) mod w = 0 \<Longrightarrow>
      MemArea_Write a ms (rng_lo (fst e) div ma_width_byte a) (snd e) t = (Inr (), t') \<Longrightarrow> body e () t = (Inr (), t')"
  shows "\<exists>t. act_loop body m () s = (Inr (), t) \<and> env t \<and> only_at home s t \<and>
    (\<forall>k<unat (ma_num_words a). logical t k = overlay_word w (contents seg_cell m) k (logical s k))"
  using s m segs body
proof (induction m arbitrary: s)
  case Nil
  then show ?case by (auto simp: act_return_def overlay_word_def)
next
  case (Cons e m)
  have wd: "0 < w" using width [OF Cons.prems(1)] by (simp add: w_def)
  obtain r data where e: "e = (r, data)" by (cases e)
  let ?lo = "unat (rng_lo r)" and ?hi = "unat (rng_hi r)" and ?N = "unat (ma_num_words a)"
  have al: "aligned_seg w (\<not> zero_ext) r data" "?hi < ?N * w" using Cons.prems(3) e by simp_all
  then have ok: "seg_ok r data" "?lo mod w = 0" by (simp_all add: aligned_seg_def)
  then have len: "length data = 1 + (?hi - ?lo)" "?lo \<le> ?hi" by (simp_all add: seg_ok_nat)
  obtain s1 where s1: "MemArea_Write a ms (rng_lo r div ma_width_byte a) data s = (Inr (), s1)" "env s1" "only_at home s s1"
    "\<And>k. k < ?N \<Longrightarrow> logical s1 k = (if ?lo < (k + 1) * w \<and> k * w \<le> ?hi then padded w data (k * w - ?lo) else logical s k)"
    using write_aligned [OF Cons.prems(1)] al unfolding w_def by blast
  have sorted: "disjoint_sorted m" "\<And>f. f \<in> set m \<Longrightarrow> ?hi < unat (rng_lo (fst f))"
    using Cons.prems(2) by (auto simp: disjoint_sorted_Cons e word_less_nat_alt)
  have "\<exists>t. act_loop body m () s1 = (Inr (), t) \<and> env t \<and> only_at home s1 t \<and>
    (\<forall>k<?N. logical t k = overlay_word w (contents seg_cell m) k (logical s1 k))"
    using Cons.IH [OF s1(2) sorted(1)] Cons.prems(3,4) by (simp add: list_all_iff)
  then obtain t where t: "act_loop body m () s1 = (Inr (), t)" "env t" "only_at home s1 t"
    "\<And>k. k < ?N \<Longrightarrow> logical t k = overlay_word w (contents seg_cell m) k (logical s1 k)"
    by blast
  have "body e () s = (Inr (), s1)" using Cons.prems(4) [of e s s1] s1(1) ok(2) e by simp
  then have run: "act_loop body (e # m) () s = (Inr (), t)" using t(1) by (simp add: act_bind_def)
  have addr: "unat (word_of_nat (k * w + j) :: u32) = k * w + j" if "k < ?N" "j < w" for k j
    by (rule byte_address [OF that size])
  have cell: "seg_cell r data (word_of_nat (k * w + j)) =
      (if ?lo \<le> k * w + j \<and> k * w + j \<le> ?hi then Some (data ! (k * w + j - ?lo)) else None)" if "k < ?N" "j < w" for k j
    by (simp only: seg_cell_nat [OF ok(1)] addr [OF that])
  have low: "?lo \<le> k * w" if "?lo < (k + 1) * w" for k by (rule multiple_below [OF ok(2) that])
  have later: "contents seg_cell m (word_of_nat (k * w + j)) = None"
    if k: "k < ?N" "j < w" and touch: "k * w \<le> ?hi" for k j
  proof (rule ccontr)
    assume "contents seg_cell m (word_of_nat (k * w + j)) \<noteq> None"
    then have "word_of_nat (k * w + j) \<in> dom (contents seg_cell m)" by blast
    moreover have "list_all (\<lambda>e. seg_ok (fst e) (snd e)) m" using Cons.prems(3) by (simp add: list_all_iff aligned_seg_def)
    ultimately obtain f where f: "f \<in> set m" "covers (fst f) (word_of_nat (k * w + j))"
      using staged.contents_dom [of m] by blast
    then have "unat (rng_lo (fst f)) < (k + 1) * w" using addr [OF k] k(2) by (simp add: covers_def word_le_nat_alt)
    moreover have "unat (rng_lo (fst f)) mod w = 0" using Cons.prems(3) f(1) by (simp add: list_all_iff aligned_seg_def)
    ultimately have "unat (rng_lo (fst f)) \<le> k * w" by (intro multiple_below)
    then show False using sorted(2) [OF f(1)] touch by linarith
  qed
  have "logical t k = overlay_word w (contents seg_cell (e # m)) k (logical s k)" if k: "k < ?N" for k
  proof (cases "?lo < (k + 1) * w \<and> k * w \<le> ?hi")
    case True
    then have lo: "?lo \<le> k * w" using low by blast
    have none: "\<And>j. j < w \<Longrightarrow> contents seg_cell m (word_of_nat (k * w + j)) = None" using later [OF k] True by blast
    have "logical t k = logical s1 k" unfolding t(4) [OF k] by (rule overlay_word_none) (rule none)
    then have new: "logical t k = padded w data (k * w - ?lo)" using s1(4) [OF k] True by simp
    have byte: "contents seg_cell (e # m) (word_of_nat (k * w + j)) =
        (if k * w + j \<le> ?hi then Some (data ! (k * w + j - ?lo)) else None)" if "j < w" for j
      using cell [OF k that] none [OF that] lo unfolding contents.simps e fst_conv snd_conv map_add_def by (simp only: option.case) auto
    have "\<exists>j<w. contents seg_cell (e # m) (word_of_nat (k * w + j)) \<noteq> None"
      by (rule exI [of _ 0]) (use wd True byte [OF wd] in simp)
    moreover have "padded w data (k * w - ?lo) ! j =
        (case contents seg_cell (e # m) (word_of_nat (k * w + j)) of None \<Rightarrow> 0 | Some b \<Rightarrow> b)" if "j < w" for j
      using that lo len unfolding byte [OF that] by (auto simp: padded_def nth_vec_resize)
    ultimately show ?thesis unfolding new overlay_word_def by (auto intro!: nth_equalityI simp del: contents.simps)
  next
    case False
    have "seg_cell r data (word_of_nat (k * w + j)) = None" if "j < w" for j
      using cell [OF k that] False that by auto
    then have same: "contents seg_cell (e # m) (word_of_nat (k * w + j)) = contents seg_cell m (word_of_nat (k * w + j))"
      if "j < w" for j using that unfolding contents.simps e fst_conv snd_conv map_add_def by (simp split: option.split)
    have "logical s1 k = logical s k" unfolding s1(4) [OF k] by (rule if_not_P [OF False])
    then show ?thesis unfolding t(4) [OF k] by (simp only: overlay_word_cong [of w "contents seg_cell (e # m)" k "contents seg_cell m", OF same])
  qed
  then show ?case using run t(2) only_at_trans [OF s1(3) t(3)] by blast
qed

text \<open>The class reads a word as its logical content, and what is written elsewhere does not matter.\<close>

lemma logical_elsewhere: "mem_at t home = mem_at s home \<Longrightarrow> logical t k = logical s k"
  by (simp add: logical_def stored_def)

lemma read_one: "env s \<Longrightarrow> k < unat (ma_num_words a) \<Longrightarrow> read_one a ms k s = logical s k"
  using read_spec [of s "word_of_nat k" 1] width [of s] word_index(1) [of k "ma_num_words a"]
  by (simp add: read_one_def)

end

section \<open>Memories of all classes\<close>

text \<open>The state in which a registered area works as intended, its memory being in scope \<open>home\<close>.\<close>

fun area_env :: "any_area \<Rightarrow> string \<Rightarrow> sim \<Rightarrow> bool" where
  "area_env (Plain_area a) home s = (\<exists>depth. plain_env a home depth s)"
| "area_env (Ecc32_area a) home s = (\<exists>depth. ecc_env a home depth s)"
| "area_env (Scrambled_area a) home s = (\<exists>depth key nonce. scr_env a home depth key nonce s)"

text \<open>The same without what scrambled memories need of the unwritten arrays.\<close>

fun area_present :: "any_area \<Rightarrow> string \<Rightarrow> sim \<Rightarrow> bool" where
  "area_present (Plain_area a) home s = (\<exists>depth. plain_env a home depth s)"
| "area_present (Ecc32_area a) home s = (\<exists>depth. ecc_env a home depth s)"
| "area_present (Scrambled_area a) home s = (\<exists>depth. scr_present a home depth s)"

fun is_scrambled :: "any_area \<Rightarrow> bool" where
  "is_scrambled (Scrambled_area _) = True"
| "is_scrambled _ = False"

lemma area_env_iff: "area_env a home s \<longleftrightarrow> area_present a home s \<and> (is_scrambled a \<longrightarrow> (\<exists>key nonce. same_contents key nonce s))"
  by (cases a) (auto simp: scr_env_def)

text \<open>The classes with integrity bits write whole words only.\<close>

fun only_whole_words :: "any_area \<Rightarrow> bool" where
  "only_whole_words (Plain_area _) = False"
| "only_whole_words _ = True"

definition area_word :: "any_area \<Rightarrow> nat \<Rightarrow> sim \<Rightarrow> u8 list" where
  "area_word a k s = read_one (area_base a) (area_methods a) k s"

lemma area_load:
  fixes m :: "(u32, u8 list) ranged_map" and body :: "u32 addr_range \<times> u8 list \<Rightarrow> unit \<Rightarrow> unit action"
    and w n :: nat
  assumes env: "area_env a home s" and w: "w = unat (ma_width_byte (area_base a))" and n: "n = unat (ma_num_words (area_base a))"
    and m: "disjoint_sorted m" and size: "n * w < 2 ^ 32"
    and segs: "list_all (\<lambda>e. aligned_seg w (only_whole_words a) (fst e) (snd e) \<and> unat (rng_hi (fst e)) < n * w) m"
    and body: "\<And>e t t'. e \<in> set m \<Longrightarrow> unat (rng_lo (fst e)) mod w = 0 \<Longrightarrow>
      area_Write a (rng_lo (fst e) div ma_width_byte (area_base a)) (snd e) t = (Inr (), t') \<Longrightarrow> body e () t = (Inr (), t')"
  shows "\<exists>t. act_loop body m () s = (Inr (), t) \<and> area_env a home t \<and> only_at home s t \<and>
    (\<forall>k<n. area_word a k t = overlay_word w (contents seg_cell m) k (area_word a k s))"
proof (cases a)
  case (Plain_area b)
  obtain depth where s: "plain_env b home depth s" using env Plain_area by auto
  note f = size [unfolded n w] segs [unfolded n w] body [unfolded w]
  show ?thesis using plain.load_segments [OF s m, of body] f plain.read_one [of b home depth] s
    unfolding n w Plain_area area_word_def by (fastforce simp: area_Write_def)
next
  case (Ecc32_area b)
  obtain depth where s: "ecc_env b home depth s" using env Ecc32_area by auto
  note f = size [unfolded n w] segs [unfolded n w] body [unfolded w]
  show ?thesis using ecc.load_segments [OF s m, of body] f ecc.read_one [of b home depth] s
    unfolding n w Ecc32_area area_word_def by (fastforce simp: area_Write_def)
next
  case (Scrambled_area b)
  obtain depth key nonce where s: "scr_env b home depth key nonce s" using env Scrambled_area by auto
  note f = size [unfolded n w] segs [unfolded n w] body [unfolded w]
  show ?thesis using scr.load_segments [OF s m, of body] f scr.read_one [of b home depth key nonce] s
    unfolding n w Scrambled_area area_word_def by (fastforce simp: area_Write_def)
qed

lemma only_at_keeps:
  assumes "only_at h s t"
  shows "cur_scope t = cur_scope s" "scope_exists t = scope_exists s" "key_minibuf t = key_minibuf s"
    "nonce_minibuf t = nonce_minibuf s"
  using assms by (auto simp: only_at_def)

lemma area_elsewhere:
  assumes other: "only_at h s t" "h \<noteq> home" and env: "area_env a home s"
  shows "area_env a home t" and "k < unat (ma_num_words (area_base a)) \<Longrightarrow> area_word a k t = area_word a k s"
proof -
  note keeps = only_at_keeps [OF other(1)]
  have mem: "mem_at t home = mem_at s home" by (rule only_at_mem [OF other(1) other(2) [symmetric]])
  have present: "mem_present t name home w depth = mem_present s name home w depth" for name w depth
    by (simp add: mem_present_def mem resolves_cong [OF keeps(1,2)])
  have scope: "fst (SetRelScope name t) = fst (SetRelScope name s)" for name
    by (simp add: SetRelScope_def SetAbsScope_def keeps Let_def split: option.splits)
  have envs: "plain_env b home depth t = plain_env b home depth s" "ecc_env b home depth t = ecc_env b home depth s"
    "scr_env c home depth key nonce t = scr_env c home depth key nonce s" for b c depth key nonce
    by (simp_all only: plain_env_def ecc_env_def scr_env_def scr_present_def same_contents_def present scope keeps)
  then show "area_env a home t" using env by (cases a) simp_all
  assume k: "k < unat (ma_num_words (area_base a))"
  show "area_word a k t = area_word a k s"
  proof (cases a)
    case (Plain_area b)
    then obtain depth where s: "plain_env b home depth s" using env by auto
    then have "plain_env b home depth t" by (simp only: envs)
    then show ?thesis using plain.read_one [OF s] plain.read_one [of b home depth t] k plain.logical_elsewhere [OF mem]
      by (simp add: area_word_def Plain_area)
  next
    case (Ecc32_area b)
    then obtain depth where s: "ecc_env b home depth s" using env by auto
    then have "ecc_env b home depth t" by (simp only: envs)
    then show ?thesis using ecc.read_one [OF s] ecc.read_one [of b home depth t] k ecc.logical_elsewhere [OF mem]
      by (simp add: area_word_def Ecc32_area)
  next
    case (Scrambled_area b)
    then obtain depth key nonce where s: "scr_env b home depth key nonce s" using env by auto
    then have "scr_env b home depth key nonce t" by (simp only: envs)
    then show ?thesis using scr.read_one [OF s] scr.read_one [of b home depth key nonce t] k scr.logical_elsewhere [OF mem]
      by (simp add: area_word_def Scrambled_area)
  qed
qed

section \<open>All memories\<close>

definition area_size :: "dpi_memutil \<Rightarrow> nat \<Rightarrow> nat" where
  "area_size d i = unat (ma_num_words (area_base (mem_areas d ! i)))"

text \<open>Every registered memory is in the design, each in a scope of its own, and smaller than the address
  space.\<close>

definition memories_present :: "dpi_memutil \<Rightarrow> string list \<Rightarrow> sim \<Rightarrow> bool" where
  "memories_present d homes s \<longleftrightarrow> distinct homes \<and> length homes = length (mem_areas d) \<and>
     list_all (\<lambda>i. area_present (mem_areas d ! i) (homes ! i) s \<and> area_size d i * area_width d i < 2 ^ 32) [0..<length (mem_areas d)]"

text \<open>If there is a scrambled memory, every call finds the same key and nonce in the arrays that are not
  initialised.\<close>

definition same_keys :: "dpi_memutil \<Rightarrow> sim \<Rightarrow> bool" where
  "same_keys d s \<longleftrightarrow> (list_ex is_scrambled (mem_areas d) \<longrightarrow> (\<exists>key nonce. same_contents key nonce s))"

text \<open>Both together.\<close>

definition memories_work :: "dpi_memutil \<Rightarrow> string list \<Rightarrow> sim \<Rightarrow> bool" where
  "memories_work d homes s \<longleftrightarrow> distinct homes \<and> length homes = length (mem_areas d) \<and>
     list_all (\<lambda>i. area_env (mem_areas d ! i) (homes ! i) s \<and> area_size d i * area_width d i < 2 ^ 32) [0..<length (mem_areas d)]"

lemma memories_work_iff: "memories_work d homes s \<longleftrightarrow> memories_present d homes s \<and> same_keys d s"
  by (auto simp: memories_work_def memories_present_def same_keys_def area_env_iff list_all_iff list_ex_length)

text \<open>The staged memory is one that loading accepts.\<close>

definition staged_for :: "dpi_memutil \<Rightarrow> nat \<Rightarrow> staged_mem \<Rightarrow> bool" where
  "staged_for d i sm \<longleftrightarrow> disjoint_sorted (segs sm) \<and>
     list_all (\<lambda>e. aligned_seg (area_width d i) (only_whole_words (mem_areas d ! i)) (fst e) (snd e) \<and>
       unat (rng_hi (fst e)) < area_size d i * area_width d i) (segs sm)"

lemma load_one:
  assumes reg: "registry_ok d" and i: "i < length (mem_areas d)" and s: "memories_work d homes s"
    and sm: "staged_for d i sm"
  shows "\<exists>t. load_staged d (names d ! i, sm) () s = (Inr (), t) \<and> memories_work d homes t \<and>
    (\<forall>j<length (mem_areas d). \<forall>k<area_size d j. area_word (mem_areas d ! j) k t =
       (if j = i then overlay_word (area_width d i) (staged_bytes sm) k (area_word (mem_areas d ! i) k s)
        else area_word (mem_areas d ! j) k s))"
proof -
  let ?a = "mem_areas d ! i" and ?w = "area_width d i" and ?n = "area_size d i"
  have env: "\<And>j. j < length (mem_areas d) \<Longrightarrow> area_env (mem_areas d ! j) (homes ! j) s" "?n * ?w < 2 ^ 32"
    and homes: "distinct homes" "length homes = length (mem_areas d)"
    using s i by (auto simp: memories_work_def list_all_iff)
  have width: "ma_width_byte (area_base ?a) \<noteq> 0"
    using env(1) [OF i] by (cases ?a) (auto simp: plain_env_def ecc_env_def scr_env_def scr_present_def)
  have run: "load_segment d (names d ! i) i e () t = (Inr (), t')"
    if "unat (rng_lo (fst e)) mod ?w = 0" and "area_Write ?a (rng_lo (fst e) div ma_width_byte (area_base ?a)) (snd e) t = (Inr (), t')"
    for e t t'
  proof -
    have "rng_lo (fst e) mod ma_width_byte (area_base ?a) = 0"
      using that(1) by (metis area_width_def unat_eq_zero unat_mod)
    then show ?thesis using that(2) width
      by (cases e) (simp add: load_segment_def GetWidthByte_def act_bind_def act_assert_def catch_scope_def act_return_def Let_def)
  qed
  have "\<exists>t. act_loop (load_segment d (names d ! i) i) (segs sm) () s = (Inr (), t) \<and> area_env ?a (homes ! i) t \<and>
      only_at (homes ! i) s t \<and>
      (\<forall>k<?n. area_word ?a k t = overlay_word ?w (contents seg_cell (segs sm)) k (area_word ?a k s))"
    by (rule area_load [OF env(1) [OF i] area_width_def area_size_def _ env(2)]) (use sm in \<open>simp_all add: staged_for_def run\<close>)
  then obtain t where t: "act_loop (load_segment d (names d ! i) i) (segs sm) () s = (Inr (), t)" "area_env ?a (homes ! i) t"
    "only_at (homes ! i) s t" "\<And>k. k < ?n \<Longrightarrow> area_word ?a k t = overlay_word ?w (contents seg_cell (segs sm)) k (area_word ?a k s)"
    by blast
  have other: "homes ! i \<noteq> homes ! j" if "j < length (mem_areas d)" "j \<noteq> i" for j
    using homes that i by (simp add: nth_eq_iff_index_eq)
  have "area_env (mem_areas d ! j) (homes ! j) t" if "j < length (mem_areas d)" for j
    using area_elsewhere(1) [OF t(3) other env(1)] t(2) that by (cases "j = i") simp_all
  then have "memories_work d homes t" using s by (simp add: memories_work_def list_all_iff)
  moreover have "area_word (mem_areas d ! j) k t =
       (if j = i then overlay_word ?w (staged_bytes sm) k (area_word ?a k s) else area_word (mem_areas d ! j) k s)"
    if "j < length (mem_areas d)" "k < area_size d j" for j k
    using t(4) area_elsewhere(2) [OF t(3) other env(1)] that by (auto simp: staged_bytes_def area_size_def)
  moreover have "map_of (name_to_mem d) (names d ! i) = Some i" using registry_name(1) [OF reg] i by simp
  then have "load_staged d (names d ! i, sm) () s = (Inr (), t)"
    using t(1) i reg by (simp add: load_staged_def registry_ok_def)
  ultimately show ?thesis by blast
qed

lemma load_all:
  assumes reg: "registry_ok d" and s: "memories_work d homes s" and dist: "distinct (map fst st)"
    and entries: "\<forall>e\<in>set st. \<exists>i<length (mem_areas d). fst e = names d ! i \<and> staged_for d i (snd e)"
  shows "\<exists>t. act_loop (load_staged d) st () s = (Inr (), t) \<and> memories_work d homes t \<and>
    (\<forall>j<length (mem_areas d). \<forall>k<area_size d j. area_word (mem_areas d ! j) k t =
       (case map_of st (names d ! j) of None \<Rightarrow> area_word (mem_areas d ! j) k s
        | Some sm \<Rightarrow> overlay_word (area_width d j) (staged_bytes sm) k (area_word (mem_areas d ! j) k s)))"
  using s dist entries
proof (induction st arbitrary: s)
  case Nil
  then show ?case by (auto simp: act_return_def)
next
  case (Cons e st)
  obtain name sm where e: "e = (name, sm)" by (cases e)
  obtain i where i: "i < length (mem_areas d)" "name = names d ! i" "staged_for d i sm" using Cons.prems(3) e by auto
  obtain s1 where s1: "load_staged d e () s = (Inr (), s1)" "memories_work d homes s1"
    "\<And>j k. j < length (mem_areas d) \<Longrightarrow> k < area_size d j \<Longrightarrow> area_word (mem_areas d ! j) k s1 =
       (if j = i then overlay_word (area_width d i) (staged_bytes sm) k (area_word (mem_areas d ! i) k s)
        else area_word (mem_areas d ! j) k s)"
    using load_one [OF reg i(1) Cons.prems(1) i(3)] e i(2) by blast
  obtain t where t: "act_loop (load_staged d) st () s1 = (Inr (), t)" "memories_work d homes t"
    "\<And>j k. j < length (mem_areas d) \<Longrightarrow> k < area_size d j \<Longrightarrow> area_word (mem_areas d ! j) k t =
       (case map_of st (names d ! j) of None \<Rightarrow> area_word (mem_areas d ! j) k s1
        | Some sm \<Rightarrow> overlay_word (area_width d j) (staged_bytes sm) k (area_word (mem_areas d ! j) k s1))"
    using Cons.IH [OF s1(2)] Cons.prems(2,3) by auto
  have new: "map_of st (names d ! i) = None" using Cons.prems(2) e i(2) by (simp add: map_of_eq_None_iff)
  have "distinct (names d)" "length (names d) = length (mem_areas d)" using reg by (simp_all add: registry_ok_def)
  then have same: "names d ! j = name \<longleftrightarrow> j = i" if "j < length (mem_areas d)" for j
    using that i(1,2) by (simp add: nth_eq_iff_index_eq)
  have "act_loop (load_staged d) (e # st) () s = (Inr (), t)" using s1(1) t(1) by (simp add: act_bind_def)
  moreover have "area_word (mem_areas d ! j) k t =
       (case map_of (e # st) (names d ! j) of None \<Rightarrow> area_word (mem_areas d ! j) k s
        | Some sm \<Rightarrow> overlay_word (area_width d j) (staged_bytes sm) k (area_word (mem_areas d ! j) k s))"
    if "j < length (mem_areas d)" "k < area_size d j" for j k
    unfolding t(3) [OF that] s1(3) [OF that] using same [OF that(1)] new e i(2) by (cases "j = i") (auto split: option.split)
  ultimately show ?case using t(2) by blast
qed

text \<open>What staging leaves is what loading accepts.\<close>

lemma staged_for_view:
  assumes sm: "staged_inv sm" "staged_bytes sm = view d i m"
    and al: "list_all (\<lambda>e. aligned_seg (area_width d i) (only_whole_words (mem_areas d ! i)) (fst e) (snd e)) (segs sm)"
    and size: "area_size d i * area_width d i < 2 ^ 32"
  shows "staged_for d i sm"
proof -
  have ds: "disjoint_sorted (segs sm)" using sm(1) by (simp add: staged_inv_def)
  have bytes: "unat (area_bytes d i) = area_size d i * area_width d i"
    using size by (simp add: area_bytes_def GetSizeBytes_def area_size_def area_width_def unat_mult_lem [THEN iffD1])
  have "unat (rng_hi (fst e)) < area_size d i * area_width d i" if e: "e \<in> set (segs sm)" for e
  proof -
    have ok: "list_all (\<lambda>e. seg_ok (fst e) (snd e)) (segs sm)" using al by (simp add: list_all_iff aligned_seg_def)
    have "covers (fst e) (rng_hi (fst e))" using disjoint_sorted_valid [OF ds e] by (simp add: covers_def)
    then have "rng_hi (fst e) \<in> dom (staged_bytes sm)"
      unfolding staged_bytes_def staged.contents_dom [OF ok] using e by blast
    then have "rng_hi (fst e) < area_bytes d i" unfolding sm(2) by (auto simp: view_def split: if_splits)
    then show ?thesis by (simp add: word_less_nat_alt bytes)
  qed
  then show ?thesis using ds al by (simp add: staged_for_def list_all_iff)
qed

section \<open>Properties\<close>

text \<open>C1: Loading an ELF file.  When all registered memories are in the design, each loadable segment lies within
  one of them, starts at a multiple of its width, lies within the file, and is a number of whole words if the
  memory has integrity bits, then the file is loaded.  Afterwards the methods of each memory read in every word
  what the file's segments, laid over each other in file order, say for it: a word without a byte of the file is
  unchanged, and the bytes of the others that are not in the file are zero.  When one of the memories is
  scrambled this needs the hypothesis \<open>same_keys\<close>, which the code does not ensure: all its calls find the
  same key and nonce in the arrays that are not initialised.\<close>

theorem load_elf_to_memories:
  assumes "registry_ok d" and "widths_ok d" and "opens h path raw n phdrs" and "memories_present d homes s"
    and "same_keys d s"
    and "list_all (\<lambda>p. loadable p \<longrightarrow> placeable d raw p \<and> whole_words (\<lambda>i. only_whole_words (mem_areas d ! i)) d raw p)
      (take n phdrs)"
  shows "\<exists>st t. LoadElfToMemories h path (d, s) = (Inr (), (d\<lparr>staging_area := st\<rparr>, t)) \<and> memories_present d homes t \<and> same_keys d t \<and>
    (\<forall>i<length (mem_areas d). \<forall>k<area_size d i. area_word (mem_areas d ! i) k t =
       overlay_word (area_width d i) (view d i (elf_image raw (take n phdrs))) k (area_word (mem_areas d ! i) k s))"
proof -
  let ?whole = "\<lambda>i. only_whole_words (mem_areas d ! i)" and ?image = "elf_image raw (take n phdrs)"
  note run = opens_run [OF assms(3)]
  have ok: "\<forall>p\<in>set (take n phdrs). loadable p \<longrightarrow> placeable d raw p"
    "list_all (\<lambda>p. loadable p \<longrightarrow> whole_words ?whole d raw p) (take n phdrs)"
    using assms(6) by (auto simp: list_all_iff)
  obtain st where st: "act_loop (stage_segment path raw phdrs) [0..<n] () (d\<lparr>staging_area := []\<rparr>) = (Inr (), d\<lparr>staging_area := st\<rparr>)"
    "staging_ok (d\<lparr>staging_area := st\<rparr>)" "staged_view (d\<lparr>staging_area := st\<rparr>) ?image"
    "staged_aligned ?whole (d\<lparr>staging_area := st\<rparr>)"
    using stage_loop [OF assms(1,2) run(5) ok(1), of path ?whole] ok(2) by blast
  let ?d = "d\<lparr>staging_area := st\<rparr>"
  have stage: "StageElf h path d = (Inr (), ?d)"
    using run(1-4) st(1) by (simp add: StageElf_def act_bind_def act_lift_def)
  have ord: "ordered st" "fst ` set st \<subseteq> set (names d)" using st(2) by (simp_all add: staging_ok_def)
  have data: "staged_bytes (GetMemoryData ?d (names d ! i)) = view d i ?image" if "i < length (mem_areas d)" for i
    using st(3) that by (simp add: staged_view_def list_all_iff)
  have same: "mem_areas ?d = mem_areas d" "names ?d = names d" "area_width ?d = area_width d" "area_size ?d = area_size d"
    by (simp_all add: area_size_def fun_eq_iff)
  have reg: "registry_ok ?d" "memories_work ?d homes s"
    using assms(1) memories_work_iff [of d homes s] assms(4,5) by (simp_all add: memories_work_def area_size_def)
  have "\<exists>i<length (mem_areas ?d). fst e = names ?d ! i \<and> staged_for ?d i (snd e)" if e: "e \<in> set st" for e
  proof -
    have "fst e \<in> set (names d)" using ord(2) e by blast
    then obtain i where i: "i < length (mem_areas d)" "fst e = names d ! i"
      using assms(1) by (auto simp: in_set_conv_nth registry_ok_def)
    have "GetMemoryData ?d (names d ! i) = snd e"
      using map_of_entry [OF ord(1), of "fst e" "snd e"] e by (simp add: GetMemoryData_def i(2) [symmetric])
    then have "staged_for ?d i (snd e)"
      using staged_for_view [of "snd e" ?d i ?image] staged_inv_data [OF st(2), of "names d ! i"] data [OF i(1)] st(4) reg(2) i(1)
      by (simp add: staged_aligned_def memories_work_def list_all_iff)
    then show ?thesis using i by auto
  qed
  then obtain t where t: "act_loop (load_staged ?d) st () s = (Inr (), t)" "memories_work ?d homes t"
    "\<And>j k. j < length (mem_areas d) \<Longrightarrow> k < area_size d j \<Longrightarrow> area_word (mem_areas d ! j) k t =
       (case map_of st (names d ! j) of None \<Rightarrow> area_word (mem_areas d ! j) k s
        | Some sm \<Rightarrow> overlay_word (area_width d j) (staged_bytes sm) k (area_word (mem_areas d ! j) k s))"
    using load_all [OF reg ordered_distinct [OF ord(1)]] unfolding same by blast
  have "area_word (mem_areas d ! i) k t = overlay_word (area_width d i) (view d i ?image) k (area_word (mem_areas d ! i) k s)"
    if i: "i < length (mem_areas d)" "k < area_size d i" for i k
    unfolding t(3) [OF i] data [OF i(1), symmetric]
    by (auto simp: GetMemoryData_def staged_bytes_empty overlay_word_none split: option.split)
  moreover have "LoadElfToMemories h path (d, s) = (Inr (), (?d, t))" using stage t(1) by (simp add: LoadElfToMemories_def)
  moreover have "memories_work d homes t" using t(2) by (simp add: memories_work_def area_size_def)
  ultimately show ?thesis by (auto simp: memories_work_iff)
qed

text \<open>A design with a memory of each class, and a file with a segment for each.\<close>

definition demo_three :: dpi_memutil where
  "demo_three = \<lparr>mem_areas = [Plain_area demo_plain, Ecc32_area \<lparr>ma_scope = ''TOP.e'', ma_num_words = 8, ma_width_byte = 8\<rparr>,
       Scrambled_area \<lparr>scr_base = \<lparr>ma_scope = ''TOP.s'', ma_num_words = 8, ma_width_byte = 8\<rparr>, scr_scope = ''TOP.s'',
         addr_width = 3, repeat_keystream = True\<rparr>],
     base_addrs = [0x1000, 0x2000, 0x3000], names = [''ram'', ''rom'', ''scr''],
     name_to_mem = [(''ram'', 0), (''rom'', 1), (''scr'', 2)],
     addr_to_mem = [(AddrRange 0x1000 0x101f, 0), (AddrRange 0x2000 0x203f, 1), (AddrRange 0x3000 0x303f, 2)],
     staging_area = []\<rparr>"

definition demo_design :: sim where
  "demo_design = \<lparr>cur_scope = Some ''TOP'', scope_exists = (\<lambda>n. n = ''TOP.m'' \<or> n = ''TOP.e'' \<or> n = ''TOP.s''),
     mem_at = [''TOP.m'' \<mapsto> \<lparr>mem_width = 32, mem_depth = 8, mem_word = (\<lambda>_. replicate 40 9)\<rparr>,
       ''TOP.e'' \<mapsto> \<lparr>mem_width = 78, mem_depth = 8, mem_word = (\<lambda>_. replicate 40 0)\<rparr>,
       ''TOP.s'' \<mapsto> \<lparr>mem_width = 78, mem_depth = 8, mem_word = (\<lambda>_. replicate 40 0)\<rparr>],
     key_minibuf = (\<lambda>_ j. word_of_nat j), nonce_minibuf = (\<lambda>_ _. 5)\<rparr>"

definition three_phdrs :: "phdr list" where
  "three_phdrs = [\<lparr>p_type = 1, p_offset = 0, p_paddr = 0x1004, p_filesz = 6\<rparr>,
     \<lparr>p_type = 1, p_offset = 0, p_paddr = 0x2008, p_filesz = 8\<rparr>, \<lparr>p_type = 1, p_offset = 0, p_paddr = 0x3010, p_filesz = 8\<rparr>]"

definition three_host :: host where
  "three_host = demo_host\<lparr>elf_getphdrnum := (\<lambda>_. Inr 3), elf32_getphdr := (\<lambda>_. Inr three_phdrs)\<rparr>"

lemma demo_three_ok: "registry_ok demo_three" "widths_ok demo_three"
  "opens three_host ''a.elf'' [1, 2, 3, 4, 5, 6, 7, 8] 3 three_phdrs"
  "memories_present demo_three [''TOP.m'', ''TOP.e'', ''TOP.s''] demo_design" "same_keys demo_three demo_design"
proof -
  show "registry_ok demo_three" "widths_ok demo_three"
    by (auto simp: demo_three_def registry_ok_def disjoint_sorted_def area_range_def area_bytes_def GetSizeBytes_def
      demo_plain_def widths_ok_def)
  show "opens three_host ''a.elf'' [1, 2, 3, 4, 5, 6, 7, 8] 3 three_phdrs"
    by (simp add: opens_def three_host_def demo_host_def three_phdrs_def ElfFile_def)
  have present: "mem_present demo_design n n w 8"
    if "(n, w) \<in> {(''TOP.m'', 32), (''TOP.e'', 78), (''TOP.s'', 78)}" for n w
    using that by (auto simp: mem_present_def resolves_def demo_design_def SetRelScope_def SetAbsScope_def)
  have plain: "plain_env demo_plain ''TOP.m'' 8 demo_design"
    by (simp add: plain_env_def demo_plain_def present)
  have ecc: "ecc_env \<lparr>ma_scope = ''TOP.e'', ma_num_words = 8, ma_width_byte = 8\<rparr> ''TOP.e'' 8 demo_design"
    by (simp add: ecc_env_def present)
  have "vbits 8 = Inr 3" by (simp add: vbits_def)
  moreover have "ok (fst (SetRelScope ''TOP.s'' demo_design))"
    by (simp add: SetRelScope_def SetAbsScope_def demo_design_def)
  ultimately have scr: "scr_present \<lparr>scr_base = \<lparr>ma_scope = ''TOP.s'', ma_num_words = 8, ma_width_byte = 8\<rparr>, scr_scope = ''TOP.s'',
         addr_width = 3, repeat_keystream = True\<rparr> ''TOP.s'' 8 demo_design"
    by (simp add: scr_present_def present)
  have range: "[0..<length (mem_areas demo_three)] = [0, 1, 2]" by (simp add: demo_three_def upt_conv_Cons)
  show "memories_present demo_three [''TOP.m'', ''TOP.e'', ''TOP.s''] demo_design"
    using plain ecc scr unfolding memories_present_def range
    by (auto simp: demo_three_def area_size_def area_width_def demo_plain_def)
  show "same_keys demo_three demo_design"
    by (auto simp: same_keys_def same_contents_def demo_design_def)
qed

theorem load_elf_to_memories_witness:
  "\<exists>st t. LoadElfToMemories three_host ''a.elf'' (demo_three, demo_design) = (Inr (), (demo_three\<lparr>staging_area := st\<rparr>, t)) \<and>
    memories_present demo_three [''TOP.m'', ''TOP.e'', ''TOP.s''] t \<and> same_keys demo_three t \<and>
    (\<forall>i<length (mem_areas demo_three). \<forall>k<area_size demo_three i. area_word (mem_areas demo_three ! i) k t =
       overlay_word (area_width demo_three i) (view demo_three i (elf_image [1, 2, 3, 4, 5, 6, 7, 8] (take 3 three_phdrs))) k
         (area_word (mem_areas demo_three ! i) k demo_design))"
proof -
  have "list_all (\<lambda>p. loadable p \<longrightarrow> placeable demo_three [1, 2, 3, 4, 5, 6, 7, 8] p \<and>
      whole_words (\<lambda>i. only_whole_words (mem_areas demo_three ! i)) demo_three [1, 2, 3, 4, 5, 6, 7, 8] p) (take 3 three_phdrs)"
    by (simp add: three_phdrs_def loadable_def PT_LOAD_def placeable_def placeable_at_def seg_in_def demo_three_def
      area_bytes_def GetSizeBytes_def demo_plain_def whole_words_def area_width_def)
  then show ?thesis by (rule load_elf_to_memories [OF demo_three_ok])
qed

end
