(* ===== verification/Verilated_Toplevel.thy ===== *)
theory Verilated_Toplevel
  imports Outcome
begin

text \<open>
  \<open>verilated_toplevel.h\<close>: what the harness sees of the design and of the tracer.  The class that Verilator
  generates for the design is the parameter \<open>toplevel\<close>, together with the clock and the files of the
  computer.  \<open>VerilatedTracer\<close> forwards its calls to the tracer of Verilator when tracing is compiled in, and
  does nothing otherwise; the calls are kept in order.
\<close>

section \<open>The design\<close>

text \<open>\<open>'w\<close> is the state of everything outside the controller.  \<open>eval\<close> reads the clock and the reset, and
  also says whether it has called \<open>vl_stop\<close>; \<open>got_finish\<close> and \<open>command_args\<close> are \<open>Verilated::gotFinish\<close>
  and \<open>Verilated::commandArgs\<close>.  \<open>steady_clock\<close> is the time in nanoseconds, and \<open>stat_size\<close> the size of a file,
  if \<open>stat\<close> finds it.\<close>

record 'w toplevel =
  top_eval :: "u8 \<Rightarrow> u8 \<Rightarrow> 'w \<Rightarrow> 'w \<times> bool"
  top_final :: "'w \<Rightarrow> 'w"
  got_finish :: "'w \<Rightarrow> bool"
  command_args :: "string list \<Rightarrow> 'w \<Rightarrow> 'w"
  steady_clock :: "'w \<Rightarrow> int"
  stat_size :: "string \<Rightarrow> 'w \<Rightarrow> int option"

section \<open>The tracer\<close>

text \<open>The calls to Verilator's tracing: \<open>traceEverOn(true)\<close> and \<open>trace\<close> of the generated class, which attaches the
  design, are among them.\<close>

datatype trace_call = Ever_on | Attach int int | Open_file string | Dump_at u64 | Close_file

record tracer =
  trace_compiled :: bool
  trace_calls :: "trace_call list"

definition VerilatedTracer :: "bool \<Rightarrow> tracer" where
  "VerilatedTracer vm_trace = \<lparr>trace_compiled = vm_trace, trace_calls = []\<rparr>"

definition forward :: "trace_call \<Rightarrow> tracer \<Rightarrow> tracer" where
  "forward call t = (if trace_compiled t then t\<lparr>trace_calls := trace_calls t @ [call]\<rparr> else t)"

text \<open>Verilator's tracer is open from \<open>open\<close> to \<open>close\<close>.\<close>

definition impl_is_open :: "trace_call list \<Rightarrow> bool" where
  "impl_is_open calls =
     fold (\<lambda>call is_open. case call of Open_file _ \<Rightarrow> True | Close_file \<Rightarrow> False | _ \<Rightarrow> is_open) calls False"

definition tracer_isOpen :: "tracer \<Rightarrow> bool" where
  "tracer_isOpen t = (trace_compiled t \<and> impl_is_open (trace_calls t))"

definition tracer_open :: "string \<Rightarrow> tracer \<Rightarrow> tracer" where
  "tracer_open filename = forward (Open_file filename)"

definition tracer_close :: "tracer \<Rightarrow> tracer" where
  "tracer_close = forward Close_file"

definition tracer_dump :: "u64 \<Rightarrow> tracer \<Rightarrow> tracer" where
  "tracer_dump timeui = forward (Dump_at timeui)"

text \<open>\<open>Verilated::traceEverOn(true)\<close>, and \<open>trace\<close> of the toplevel.\<close>

definition traceEverOn :: "tracer \<Rightarrow> tracer" where
  "traceEverOn = forward Ever_on"

definition toplevel_trace :: "int \<Rightarrow> int \<Rightarrow> tracer \<Rightarrow> tracer res" where
  "toplevel_trace levels options tfp =
     (if trace_compiled tfp then Inr (forward (Attach levels options) tfp) else Inl Assert_failed)"

section \<open>One recording\<close>

text \<open>The calls of a recording: the design is attached first, and the file is opened for the first dump.\<close>

definition recording :: "bool \<Rightarrow> string \<Rightarrow> u64 list \<Rightarrow> bool \<Rightarrow> trace_call list" where
  "recording attached file ts closed =
     (if attached then [Ever_on, Attach 99 0] else []) @
     (if ts = [] then [] else Open_file file # map Dump_at ts) @ (if closed then [Close_file] else [])"

lemma fold_dumps: "fold (\<lambda>call is_open. case call of Open_file _ \<Rightarrow> True | Close_file \<Rightarrow> False | _ \<Rightarrow> is_open)
    (map Dump_at ts) b = b"
  by (induction ts) simp_all

lemma recording_is_open: "impl_is_open (recording attached file ts False) = (ts \<noteq> [])"
  by (simp add: impl_is_open_def recording_def fold_dumps)

lemma recording_dump:
  "(if ts = [] then recording attached file [] False @ [Open_file file] else recording attached file ts False) @ [Dump_at t] =
    recording attached file (ts @ [t]) False"
  by (simp add: recording_def)

end
