(* ===== verification/Getopt.thy ===== *)
theory Getopt
  imports Outcome "HOL-Library.Sublist"
begin

text \<open>
  The part of \<open>getopt_long\<close> of the C library that the two command line parsers use.  Both pass an option
  string that starts with \<open>-:\<close>, so arguments that are no options are reported in place, a missing
  argument is told apart from an unknown option, and nothing is printed.  A scan gives the results of
  all calls up to the one that returns \<open>-1\<close>; it starts at the argument after the program's name.
  The last section reads usage messages, so that they can be compared with the tables of options.
\<close>

datatype has_arg = no_argument | required_argument | optional_argument

type_synonym long_option = "string \<times> has_arg \<times> char"

text \<open>What a call reports: 1 with the argument in \<open>optarg\<close>; an option with its \<open>optarg\<close>, if there is one; \<open>:\<close>;
  \<open>?\<close>.\<close>

datatype opt_event =
    Nonoption string
  | Opt char "string option"
  | Missing_argument
  | Unrecognised

text \<open>The entry of a character in the option string, without its leading \<open>-\<close>.\<close>

fun short_arg :: "string \<Rightarrow> char \<Rightarrow> has_arg option" where
  "short_arg [] c = None"
| "short_arg (x # xs) c =
     (if c = CHR '':'' \<or> c = CHR '';'' then None
      else if x = c
      then Some (if prefix ''::'' xs then optional_argument
                 else if prefix '':'' xs then required_argument else no_argument)
      else short_arg xs c)"

text \<open>A long option is found by its name, or by the beginning of its name when that is not ambiguous.\<close>

definition find_long :: "long_option list \<Rightarrow> string \<Rightarrow> long_option option" where
  "find_long opts name =
     (case filter (\<lambda>p. fst p = name) opts of
        p # _ \<Rightarrow> Some p
      | [] \<Rightarrow>
         (case filter (\<lambda>p. prefix name (fst p)) opts of
            [] \<Rightarrow> None
          | p # ps \<Rightarrow> if list_all (\<lambda>q. snd q = snd p) ps then Some p else None))"

text \<open>The first argument of the function is what is left of a group of short options.\<close>

function getopt_scan :: "string \<Rightarrow> long_option list \<Rightarrow> string \<Rightarrow> string list \<Rightarrow> opt_event list" where
  "getopt_scan shorts longs (c # cs) args =
     (case short_arg shorts c of
        None \<Rightarrow> Unrecognised # getopt_scan shorts longs cs args
      | Some no_argument \<Rightarrow> Opt c None # getopt_scan shorts longs cs args
      | Some optional_argument \<Rightarrow>
          Opt c (if cs = [] then None else Some cs) # getopt_scan shorts longs [] args
      | Some required_argument \<Rightarrow>
          if cs \<noteq> [] then Opt c (Some cs) # getopt_scan shorts longs [] args
          else (case args of
              [] \<Rightarrow> [Missing_argument]
            | b # args' \<Rightarrow> Opt c (Some b) # getopt_scan shorts longs [] args'))"
| "getopt_scan shorts longs [] [] = []"
| "getopt_scan shorts longs [] (a # args) =
     (if a = ''--'' then []
      else if \<not> prefix ''-'' a \<or> a = ''-'' then Nonoption a # getopt_scan shorts longs [] args
      else if prefix ''--'' a then
        let body = drop 2 a;
            name = takeWhile (\<lambda>c. c \<noteq> CHR ''='') body;
            val = dropWhile (\<lambda>c. c \<noteq> CHR ''='') body
        in (case find_long longs name of
              None \<Rightarrow> Unrecognised # getopt_scan shorts longs [] args
            | Some (_, kind, v) \<Rightarrow>
                if val \<noteq> [] then
                  (if kind = no_argument then Unrecognised else Opt v (Some (tl val))) #
                    getopt_scan shorts longs [] args
                else if kind = required_argument then
                  (case args of
                     [] \<Rightarrow> [Missing_argument]
                   | b # args' \<Rightarrow> Opt v (Some b) # getopt_scan shorts longs [] args')
                else Opt v None # getopt_scan shorts longs [] args)
      else getopt_scan shorts longs (tl a) args)"
  by pat_completeness auto

termination
  by (relation "measure (\<lambda>(_, _, cs, args). length cs + sum_list (map (\<lambda>a. Suc (length a)) args))")
    (auto simp: less_Suc_eq)

text \<open>\<open>getopt_long(argc, argv, ...)\<close> until it returns \<open>-1\<close>, for an option string that starts with \<open>-\<close>.\<close>

definition getopt_long :: "string list \<Rightarrow> string \<Rightarrow> long_option list \<Rightarrow> opt_event list" where
  "getopt_long argv optstring longs = getopt_scan (tl optstring) longs [] (tl argv)"

section \<open>Options with a value\<close>

lemma find_long_exact:
  "(name, k, v) \<in> set opts \<Longrightarrow> distinct (map fst opts) \<Longrightarrow> find_long opts name = Some (name, k, v)"
proof -
  assume mem: "(name, k, v) \<in> set opts" and dist: "distinct (map fst opts)"
  have "filter (\<lambda>p. fst p = name) opts = [(name, k, v)]"
    using mem dist
  proof (induction opts)
    case (Cons p ps)
    show ?case
    proof (cases "fst p = name")
      case True
      then have new: "name \<notin> fst ` set ps" using Cons.prems(2) by auto
      then have "(name, k, v) \<notin> set ps" by (metis fst_conv imageI)
      then have "p = (name, k, v)" using Cons.prems(1) by simp
      moreover have "filter (\<lambda>p. fst p = name) ps = []" using new by (auto simp: filter_empty_conv)
      ultimately show ?thesis by simp
    qed (use Cons in auto)
  qed simp
  then show ?thesis by (simp add: find_long_def)
qed

text \<open>\<open>--name=value\<close>\<close>

lemma scan_long_value:
  assumes "find_long longs name = Some (p, k, v)" and "k \<noteq> no_argument" and "CHR ''='' \<notin> set name"
  shows "getopt_scan shorts longs [] ((''--'' @ name @ CHR ''='' # val) # args) =
    Opt v (Some val) # getopt_scan shorts longs [] args"
proof -
  have "takeWhile (\<lambda>c. c \<noteq> CHR ''='') (name @ CHR ''='' # val) = name"
    "dropWhile (\<lambda>c. c \<noteq> CHR ''='') (name @ CHR ''='' # val) = CHR ''='' # val"
    using assms(3) by (auto simp: takeWhile_tail dropWhile_append3 takeWhile_append2 dropWhile_append2)
  then show ?thesis using assms(1,2) by (auto simp: Let_def)
qed

text \<open>\<open>-x value\<close>\<close>

lemma scan_short_value:
  "short_arg shorts c = Some required_argument \<Longrightarrow> c \<noteq> CHR ''-'' \<Longrightarrow>
    getopt_scan shorts longs [] ([CHR ''-'', c] # val # args) = Opt c (Some val) # getopt_scan shorts longs [] args"
  by simp

text \<open>An argument that is no option.\<close>

lemma scan_nonoption:
  "\<not> prefix ''-'' a \<Longrightarrow> getopt_scan shorts longs [] (a # args) = Nonoption a # getopt_scan shorts longs [] args"
  by (cases a) auto

section \<open>Usage messages\<close>

text \<open>A message of several lines, and its lines.\<close>

definition nl :: string where
  "nl = [CHR 0x0A]"

fun split_lines :: "string \<Rightarrow> string list" where
  "split_lines [] = [[]]"
| "split_lines (c # cs) =
     (if c = CHR 0x0A then [] # split_lines cs
      else case split_lines cs of [] \<Rightarrow> [[c]] | l # ls \<Rightarrow> (c # l) # ls)"

text \<open>A usage message documents an option by a line such as \<open>-r|--rominit=FILE\<close> or \<open>--help\<close>: the short option,
  if there is one, the long one, and whether it needs an argument.\<close>

fun after_dashes :: "string \<Rightarrow> string" where
  "after_dashes [] = []"
| "after_dashes (c # cs) = (if prefix ''--'' (c # cs) then tl cs else after_dashes cs)"

definition documented :: "string \<Rightarrow> (char option \<times> string \<times> bool) list" where
  "documented message =
     map (\<lambda>l. (if prefix ''--'' l then None else Some (l ! 1), takeWhile (\<lambda>c. c \<noteq> CHR ''='') (after_dashes l), CHR ''='' \<in> set l))
       (filter (prefix ''-'') (split_lines message))"

text \<open>What the tables given to \<open>getopt_long\<close> say of an option.\<close>

definition accepted :: "string \<Rightarrow> long_option \<Rightarrow> char option \<times> string \<times> bool" where
  "accepted optstring = (\<lambda>(name, kind, c).
     (if short_arg (tl optstring) c = None then None else Some c, name, kind = required_argument))"

text \<open>A message is taken apart line by line.\<close>

lemma split_lines_nl: "CHR 0x0A \<notin> set l \<Longrightarrow> split_lines (l @ nl @ rest) = l # split_lines rest"
  by (induction l) (auto simp: nl_def)

end
