(* ===== verification/Verilator_Memutil.thy ===== *)
theory Verilator_Memutil
  imports Dpi_Memutil Getopt
begin

text \<open>
  \<open>verilator_memutil.cc\<close>: the command line of the memory utilities.  The state is that of the wrapped
  \<open>DpiMemUtil\<close> and of the design.  Messages other than that of
  \<open>--help\<close> are left out, so \<open>verbose\<close> has no further use.
  The theory shows that the argument of \<open>--meminit\<close> is parsed as its fields between commas, that the
  parser never lets an exception through, that files are loaded in the order of the command line,
  and that the usage message documents the options.
\<close>

record load_arg =
  la_name :: string
  la_filepath :: string
  la_type :: MemImageType

text \<open>\<open>s.find(c, pos)\<close>\<close>

definition find_from :: "char \<Rightarrow> string \<Rightarrow> nat \<Rightarrow> nat option" where
  "find_from c s pos =
     (if c \<in> set (drop pos s) then Some (pos + length (takeWhile (\<lambda>x. x \<noteq> c) (drop pos s))) else None)"

text \<open>The loop of \<open>ParseMemArg\<close>, which ends with \<open>i\<close> and the array \<open>args\<close>.\<close>

function mem_arg_loop :: "string \<Rightarrow> nat \<Rightarrow> nat \<Rightarrow> string list \<Rightarrow> (nat \<times> string list) res" where
  "mem_arg_loop mem_argument i pos args =
     (if \<not> i < 3 then Inr (i, args)
      else
        let end_pos = find_from CHR '','' mem_argument pos in
        if end_pos = Some pos then Inl (Throw (Runtime_error (Empty_field mem_argument)))
        else (case end_pos of
            None \<Rightarrow> Inr (i, args[i := drop pos mem_argument])
          | Some e \<Rightarrow> mem_arg_loop mem_argument (i + 1) (e + 1) (args[i := take (e - pos) (drop pos mem_argument)])))"
  by pat_completeness auto

termination by (relation "measure (\<lambda>(_, i, _, _). 3 - i)") auto

definition ParseMemArg :: "string \<Rightarrow> load_arg res" where
  "ParseMemArg mem_argument =
     res_bind (mem_arg_loop mem_argument 0 0 [[], [], []]) (\<lambda>(i, args).
     if i = 0 then Inl (Throw (Runtime_error (Bad_meminit_format mem_argument)))
     else
       let str_type = (if 2 \<le> i then Some (args ! 2) else None)
       in res_bind (GetMemImageType (args ! 1) str_type) (\<lambda>type.
          Inr \<lparr>la_name = args ! 0, la_filepath = args ! 1, la_type = type\<rparr>))"

definition memutil_options :: "long_option list" where
  "memutil_options =
     [(''rominit'', required_argument, CHR ''r''),
      (''raminit'', required_argument, CHR ''m''),
      (''flashinit'', required_argument, CHR ''f''),
      (''otpinit'', required_argument, CHR ''o''),
      (''meminit'', required_argument, CHR ''l''),
      (''verbose-mem-load'', no_argument, CHR ''V''),
      (''load-elf'', required_argument, CHR ''E''),
      (''help'', no_argument, CHR ''h'')]"

definition memutil_optstring :: string where
  "memutil_optstring = ''-:r:m:f:l:E:h''"

text \<open>The message of \<open>--help\<close>.\<close>

definition MemUtil_PrintHelp :: string where
  "MemUtil_PrintHelp =
     ''Simulation memory utilities:'' @ nl @ nl @
     ''-r|--rominit=FILE'' @ nl @
     ''  Initialize the ROM with FILE (elf/vmem)'' @ nl @ nl @
     ''-m|--raminit=FILE'' @ nl @
     ''  Initialize the RAM with FILE (elf/vmem)'' @ nl @ nl @
     ''-f|--flashinit=FILE'' @ nl @
     ''  Initialize the FLASH with FILE (elf/vmem)'' @ nl @ nl @
     ''-l|--meminit=NAME,FILE[,TYPE]'' @ nl @
     ''  Initialize memory region NAME with FILE [of TYPE]'' @ nl @
     ''  TYPE is either '' @ [CHR 0x27] @ ''elf'' @ [CHR 0x27] @ '' or '' @ [CHR 0x27] @ ''vmem'' @ [CHR 0x27] @ nl @ nl @
     ''-E|--load-elf=FILE'' @ nl @
     ''  Load ELF file, using segment LMAs to pick memory regions'' @ nl @ nl @
     ''-l list|--meminit=list'' @ nl @
     ''  Print registered memory regions'' @ nl @ nl @
     ''--verbose-mem-load'' @ nl @
     ''  Print a message for each memory load'' @ nl @ nl @
     ''-h|--help'' @ nl @
     ''  Show help'' @ nl @ nl"

text \<open>\<open>strcasecmp(s, "list") == 0\<close>\<close>

definition tolower :: "char \<Rightarrow> char" where
  "tolower c = (if CHR ''A'' \<le> c \<and> c \<le> CHR ''Z'' then char_of ((of_char c :: nat) + 32) else c)"

definition is_list :: "string \<Rightarrow> bool" where
  "is_list s \<longleftrightarrow> map tolower s = ''list''"

text \<open>How the loop over the options ends: with what is to be loaded, or with a value returned and the
  value of \<open>exit_app\<close>.\<close>

datatype options_end = Load_files "load_arg list" bool | Return_now bool bool

fun option_loop ::
  "dpi_memutil \<Rightarrow> bool \<Rightarrow> opt_event list \<Rightarrow> load_arg list \<Rightarrow> bool \<Rightarrow> options_end res" where
  "option_loop d exit_app [] load_args verbose = Inr (Load_files load_args verbose)"
| "option_loop d exit_app (Nonoption _ # es) load_args verbose = option_loop d exit_app es load_args verbose"
| "option_loop d exit_app (Missing_argument # es) load_args verbose = Inr (Return_now False exit_app)"
| "option_loop d exit_app (Unrecognised # es) load_args verbose = option_loop d exit_app es load_args verbose"
| "option_loop d exit_app (Opt c None # es) load_args verbose =
     (if c = CHR ''V'' then option_loop d exit_app es load_args True
      else if c = CHR ''h'' then Inr (Return_now True exit_app)
      else if c \<in> set ''rmfolE'' then Inl Undefined
      else option_loop d exit_app es load_args verbose)"
| "option_loop d exit_app (Opt c (Some optarg) # es) load_args verbose =
     (let named = (\<lambda>name. option_loop d exit_app es
        (load_args @ [\<lparr>la_name = name, la_filepath = optarg, la_type = kMemImageUnknown\<rparr>]) verbose) in
      if c = CHR ''r'' then named ''rom''
      else if c = CHR ''m'' then named ''ram''
      else if c = CHR ''f'' then named ''flash''
      else if c = CHR ''o'' then named ''otp''
      else if c = CHR ''l'' then
        (if is_list optarg
         then res_bind (PrintMemRegions d) (\<lambda>_. Inr (Return_now True True))
         else (case ParseMemArg optarg of
             Inr arg \<Rightarrow> option_loop d exit_app es (load_args @ [arg]) verbose
           | Inl (Throw (Runtime_error _)) \<Rightarrow> Inr (Return_now False exit_app)
           | Inl e \<Rightarrow> Inl e))
      else if c = CHR ''V'' then option_loop d exit_app es load_args True
      else if c = CHR ''E'' then option_loop d exit_app es
        (load_args @ [\<lparr>la_name = [], la_filepath = optarg, la_type = kMemImageElf\<rparr>]) verbose
      else if c = CHR ''h'' then Inr (Return_now True exit_app)
      else option_loop d exit_app es load_args verbose)"

definition load_file :: "host \<Rightarrow> load_arg \<Rightarrow> (dpi_memutil \<times> sim, unit) act" where
  "load_file h arg = (\<lambda>(d, s).
     if la_name arg \<noteq> []
     then (case LoadFileToNamedMem h d (la_name arg) (la_filepath arg) (la_type arg) s of (r, s) \<Rightarrow> (r, (d, s)))
     else if la_type arg \<noteq> kMemImageElf then (Inl Assert_failed, (d, s))
     else LoadElfToMemories h (la_filepath arg) (d, s))"

text \<open>\<open>catch (const std::exception &err)\<close> takes every exception thrown here.\<close>

fun load_files :: "host \<Rightarrow> load_arg list \<Rightarrow> (dpi_memutil \<times> sim, bool) act" where
  "load_files h [] st = (Inr True, st)"
| "load_files h (arg # args) st =
     (case load_file h arg st of
        (Inr _, st) \<Rightarrow> load_files h args st
      | (Inl (Throw _), st) \<Rightarrow> (Inr False, st)
      | (Inl e, st) \<Rightarrow> (Inl e, st))"

text \<open>Returns what the method returns and \<open>exit_app\<close>.\<close>

definition ParseCLIArguments ::
  "host \<Rightarrow> string list \<Rightarrow> bool \<Rightarrow> (dpi_memutil \<times> sim, bool \<times> bool) act" where
  "ParseCLIArguments h argv exit_app = (\<lambda>(d, s).
     case option_loop d exit_app (getopt_long argv memutil_optstring memutil_options) [] False of
       Inl e \<Rightarrow> (Inl e, (d, s))
     | Inr (Return_now ret exit_app) \<Rightarrow> (Inr (ret, exit_app), (d, s))
     | Inr (Load_files load_args verbose) \<Rightarrow>
         act_bind (load_files h load_args) (\<lambda>ret. act_return (ret, exit_app)) (d, s))"

section \<open>The argument of \<open>--meminit\<close>\<close>

declare mem_arg_loop.simps [simp del]

text \<open>The fields between commas.\<close>

fun fields :: "string \<Rightarrow> string list" where
  "fields [] = [[]]"
| "fields (c # s) = (if c = CHR '','' then [] # fields s else (c # hd (fields s)) # tl (fields s))"

lemma fields_nonempty [simp]: "fields s \<noteq> []"
  by (induction s) auto

lemma fields_none: "CHR '','' \<notin> set s \<Longrightarrow> fields s = [s]"
  by (induction s) auto

lemma fields_comma: "CHR '','' \<notin> set f \<Longrightarrow> fields (f @ CHR '','' # s) = f # fields s"
  by (induction f) auto

lemma find_from_fields:
  "case find_from CHR '','' s pos of
     None \<Rightarrow> fields (drop pos s) = [drop pos s]
   | Some e \<Rightarrow> pos \<le> e \<and> fields (drop pos s) = take (e - pos) (drop pos s) # fields (drop (e + 1) s)"
proof (cases "CHR '','' \<in> set (drop pos s)")
  case True
  then obtain f t where t: "drop pos s = f @ CHR '','' # t" "CHR '','' \<notin> set f" by (metis split_list_first)
  then have "takeWhile (\<lambda>x. x \<noteq> CHR '','') (drop pos s) = f" by (auto simp: takeWhile_tail takeWhile_append2)
  moreover have "drop (pos + length f + 1) s = drop (length f + 1) (drop pos s)" by (simp add: add.commute add.left_commute)
  then have "drop (pos + length f + 1) s = t" unfolding t(1) by simp
  ultimately show ?thesis using True t fields_comma [OF t(2)] by (simp add: find_from_def)
qed (simp add: find_from_def fields_none)

lemma mem_arg_loop_fields:
  assumes "length args = 3" and "i \<le> 3"
  shows "mem_arg_loop s i pos args =
    (if [] \<in> set (take (3 - i) (butlast (fields (drop pos s))))
     then Inl (Throw (Runtime_error (Empty_field s)))
     else Inr (min 3 (i + length (butlast (fields (drop pos s)))),
       take i args @ take (3 - i) (fields (drop pos s)) @ drop (i + length (fields (drop pos s))) args))"
  using assms
proof (induction s i pos args rule: mem_arg_loop.induct)
  case (1 s i pos args)
  show ?case
  proof (cases "i < 3")
    case False
    then show ?thesis using "1.prems" by (subst mem_arg_loop.simps) simp
  next
    case True
    then have Suc: "3 - i = Suc (3 - Suc i)" by simp
    show ?thesis
    proof (cases "find_from CHR '','' s pos")
      case None
      then have "fields (drop pos s) = [drop pos s]" using find_from_fields [where s = s and pos = pos] by simp
      then show ?thesis using None True "1.prems"
        by (simp add: mem_arg_loop.simps [where i = i] Suc upd_conv_take_nth_drop)
    next
      case (Some e)
      then have e: "pos \<le> e" "fields (drop pos s) = take (e - pos) (drop pos s) # fields (drop (e + 1) s)"
        using find_from_fields [where s = s and pos = pos] by simp_all
      have inside: "pos < length s"
        using Some by (cases "pos < length s") (simp_all add: find_from_def split: if_splits)
      show ?thesis
      proof (cases "e = pos")
        case True
        then show ?thesis using Some e \<open>i < 3\<close> by (simp add: mem_arg_loop.simps [where i = i] Suc)
      next
        case False
        let ?args = "args[i := take (e - pos) (drop pos s)]"
        have "mem_arg_loop s i pos args = mem_arg_loop s (i + 1) (e + 1) ?args"
          using Some \<open>i < 3\<close> False by (simp add: mem_arg_loop.simps [where i = i])
        moreover have "take (i + 1) ?args = take i args @ [take (e - pos) (drop pos s)]"
          using \<open>i < 3\<close> "1.prems" by (simp add: take_Suc_conv_app_nth)
        moreover have "take (e - pos) (drop pos s) \<noteq> []" using False e(1) inside by simp
        moreover obtain k where "length (fields (drop (e + 1) s)) = Suc k"
          using fields_nonempty [of "drop (e + 1) s"] by (cases "fields (drop (e + 1) s)") auto
        ultimately show ?thesis
          using "1.IH" [OF _ refl _ Some] \<open>i < 3\<close> False Some "1.prems" e(2) by (simp add: Suc)
      qed
    qed
  qed
qed

lemma ParseMemArg_fields:
  "ParseMemArg s =
    (if [] \<in> set (take 3 (butlast (fields s))) then Inl (Throw (Runtime_error (Empty_field s)))
     else if length (fields s) = 1 then Inl (Throw (Runtime_error (Bad_meminit_format s)))
     else res_bind (GetMemImageType (fields s ! 1) (if 3 \<le> length (fields s) then Some (fields s ! 2) else None))
       (\<lambda>type. Inr \<lparr>la_name = fields s ! 0, la_filepath = fields s ! 1, la_type = type\<rparr>))"
proof -
  obtain f fs where f: "fields s = f # fs" by (cases "fields s") auto
  consider "fs = []" | g where "fs = [g]" | g h gs where "fs = g # h # gs"
    by (cases fs rule: remdups_adj.cases) auto
  then show ?thesis
    by cases (auto simp: ParseMemArg_def mem_arg_loop_fields f Let_def numeral_3_eq_3 numeral_2_eq_2)
qed

lemma ParseMemArg_throws:
  "ParseMemArg s = Inl e \<Longrightarrow> \<exists>m. e = Throw (Runtime_error m)"
  by (auto simp: ParseMemArg_fields GetMemImageType_def DetectMemImageType_def GetMemImageTypeByName_def Let_def res_bind_def
    split: if_splits option.splits sum.splits)

section \<open>The usage message\<close>

text \<open>The options that the message documents are those of the tables, with an argument when they need one,
  except \<open>--otpinit\<close>, which is accepted and not documented.\<close>

theorem help_documents_options:
  "set (documented MemUtil_PrintHelp) =
    set (map (accepted memutil_optstring) (filter (\<lambda>p. fst p \<noteq> ''otpinit'') memutil_options))"
  by code_simp

section \<open>The options\<close>

lemma option_loop_no_throw: "option_loop d x es las v \<noteq> Inl (Throw e)"
proof (induction d x es las v rule: option_loop.induct)
  case (6 d x c optarg es las v)
  have "PrintMemRegions d \<noteq> Inl (Throw e)"
  proof -
    have "foldM (\<lambda>pr out. res_bind (region_line d pr) (\<lambda>l. Inr (out @ [l]))) ps out \<noteq> Inl (Throw e)" for ps out
      by (induction ps arbitrary: out) (auto simp: region_line_def res_bind_def Let_def split: sum.splits if_splits)
    then show ?thesis by (simp add: PrintMemRegions_def)
  qed
  then show ?case using 6 ParseMemArg_throws [of optarg]
    by (auto simp: Let_def res_bind_def split: sum.splits fault.splits exn.splits)
qed auto

text \<open>\<open>--meminit\<close> with a name, a path and a type\<close>

definition meminit :: "string \<times> string \<Rightarrow> string" where
  "meminit = (\<lambda>(name, path). ''--meminit='' @ name @ '','' @ path @ '',elf'')"

definition field :: "string \<Rightarrow> bool" where
  "field f \<longleftrightarrow> f \<noteq> [] \<and> CHR '','' \<notin> set f"

lemma ParseMemArg_meminit:
  "field name \<Longrightarrow> field path \<Longrightarrow> ParseMemArg (name @ '','' @ path @ '',elf'') =
    Inr \<lparr>la_name = name, la_filepath = path, la_type = kMemImageElf\<rparr>"
proof -
  assume "field name" "field path"
  then have "fields (name @ CHR '','' # path @ CHR '','' # ''elf'') = [name, path, ''elf'']" "name \<noteq> []" "path \<noteq> []"
    by (simp_all add: fields_comma field_def)
  then show ?thesis by (simp add: ParseMemArg_fields GetMemImageType_def GetMemImageTypeByName_def numeral_3_eq_3 numeral_2_eq_2)
qed

lemma not_list: "CHR '','' \<in> set s \<Longrightarrow> \<not> is_list s"
proof -
  have comma: "tolower CHR '','' = CHR '',''" by (simp add: tolower_def less_eq_char_def)
  assume "CHR '','' \<in> set s"
  then have "CHR '','' \<in> set (map tolower s)" using comma by (metis image_eqI list.set_map)
  then show ?thesis by (auto simp: is_list_def)
qed

lemma scan_meminit:
  "getopt_scan (tl memutil_optstring) memutil_options [] (meminit p # args) =
    Opt CHR ''l'' (Some (fst p @ '','' @ snd p @ '',elf'')) # getopt_scan (tl memutil_optstring) memutil_options [] args"
proof -
  have "find_long memutil_options ''meminit'' = Some (''meminit'', required_argument, CHR ''l'')"
    by (rule find_long_exact) (simp_all add: memutil_options_def)
  from scan_long_value [OF this] show ?thesis by (cases p) (simp add: meminit_def del: getopt_scan.simps)
qed

lemma option_loop_meminits:
  assumes "list_all (\<lambda>p. field (fst p) \<and> field (snd p)) ps"
  shows "option_loop d x (getopt_scan (tl memutil_optstring) memutil_options [] (map meminit ps)) las v =
    Inr (Load_files (las @ map (\<lambda>p. \<lparr>la_name = fst p, la_filepath = snd p, la_type = kMemImageElf\<rparr>) ps) v)"
  using assms
proof (induction ps arbitrary: las)
  case (Cons p ps)
  have "\<not> is_list (fst p @ '','' @ snd p @ '',elf'')" by (rule not_list) simp
  then show ?case using Cons ParseMemArg_meminit [of "fst p" "snd p"]
    by (simp add: scan_meminit Let_def del: getopt_scan.simps append.simps)
qed simp

section \<open>Loading\<close>

lemma load_files_True:
  "load_files h args st = (Inr True, st') \<longleftrightarrow> act_loop (\<lambda>arg _. load_file h arg) args () st = (Inr (), st')"
proof (induction args arbitrary: st)
  case (Cons a as)
  obtain r t where "load_file h a st = (r, t)" by (cases "load_file h a st")
  then show ?case using Cons by (auto simp: act_bind_def split: sum.splits fault.splits)
qed (auto simp: act_return_def)

text \<open>When loading fails, a prefix of the files has been loaded and the next one has thrown.\<close>

lemma load_files_False:
  "load_files h args st = (Inr False, st') \<longleftrightarrow>
    (\<exists>done a rest mid e. args = done @ a # rest \<and> act_loop (\<lambda>arg _. load_file h arg) done () st = (Inr (), mid) \<and>
       load_file h a mid = (Inl (Throw e), st'))"
proof (induction args arbitrary: st)
  case (Cons a as)
  obtain r t where rt: "load_file h a st = (r, t)" by (cases "load_file h a st")
  show ?case
  proof (cases r)
    case (Inr u)
    then have "load_files h (a # as) st = load_files h as t" using rt by simp
    also have "\<dots> = (Inr False, st') \<longleftrightarrow> (\<exists>done b rest mid e. as = done @ b # rest \<and>
        act_loop (\<lambda>arg _. load_file h arg) done () t = (Inr (), mid) \<and> load_file h b mid = (Inl (Throw e), st'))"
      by (rule Cons)
    also have "\<dots> \<longleftrightarrow> (\<exists>done b rest mid e. a # as = done @ b # rest \<and>
        act_loop (\<lambda>arg _. load_file h arg) done () st = (Inr (), mid) \<and> load_file h b mid = (Inl (Throw e), st'))"
      (is "?L \<longleftrightarrow> ?R")
    proof
      assume ?L
      then obtain dn b rest mid e where "as = dn @ b # rest"
        "act_loop (\<lambda>arg _. load_file h arg) dn () t = (Inr (), mid)" "load_file h b mid = (Inl (Throw e), st')" by blast
      then show ?R using rt Inr by (intro exI [of _ "a # dn"] exI) (auto simp: act_bind_def)
    next
      assume ?R
      then obtain dn b rest mid e where R: "a # as = dn @ b # rest"
        "act_loop (\<lambda>arg _. load_file h arg) dn () st = (Inr (), mid)" "load_file h b mid = (Inl (Throw e), st')" by blast
      show ?L
      proof (cases dn)
        case Nil
        then show ?thesis using R rt Inr by (auto simp: act_return_def)
      next
        case (Cons c dn')
        then show ?thesis using R rt Inr by (intro exI [of _ dn'] exI) (auto simp: act_bind_def)
      qed
    qed
    finally show ?thesis .
  next
    case (Inl f)
    show ?thesis
    proof
      assume "load_files h (a # as) st = (Inr False, st')"
      then obtain e where "r = Inl (Throw e)" "t = st'" using rt Inl by (auto split: fault.splits)
      then show "\<exists>done b rest mid e. a # as = done @ b # rest \<and>
        act_loop (\<lambda>arg _. load_file h arg) done () st = (Inr (), mid) \<and> load_file h b mid = (Inl (Throw e), st')"
        using rt by (intro exI [of _ "[]"] exI) (auto simp: act_return_def)
    next
      assume "\<exists>done b rest mid e. a # as = done @ b # rest \<and>
        act_loop (\<lambda>arg _. load_file h arg) done () st = (Inr (), mid) \<and> load_file h b mid = (Inl (Throw e), st')"
      then obtain dn b rest mid e where R: "a # as = dn @ b # rest"
        "act_loop (\<lambda>arg _. load_file h arg) dn () st = (Inr (), mid)" "load_file h b mid = (Inl (Throw e), st')" by blast
      then have "dn = []" using rt Inl by (cases dn) (auto simp: act_bind_def)
      then show "load_files h (a # as) st = (Inr False, st')" using R rt by (auto simp: act_return_def)
    qed
  qed
qed simp

lemma load_files_no_throw: "fst (load_files h args st) \<noteq> Inl (Throw e)"
  by (induction h args st rule: load_files.induct) (auto split: prod.splits sum.splits fault.splits)

lemma act_loop_map: "act_loop body (map f xs) y = act_loop (\<lambda>x. body (f x)) xs y"
  by (induction xs arbitrary: y) (auto simp: act_bind_def fun_eq_iff split: sum.splits prod.splits)

text \<open>What one \<open>--meminit\<close> does.\<close>

definition load_named :: "host \<Rightarrow> string \<times> string \<Rightarrow> unit \<Rightarrow> (dpi_memutil \<times> sim, unit) act" where
  "load_named h = (\<lambda>(name, path) _ (d, s).
     case LoadFileToNamedMem h d name path kMemImageElf s of (r, s) \<Rightarrow> (r, (d, s)))"

lemma load_file_named:
  "name \<noteq> [] \<Longrightarrow> load_file h \<lparr>la_name = name, la_filepath = path, la_type = kMemImageElf\<rparr> = load_named h (name, path) u"
  by (auto simp: load_file_def load_named_def fun_eq_iff)

lemma ParseCLIArguments_meminits:
  assumes "list_all (\<lambda>p. field (fst p) \<and> field (snd p)) ps"
  shows "ParseCLIArguments h (prog # map meminit ps) x st = act_bind (load_files h
    (map (\<lambda>p. \<lparr>la_name = fst p, la_filepath = snd p, la_type = kMemImageElf\<rparr>) ps)) (\<lambda>ret. act_return (ret, x)) st"
  by (cases st) (simp add: ParseCLIArguments_def getopt_long_def option_loop_meminits [OF assms] del: getopt_scan.simps)

section \<open>Properties\<close>

text \<open>C32: The argument of \<open>--meminit\<close> is read as its fields between commas: an empty field is an error when
  a comma follows it and it is one of the first three, a single field is an error, and otherwise the
  fields are the name, the path and, when there is a third, the type; what follows is ignored.  An empty
  last field is not an error.\<close>

theorem parse_mem_arg_fields:
  "ParseMemArg s =
    (if [] \<in> set (take 3 (butlast (fields s))) then Inl (Throw (Runtime_error (Empty_field s)))
     else if length (fields s) = 1 then Inl (Throw (Runtime_error (Bad_meminit_format s)))
     else res_bind (GetMemImageType (fields s ! 1) (if 3 \<le> length (fields s) then Some (fields s ! 2) else None))
       (\<lambda>type. Inr \<lparr>la_name = fields s ! 0, la_filepath = fields s ! 1, la_type = type\<rparr>))"
  by (rule ParseMemArg_fields)

text \<open>C29: Whatever the arguments, the registered memories and the files are, no exception leaves
  \<open>ParseCLIArguments\<close>.\<close>

theorem cli_no_exception:
  "fst (ParseCLIArguments h argv exit_app st) \<noteq> Inl (Throw e)"
proof -
  obtain d s where st: "st = (d, s)" by (cases st)
  have "fst (act_bind (load_files h args) (\<lambda>ret. act_return (ret, exit_app)) st) \<noteq> Inl (Throw e)" for args
    using load_files_no_throw [of h args st e]
    by (cases "load_files h args st") (auto simp: act_bind_def act_return_def split: sum.splits)
  then show ?thesis
    using option_loop_no_throw by (auto simp: ParseCLIArguments_def st split: sum.split options_end.split)
qed

text \<open>C4: \<open>--meminit=name,path,elf\<close> options load their files in the order of the command line.  The call
  returns true exactly when all of them are loaded, and returns false exactly when one of them throws,
  in the state in which it throws.\<close>

theorem cli_meminit_order:
  assumes "list_all (\<lambda>p. field (fst p) \<and> field (snd p)) ps"
  shows "(ParseCLIArguments h (prog # map meminit ps) x st = (Inr (True, x), st')) =
      (act_loop (load_named h) ps () st = (Inr (), st')) \<and>
    (ParseCLIArguments h (prog # map meminit ps) x st = (Inr (False, x), st')) =
      (\<exists>dn p rest mid e. ps = dn @ p # rest \<and> act_loop (load_named h) dn () st = (Inr (), mid) \<and>
         load_named h p () mid = (Inl (Throw e), st'))"
proof -
  let ?arg = "\<lambda>p. \<lparr>la_name = fst p, la_filepath = snd p, la_type = kMemImageElf\<rparr>"
  have one: "load_file h (?arg p) = load_named h p u" if "p \<in> set ps" for p u
    using load_file_named [of "fst p" h "snd p" u] assms that by (auto simp: list_all_iff field_def)
  have loop: "act_loop (\<lambda>arg _. load_file h arg) (map ?arg qs) () t = act_loop (load_named h) qs () t" if "set qs \<subseteq> set ps" for qs t
    using that
  proof (induction qs arbitrary: t)
    case (Cons q qs)
    then have "load_file h (?arg q) t = load_named h q () t" using one [of q "()"] by auto
    then show ?case using Cons by (auto simp: act_bind_def split: sum.splits prod.splits)
  qed simp
  have run: "(ParseCLIArguments h (prog # map meminit ps) x st = (Inr (b, x), st')) =
      (load_files h (map ?arg ps) st = (Inr b, st'))" for b
    by (auto simp: ParseCLIArguments_meminits [OF assms] act_bind_def act_return_def split: prod.splits sum.splits)
  have "(load_files h (map ?arg ps) st = (Inr False, st')) =
      (\<exists>dn p rest mid e. ps = dn @ p # rest \<and> act_loop (load_named h) dn () st = (Inr (), mid) \<and>
         load_named h p () mid = (Inl (Throw e), st'))" (is "?L = ?R")
  proof
    assume ?L
    then obtain dn a rest mid e where ex: "map ?arg ps = dn @ a # rest"
      "act_loop (\<lambda>arg _. load_file h arg) dn () st = (Inr (), mid)" "load_file h a mid = (Inl (Throw e), st')"
      unfolding load_files_False by blast
    then obtain dn' p rest' where eq: "ps = dn' @ p # rest'" "dn = map ?arg dn'" "a = ?arg p"
      by (auto simp: map_eq_append_conv map_eq_Cons_conv)
    have "set dn' \<subseteq> set ps" using eq(1) by auto
    then have "act_loop (load_named h) dn' () st = (Inr (), mid)" using ex(2) loop [of dn' st] eq(2) by simp
    moreover have "load_named h p () mid = (Inl (Throw e), st')" using ex(3) one [of p "()"] eq by simp
    ultimately show ?R using eq(1) by blast
  next
    assume ?R
    then obtain dn p rest mid e where R: "ps = dn @ p # rest" "act_loop (load_named h) dn () st = (Inr (), mid)"
      "load_named h p () mid = (Inl (Throw e), st')" by blast
    have "set dn \<subseteq> set ps" "p \<in> set ps" using R(1) by auto
    then have "act_loop (\<lambda>arg _. load_file h arg) (map ?arg dn) () st = (Inr (), mid)"
      "load_file h (?arg p) mid = (Inl (Throw e), st')" using R(2,3) loop [of dn st] one [of p "()"] by simp_all
    moreover have "map ?arg ps = map ?arg dn @ ?arg p # map ?arg rest" using R(1) by simp
    ultimately show ?L unfolding load_files_False by blast
  qed
  then show ?thesis using loop [of ps st] by (simp add: run load_files_True)
qed

theorem cli_meminit_order_witness:
  "\<forall>st'. (ParseCLIArguments demo_host [''sim'', ''--meminit=ram,a.elf,elf''] False (demo_registry, one_memory ''TOP.m'' 32 8 (replicate 40 0)) =
      (Inr (False, False), st')) =
    (\<exists>dn p rest mid e. [(''ram'', ''a.elf'')] = dn @ p # rest \<and>
       act_loop (load_named demo_host) dn () (demo_registry, one_memory ''TOP.m'' 32 8 (replicate 40 0)) = (Inr (), mid) \<and>
       load_named demo_host p () mid = (Inl (Throw e), st'))"
  using cli_meminit_order [of "[(''ram'', ''a.elf'')]" demo_host "''sim''" False] by (simp add: field_def meminit_def del: split_paired_All split_paired_Ex)

end
