(* ===== verification/Decimal.thy ===== *)
theory Decimal
  imports Outcome "HOL-Library.Char_ord"
begin

text \<open>
  Numbers as text: what a stream prints for an unsigned integer in decimal, and \<open>strtoul\<close> with base 0.
\<close>

unbundle bit_operations_syntax

section \<open>Printing\<close>

definition digit_char :: "nat \<Rightarrow> char" where
  "digit_char d = char_of (48 + d)"

fun dec_string :: "nat \<Rightarrow> string" where
  "dec_string n = (if n < 10 then [digit_char n] else dec_string (n div 10) @ [digit_char (n mod 10)])"

declare dec_string.simps [simp del]

section \<open>\<open>strtoul\<close>\<close>

definition digit_value :: "char \<Rightarrow> nat" where
  "digit_value c =
     (let n = of_char c :: nat in
      if 48 \<le> n \<and> n \<le> 57 then n - 48
      else if 97 \<le> n \<and> n \<le> 122 then n - 87
      else if 65 \<le> n \<and> n \<le> 90 then n - 55
      else 36)"

definition digits_value :: "nat \<Rightarrow> string \<Rightarrow> nat" where
  "digits_value base s = foldl (\<lambda>v c. base * v + digit_value c) 0 s"

text \<open>The base and the text after its prefix.  A \<open>0x\<close> without a digit after it is read as the octal number 0.\<close>

definition strtoul_base :: "string \<Rightarrow> nat \<times> string" where
  "strtoul_base s =
     (case s of
        CHR ''0'' # x # c # cs \<Rightarrow>
          if (x = CHR ''x'' \<or> x = CHR ''X'') \<and> digit_value c < 16 then (16, c # cs) else (8, s)
      | CHR ''0'' # cs \<Rightarrow> (8, s)
      | _ \<Rightarrow> (10, s))"

text \<open>For a text that starts with a digit: the value, whether \<open>errno\<close> is \<open>ERANGE\<close>, and the text not read.\<close>

definition strtoul :: "string \<Rightarrow> u64 \<times> bool \<times> string" where
  "strtoul s =
     (let (base, t) = strtoul_base s;
          v = digits_value base (takeWhile (\<lambda>c. digit_value c < base) t)
      in (if v < 2 ^ 64 then word_of_nat v else NOT 0, 2 ^ 64 \<le> v, dropWhile (\<lambda>c. digit_value c < base) t))"

section \<open>Round trip\<close>

lemma digit_value_char [simp]: "d < 10 \<Longrightarrow> digit_value (digit_char d) = d"
  by (simp add: digit_value_def digit_char_def)

lemma digit_char_zero [simp]: "digit_char 0 = CHR ''0''"
proof -
  have "char_of (of_char CHR ''0'' :: nat) = CHR ''0''" by (rule char_of_char)
  then show ?thesis by (simp add: digit_char_def)
qed

lemma digit_char_0: "d < 10 \<Longrightarrow> digit_char d = CHR ''0'' \<longleftrightarrow> d = 0"
  using digit_value_char [of d] digit_value_char [of 0] by (metis digit_char_zero zero_less_numeral)

lemma dec_string_nonempty [simp]: "dec_string n \<noteq> []"
  by (subst dec_string.simps) simp

lemma set_dec_string: "set (dec_string n) \<subseteq> digit_char ` {0..<10}"
proof (induction n rule: dec_string.induct)
  case (1 n)
  then show ?case by (subst dec_string.simps) auto
qed

lemma dec_string_not_in: "c \<notin> digit_char ` {0..<10} \<Longrightarrow> c \<notin> set (dec_string n)"
  using set_dec_string by blast

lemma digits_value_append: "digits_value b (s @ [c]) = b * digits_value b s + digit_value c"
  by (simp add: digits_value_def)

lemma digits_value_dec: "digits_value 10 (dec_string n) = n"
proof (induction n rule: dec_string.induct)
  case (1 n)
  show ?case
  proof (cases "n < 10")
    case True
    then show ?thesis by (subst dec_string.simps) (simp add: digits_value_def)
  next
    case False
    then show ?thesis using 1 by (subst dec_string.simps) (simp add: digits_value_append)
  qed
qed

lemma dec_string_inj: "dec_string m = dec_string n \<Longrightarrow> m = n"
  by (metis digits_value_dec)

lemma hd_dec_string: "n \<noteq> 0 \<Longrightarrow> hd (dec_string n) \<noteq> CHR ''0''"
proof (induction n rule: dec_string.induct)
  case (1 n)
  then show ?case by (subst dec_string.simps) (auto simp: digit_char_0)
qed

lemma strtoul_dec: "strtoul (dec_string n) =
  (if n < 2 ^ 64 then word_of_nat n else NOT 0, 2 ^ 64 \<le> n, [])"
proof (cases "n = 0")
  case True
  then have "dec_string n = ''0''" by (simp add: dec_string.simps)
  then show ?thesis using True by (simp add: strtoul_def strtoul_base_def digits_value_def digit_value_def)
next
  case False
  have all: "\<forall>c\<in>set (dec_string n). digit_value c < 10" using set_dec_string [of n] by auto
  obtain c cs where s: "dec_string n = c # cs" by (cases "dec_string n") auto
  have "c \<noteq> CHR ''0''" using hd_dec_string [OF False] s by simp
  then have "strtoul_base (dec_string n) = (10, dec_string n)"
    unfolding s strtoul_base_def by (auto split: list.splits char.splits bool.splits)
  moreover have "takeWhile (\<lambda>c. digit_value c < 10) (dec_string n) = dec_string n"
    "dropWhile (\<lambda>c. digit_value c < 10) (dec_string n) = []" using all by simp_all
  ultimately show ?thesis by (simp only: strtoul_def Let_def prod.case digits_value_dec)
qed

end
