(* ===== verification/Pcounts.thy ===== *)
theory Pcounts
  imports Decimal
begin

text \<open>
  \<open>ibex_pcounts.cc\<close>: the text that reports the performance counters.  \<open>num\<close> and \<open>get\<close> stand for the DPI
  functions \<open>mhpmcounter_num\<close> and \<open>mhpmcounter_get\<close> of the design.
  The theory shows which lines the two formats have, that the values are aligned, and that a table of
  comma-separated values can be read back.
\<close>

definition ibex_counter_names :: "string list" where
  "ibex_counter_names =
     [''Cycles'', ''NONE'', ''Instructions Retired'', ''LSU Busy'', ''Fetch Wait'', ''Loads'', ''Stores'', ''Jumps'',
      ''Conditional Branches'', ''Taken Conditional Branches'', ''Compressed Instructions'', ''Multiply Wait'',
      ''Divide Wait'']"

text \<open>\<open>index\<close> is not negative here, so its comparison with an \<open>unsigned int\<close> is that of the numbers.\<close>

definition has_hpm_counter :: "u32 \<Rightarrow> nat \<Rightarrow> bool" where
  "has_hpm_counter num index =
     (if index = 0 \<or> index = 2 then True
      else if index = 1 then False
      else index < unat num)"

definition endl :: string where
  "endl = [CHR 0x0A]"

text \<open>The first loop, over the names.\<close>

definition longest_name_length :: "u32 \<Rightarrow> nat" where
  "longest_name_length num =
     fold (\<lambda>i len. if has_hpm_counter num i then max len (length (ibex_counter_names ! i)) else len)
       [0..<length ibex_counter_names] 0 + 1"

definition pcount_step :: "u32 \<Rightarrow> (nat \<Rightarrow> u64) \<Rightarrow> bool \<Rightarrow> nat \<Rightarrow> string \<Rightarrow> string" where
  "pcount_step num get csv i pcount_ss =
     (if \<not> has_hpm_counter num i then pcount_ss
      else
        let separator = (if csv then CHR '','' else CHR '':'');
            pcount_ss = pcount_ss @ ibex_counter_names ! i @ [separator];
            pcount_ss = (if csv then pcount_ss
              else pcount_ss @ replicate (longest_name_length num - length (ibex_counter_names ! i)) CHR '' '')
        in pcount_ss @ dec_string (unat (get i)) @ endl)"

definition ibex_pcount_string :: "u32 \<Rightarrow> (nat \<Rightarrow> u64) \<Rightarrow> bool \<Rightarrow> string" where
  "ibex_pcount_string num get csv = fold (pcount_step num get csv) [0..<length ibex_counter_names] []"

section \<open>Lines\<close>

definition counters :: "u32 \<Rightarrow> nat list" where
  "counters num = filter (has_hpm_counter num) [0..<length ibex_counter_names]"

definition pcount_line :: "u32 \<Rightarrow> (nat \<Rightarrow> u64) \<Rightarrow> bool \<Rightarrow> nat \<Rightarrow> string" where
  "pcount_line num get csv i =
     (if csv then ibex_counter_names ! i @ '',''
      else ibex_counter_names ! i @ '':'' @ replicate (longest_name_length num - length (ibex_counter_names ! i)) CHR '' '') @
     dec_string (unat (get i))"

lemma pcount_fold:
  "fold (pcount_step num get csv) xs acc =
    acc @ concat (map (\<lambda>i. pcount_line num get csv i @ endl) (filter (has_hpm_counter num) xs))"
  by (induction xs arbitrary: acc) (simp_all add: pcount_step_def pcount_line_def)

lemma pcount_string_lines:
  "ibex_pcount_string num get csv = concat (map (\<lambda>i. pcount_line num get csv i @ endl) (counters num))"
  by (simp add: ibex_pcount_string_def pcount_fold counters_def)

text \<open>The text cut at a character.\<close>

fun split_at :: "char \<Rightarrow> string \<Rightarrow> string list" where
  "split_at c [] = [[]]"
| "split_at c (x # xs) = (if x = c then [] # split_at c xs else (x # hd (split_at c xs)) # tl (split_at c xs))"

lemma split_at_none: "c \<notin> set s \<Longrightarrow> split_at c s = [s]"
  by (induction s) auto

lemma split_at_append: "c \<notin> set f \<Longrightarrow> split_at c (f @ c # s) = f # split_at c s"
  by (induction f) auto

lemma split_at_lines:
  "\<forall>l\<in>set ls. CHR 0x0A \<notin> set l \<Longrightarrow> split_at CHR 0x0A (concat (map (\<lambda>l. l @ endl) ls)) = ls @ [[]]"
  by (induction ls) (auto simp: endl_def split_at_append)

lemma names_clean:
  "i < length ibex_counter_names \<Longrightarrow> c \<in> {CHR '','', CHR '':'', CHR 0x0A} \<Longrightarrow> c \<notin> set (ibex_counter_names ! i)"
proof -
  assume i: "i < length ibex_counter_names" and c: "c \<in> {CHR '','', CHR '':'', CHR 0x0A}"
  have "list_all (\<lambda>s. c \<notin> set s) ibex_counter_names" using c by (auto simp: ibex_counter_names_def)
  then show ?thesis using i by (simp add: list_all_length)
qed

lemma dec_clean: "c \<in> {CHR '','', CHR '':'', CHR '' '', CHR 0x0A} \<Longrightarrow> c \<notin> set (dec_string n)"
proof -
  assume c: "c \<in> {CHR '','', CHR '':'', CHR '' '', CHR 0x0A}"
  have "digit_value c = 36" using c by (auto simp: digit_value_def)
  then have "c \<notin> digit_char ` {0..<10}" by auto
  then show ?thesis by (rule dec_string_not_in)
qed

lemma counters_range: "i \<in> set (counters num) \<Longrightarrow> i < length ibex_counter_names \<and> has_hpm_counter num i"
  by (simp add: counters_def)

lemma line_clean: "i \<in> set (counters num) \<Longrightarrow> CHR 0x0A \<notin> set (pcount_line num get csv i)"
  using counters_range [of i num] names_clean [of i "CHR 0x0A"] dec_clean [of "CHR 0x0A"]
  by (auto simp: pcount_line_def)

lemma lines_of:
  "split_at CHR 0x0A (ibex_pcount_string num get csv) = map (pcount_line num get csv) (counters num) @ [[]]"
proof -
  have "split_at CHR 0x0A (concat (map (\<lambda>l. l @ endl) (map (pcount_line num get csv) (counters num)))) =
      map (pcount_line num get csv) (counters num) @ [[]]"
    using line_clean by (intro split_at_lines) auto
  then show ?thesis by (simp add: pcount_string_lines comp_def)
qed

lemma fold_max:
  fixes f :: "'a \<Rightarrow> nat"
  shows "a \<le> fold (\<lambda>i m. if P i then max m (f i) else m) xs a"
    and "i \<in> set xs \<Longrightarrow> P i \<Longrightarrow> f i \<le> fold (\<lambda>i m. if P i then max m (f i) else m) xs a"
proof -
  show grow: "a \<le> fold (\<lambda>i m. if P i then max m (f i) else m) xs a" for xs a
  proof (induction xs arbitrary: a)
    case (Cons x xs)
    from Cons [of "if P x then max a (f x) else a"] show ?case by (auto split: if_splits)
  qed simp
  show "i \<in> set xs \<Longrightarrow> P i \<Longrightarrow> f i \<le> fold (\<lambda>i m. if P i then max m (f i) else m) xs a"
  proof (induction xs arbitrary: a)
    case (Cons x xs)
    then show ?case using grow [of "max a (f i)" xs] by (cases "x = i") auto
  qed simp
qed

lemma longest_bound:
  "i \<in> set (counters num) \<Longrightarrow> length (ibex_counter_names ! i) < longest_name_length num"
  using fold_max(2) [of i "[0..<length ibex_counter_names]" "has_hpm_counter num" "\<lambda>i. length (ibex_counter_names ! i)" 0]
    counters_range [of i num] by (simp add: longest_name_length_def)

section \<open>Properties\<close>

text \<open>The report has one line per counter that exists, in the order of the counters, and ends with a
  newline.  The counters are the cycles, the retired instructions and those with a number below the
  parameter of the design.  In the readable format all values start in the same column.\<close>

theorem pcount_report:
  assumes "i < length (counters num)"
  shows "split_at CHR 0x0A (ibex_pcount_string num get csv) = map (pcount_line num get csv) (counters num) @ [[]] \<and>
    length (counters num) = 2 + min 10 (unat num - 3) \<and>
    (\<exists>head. pcount_line num get False (counters num ! i) = head @ dec_string (unat (get (counters num ! i))) \<and>
       length head = longest_name_length num + 1 \<and> last head = CHR '' '')"
proof -
  let ?i = "counters num ! i" and ?pad = "longest_name_length num - length (ibex_counter_names ! (counters num ! i))"
  have mem: "?i \<in> set (counters num)" using assms by simp
  have pad: "0 < ?pad" using longest_bound [OF mem] by simp
  let ?head = "ibex_counter_names ! ?i @ '':'' @ replicate ?pad CHR '' ''"
  have "length ?head = longest_name_length num + 1" "last ?head = CHR '' ''" using longest_bound [OF mem] pad by simp_all
  moreover have "pcount_line num get False ?i = ?head @ dec_string (unat (get ?i))" by (simp add: pcount_line_def)
  moreover have "length (counters num) = 2 + min 10 (unat num - 3)"
    by (auto simp: counters_def has_hpm_counter_def ibex_counter_names_def upt_rec min_def)
  ultimately show ?thesis using lines_of by blast
qed

theorem pcount_report_witness:
  "split_at CHR 0x0A (ibex_pcount_string 4 (\<lambda>i. of_nat (100 * i)) False) =
      map (pcount_line 4 (\<lambda>i. of_nat (100 * i)) False) (counters 4) @ [[]] \<and>
    length (counters 4) = 2 + min 10 (unat (4 :: u32) - 3) \<and>
    (\<exists>head. pcount_line 4 (\<lambda>i. of_nat (100 * i)) False (counters 4 ! 2) =
         head @ dec_string (unat (of_nat (100 * (counters 4 ! 2)) :: u64)) \<and>
       length head = longest_name_length 4 + 1 \<and> last head = CHR '' '')"
  by (rule pcount_report) (simp add: counters_def has_hpm_counter_def ibex_counter_names_def upt_rec)

text \<open>C34: The table with comma-separated values can be read back: cutting it into lines and the lines at
  the comma gives the names of the counters and decimal numerals of their values.\<close>

theorem pcount_csv_round_trip:
  "map (\<lambda>l. case split_at CHR '','' l of [name, val] \<Rightarrow> Some (name, digits_value 10 val) | _ \<Rightarrow> None)
      (butlast (split_at CHR 0x0A (ibex_pcount_string num get True))) =
    map (\<lambda>i. Some (ibex_counter_names ! i, unat (get i))) (counters num)"
proof -
  have "(case split_at CHR '','' (pcount_line num get True i) of [name, val] \<Rightarrow> Some (name, digits_value 10 val) | _ \<Rightarrow> None) =
      Some (ibex_counter_names ! i, unat (get i))" if "i \<in> set (counters num)" for i
  proof -
    have "CHR '','' \<notin> set (ibex_counter_names ! i)" "CHR '','' \<notin> set (dec_string (unat (get i)))"
      using counters_range [OF that] names_clean [of i] dec_clean by auto
    then have "split_at CHR '','' (pcount_line num get True i) = [ibex_counter_names ! i, dec_string (unat (get i))]"
      using split_at_append [of "CHR '',''" "ibex_counter_names ! i"] by (simp add: pcount_line_def split_at_none)
    then show ?thesis by (simp add: digits_value_dec)
  qed
  then show ?thesis by (simp add: lines_of butlast_append)
qed

end
