(* ===== verification/Sim_Ctrl.thy ===== *)
theory Sim_Ctrl
  imports Sim_State Getopt Decimal Verilated_Toplevel
begin

text \<open>
  \<open>verilator_sim_ctrl.cc\<close>, \<open>verilator_sim_ctrl.h\<close> and \<open>sim_ctrl_extension.h\<close>: the controller that clocks the
  design.  \<open>'w\<close> is the state of everything outside the controller, which the design and the extensions
  change; what Verilator generates for the design is the parameter \<open>toplevel\<close>.
  The signal handler can run between any two program points of \<open>Run\<close>, so a run is a step relation with
  one rule for the program and one for a signal.  What is printed is kept as a list of messages; the
  clock and the sizes of files are parameters.
  The theory shows when reset is asserted, that a timeout or a stop request ends the run, and how the
  tracer and the command line behave, the usage message included.
\<close>

section \<open>State\<close>

datatype VerilatorSimCtrlFlags = Defaults | ResetPolarityNegative

text \<open>\<open>SimCtrlExtension\<close>: the methods an extension overrides, and their defaults.  \<open>ParseCLI\<close> returns what
  \<open>ParseCLIArguments\<close> returns and \<open>exit_app\<close>.\<close>

record 'w extension =
  ParseCLI :: "string list \<Rightarrow> bool \<Rightarrow> ('w, bool \<times> bool) act"
  PreExec :: "'w \<Rightarrow> 'w"
  OnClock :: "u64 \<Rightarrow> 'w \<Rightarrow> 'w"
  PostExec :: "'w \<Rightarrow> 'w"

definition SimCtrlExtension :: "'w extension" where
  "SimCtrlExtension =
     \<lparr>ParseCLI = (\<lambda>argv exit_app. act_return (True, exit_app)), PreExec = (\<lambda>w. w), OnClock = (\<lambda>t w. w),
      PostExec = (\<lambda>w. w)\<rparr>"

record 'w sim_ctrl =
  has_top :: bool
  flags :: VerilatorSimCtrlFlags
  sim_time :: u64
  trace_file_path :: string
  tracing_enabled :: bool
  tracing_enabled_changed :: bool
  tracing_ever_enabled :: bool
  tracing_possible :: bool
  initial_reset_delay_cycles :: u32
  reset_duration_cycles :: u32
  request_stop :: bool
  simulation_success :: bool
  term_after_cycles :: u64
  extension_array :: "'w extension list"

text \<open>The object is a static variable, so what the constructor does not set is zero.  \<open>vm_trace\<close> and
  \<open>saif\<close> are the macros \<open>VM_TRACE\<close> and \<open>VM_TRACE_FMT_SAIF\<close>.\<close>

definition VerilatorSimCtrl :: "bool \<Rightarrow> bool \<Rightarrow> 'w sim_ctrl" where
  "VerilatorSimCtrl vm_trace saif =
     \<lparr>has_top = False, flags = Defaults, sim_time = 0,
      trace_file_path = (if saif then ''sim.saif'' else ''sim.vcd''),
      tracing_enabled = False, tracing_enabled_changed = False, tracing_ever_enabled = False,
      tracing_possible = vm_trace, initial_reset_delay_cycles = 2, reset_duration_cycles = 2,
      request_stop = False, simulation_success = True, term_after_cycles = 0, extension_array = []\<rparr>"

section \<open>Simple methods\<close>

definition SetTop :: "VerilatorSimCtrlFlags \<Rightarrow> 'w sim_ctrl \<Rightarrow> 'w sim_ctrl" where
  "SetTop fl c = c\<lparr>has_top := True, flags := fl\<rparr>"

definition SetInitialResetDelay :: "u32 \<Rightarrow> 'w sim_ctrl \<Rightarrow> 'w sim_ctrl" where
  "SetInitialResetDelay cycles c = c\<lparr>initial_reset_delay_cycles := cycles\<rparr>"

definition SetResetDuration :: "u32 \<Rightarrow> 'w sim_ctrl \<Rightarrow> 'w sim_ctrl" where
  "SetResetDuration cycles c = c\<lparr>reset_duration_cycles := cycles\<rparr>"

definition SetTimeout :: "u32 \<Rightarrow> 'w sim_ctrl \<Rightarrow> 'w sim_ctrl" where
  "SetTimeout cycles c = c\<lparr>term_after_cycles := ucast cycles\<rparr>"

definition RequestStop :: "bool \<Rightarrow> 'w sim_ctrl \<Rightarrow> 'w sim_ctrl" where
  "RequestStop success c = c\<lparr>request_stop := True, simulation_success := (simulation_success c \<and> success)\<rparr>"

definition RegisterExtension :: "'w extension \<Rightarrow> 'w sim_ctrl \<Rightarrow> 'w sim_ctrl" where
  "RegisterExtension ext c = c\<lparr>extension_array := extension_array c @ [ext]\<rparr>"

definition TraceOn :: "'w sim_ctrl \<Rightarrow> 'w sim_ctrl" where
  "TraceOn c =
     (let old_tracing_enabled = tracing_enabled c;
          c = c\<lparr>tracing_enabled := tracing_possible c\<rparr>;
          c = c\<lparr>tracing_ever_enabled := tracing_enabled c\<rparr>
      in if old_tracing_enabled \<noteq> tracing_enabled c then c\<lparr>tracing_enabled_changed := True\<rparr> else c)"

definition TraceOff :: "'w sim_ctrl \<Rightarrow> 'w sim_ctrl" where
  "TraceOff c =
     (let c = (if tracing_enabled c then c\<lparr>tracing_enabled_changed := True\<rparr> else c)
      in c\<lparr>tracing_enabled := False\<rparr>)"

datatype signal = SIGINT | SIGUSR1

definition SignalHandler :: "signal \<Rightarrow> 'w sim_ctrl \<Rightarrow> 'w sim_ctrl" where
  "SignalHandler sig c =
     (case sig of
        SIGINT \<Rightarrow> RequestStop True c
      | SIGUSR1 \<Rightarrow> if tracing_enabled c then TraceOff c else TraceOn c)"

section \<open>The command line\<close>

text \<open>Returns the function's value, and the number it stores through the pointer.\<close>

definition read_ul_arg :: "string \<Rightarrow> u64 \<Rightarrow> bool \<times> u64" where
  "read_ul_arg arg_text arg_val =
     (if arg_text = [] \<or> \<not> (CHR ''0'' \<le> hd arg_text \<and> hd arg_text \<le> CHR ''9'') then (False, arg_val)
      else
        let (v, out_of_range, txt_end) = strtoul arg_text
        in if txt_end \<noteq> [] then (False, v) else (\<not> out_of_range, v))"

definition ctrl_options :: "long_option list" where
  "ctrl_options =
     [(''term-after-cycles'', required_argument, CHR ''c''),
      (''trace'', optional_argument, CHR ''t''),
      (''help'', no_argument, CHR ''h'')]"

definition ctrl_optstring :: string where
  "ctrl_optstring = ''-:c:th''"

text \<open>The loop over the options: the value it returns, if it returns, \<open>exit_app\<close> and the controller.\<close>

fun ctrl_option_loop :: "opt_event list \<Rightarrow> bool \<Rightarrow> 'w sim_ctrl \<Rightarrow> bool option \<times> bool \<times> 'w sim_ctrl" where
  "ctrl_option_loop [] exit_app c = (None, exit_app, c)"
| "ctrl_option_loop (Nonoption _ # es) exit_app c = ctrl_option_loop es exit_app c"
| "ctrl_option_loop (Missing_argument # es) exit_app c = (Some False, True, c)"
| "ctrl_option_loop (Unrecognised # es) exit_app c = ctrl_option_loop es exit_app c"
| "ctrl_option_loop (Opt opt optarg # es) exit_app c =
     (if opt = CHR ''t'' then
        (if \<not> tracing_possible c then (Some False, True, c)
         else ctrl_option_loop es exit_app
           (TraceOn (case optarg of None \<Rightarrow> c | Some path \<Rightarrow> c\<lparr>trace_file_path := path\<rparr>)))
      else if opt = CHR ''c'' then
        (case read_ul_arg (case optarg of None \<Rightarrow> [] | Some text \<Rightarrow> text) (term_after_cycles c) of
           (good, v) \<Rightarrow>
             let c = c\<lparr>term_after_cycles := v\<rparr>
             in if good then ctrl_option_loop es exit_app c else (Some False, True, c))
      else if opt = CHR ''h'' then ctrl_option_loop es True c
      else ctrl_option_loop es exit_app c)"

text \<open>The extensions parse the arguments one after the other.\<close>

fun parse_extensions :: "string list \<Rightarrow> 'w extension list \<Rightarrow> bool \<Rightarrow> ('w, bool \<times> bool) act" where
  "parse_extensions argv [] exit_app = act_return (True, exit_app)"
| "parse_extensions argv (ext # exts) exit_app =
     act_bind (ParseCLI ext argv exit_app) (\<lambda>(good, exit_app).
     if \<not> good then act_return (False, True) else parse_extensions argv exts exit_app)"

text \<open>The message of \<open>--help\<close>; \<open>top_name\<close> is what \<open>name()\<close> of the design gives.\<close>

definition GetName :: "string \<Rightarrow> 'w sim_ctrl \<Rightarrow> string" where
  "GetName top_name c = (if has_top c then top_name else ''unknown'')"

definition SimCtrl_PrintHelp :: "string \<Rightarrow> 'w sim_ctrl \<Rightarrow> string" where
  "SimCtrl_PrintHelp top_name c =
     ''Execute a simulation model for '' @ GetName top_name c @ nl @ nl @
     (if tracing_possible c
      then ''-t|--trace'' @ nl @ ''   --trace=FILE'' @ nl @ ''  Write a trace file from the start'' @ nl @ nl
      else []) @
     ''-c|--term-after-cycles=N'' @ nl @ ''  Terminate simulation after N cycles. 0 means no timeout.'' @ nl @ nl @
     ''-h|--help'' @ nl @ ''  Show help'' @ nl @ nl @
     ''All arguments are passed to the design and can be used in the design, e.g. by DPI modules.'' @ nl @ nl"

definition GetTraceFileName :: "'w sim_ctrl \<Rightarrow> string" where
  "GetTraceFileName c = trace_file_path c"

section \<open>Running\<close>

text \<open>The program points of \<open>Run\<close>: before the first \<open>eval\<close>, before the first \<open>Trace\<close>, at the top of the
  loop, before its \<open>Trace\<close>, before the conditions that end it, after the loop, and returned.\<close>

datatype pc = Start | First_trace | Turn | Turn_trace | Check | Final | Returned

text \<open>The messages on the console, with the values they are built from.  The statistics are the executed
  cycles, the milliseconds, from which the speed is computed, and the size of the trace file.\<close>

datatype message =
    Banner string
  | Kill_hint
  | Simulation_running
  | Tracing_on
  | Tracing_off
  | Writing_traces_to string
  | Received_stop
  | Received_finish
  | Timeout_reached u64
  | Statistics u64 u32 "int option"
  | View_hint string

text \<open>The controller with its pins and the tracer;
  \<open>start_reset_cycle\<close> and \<open>end_reset_cycle\<close> are local variables of \<open>Run\<close>.\<close>

record 'w machine =
  ctrl :: "'w sim_ctrl"
  sig_clk :: u8
  sig_rst :: u8
  tracer :: tracer
  outside :: 'w
  start_reset_cycle :: u64
  end_reset_cycle :: u64
  time_begin :: int
  time_end :: int
  printed :: "message list"
  point :: pc

definition on_ctrl :: "('w sim_ctrl \<Rightarrow> 'w sim_ctrl) \<Rightarrow> 'w machine \<Rightarrow> 'w machine" where
  "on_ctrl f m = m\<lparr>ctrl := f (ctrl m)\<rparr>"

definition say :: "message \<Rightarrow> 'w machine \<Rightarrow> 'w machine" where
  "say msg m = m\<lparr>printed := printed m @ [msg]\<rparr>"

definition SetReset :: "'w machine \<Rightarrow> 'w machine" where
  "SetReset m = m\<lparr>sig_rst := if flags (ctrl m) = ResetPolarityNegative then 0 else 1\<rparr>"

definition UnsetReset :: "'w machine \<Rightarrow> 'w machine" where
  "UnsetReset m = m\<lparr>sig_rst := if flags (ctrl m) = ResetPolarityNegative then 1 else 0\<rparr>"

text \<open>Called by the design for \<open>$stop\<close> and \<open>$error\<close>.\<close>

definition vl_stop :: "'w machine \<Rightarrow> 'w machine" where
  "vl_stop = on_ctrl (RequestStop False)"

text \<open>\<open>top_->eval()\<close>, in which the design may call \<open>vl_stop\<close>.\<close>

definition eval_top :: "'w toplevel \<Rightarrow> 'w machine \<Rightarrow> 'w machine" where
  "eval_top dut m =
     (let (w, stopped) = top_eval dut (sig_clk m) (sig_rst m) (outside m);
          m = m\<lparr>outside := w\<rparr>
      in if stopped then vl_stop m else m)"

definition Trace :: "'w machine \<Rightarrow> 'w machine" where
  "Trace m =
     (let m = (if tracing_enabled_changed (ctrl m)
               then on_ctrl (\<lambda>c. c\<lparr>tracing_enabled_changed := False\<rparr>)
                 (say (if tracing_enabled (ctrl m) then Tracing_on else Tracing_off) m)
               else m)
      in if \<not> tracing_enabled (ctrl m) then m
         else
           let file = GetTraceFileName (ctrl m);
               m = (if \<not> tracer_isOpen (tracer m)
                    then say (Writing_traces_to file) (m\<lparr>tracer := tracer_open file (tracer m)\<rparr>) else m)
           in m\<lparr>tracer := tracer_dump (sim_time (ctrl m)) (tracer m)\<rparr>)"

text \<open>One turn of the loop up to \<open>time_++\<close>.\<close>

definition loop_turn :: "'w toplevel \<Rightarrow> 'w machine \<Rightarrow> 'w machine" where
  "loop_turn dut m =
     (let cycle = sim_time (ctrl m) div 2;
          m = (if cycle = start_reset_cycle m then SetReset m
               else if cycle = end_reset_cycle m then UnsetReset m else m);
          m = m\<lparr>sig_clk := if sig_clk m = 0 then 1 else 0\<rparr>;
          m = (if sig_clk m \<noteq> 0
               then m\<lparr>outside := fold (\<lambda>ext. OnClock ext (sim_time (ctrl m))) (extension_array (ctrl m)) (outside m)\<rparr>
               else m);
          m = eval_top dut m
      in on_ctrl (\<lambda>c. c\<lparr>sim_time := sim_time c + 1\<rparr>) m)"

text \<open>The conditions that end the loop, in their order, with the message of each.\<close>

definition end_message :: "'w toplevel \<Rightarrow> 'w machine \<Rightarrow> message option" where
  "end_message dut m =
     (if request_stop (ctrl m) then Some Received_stop
      else if got_finish dut (outside m) then Some Received_finish
      else if term_after_cycles (ctrl m) \<noteq> 0 \<and> term_after_cycles (ctrl m) \<le> sim_time (ctrl m) div 2
      then Some (Timeout_reached (term_after_cycles (ctrl m)))
      else None)"

text \<open>The program's next step.\<close>

definition advance :: "'w toplevel \<Rightarrow> 'w machine \<Rightarrow> 'w machine" where
  "advance dut m =
     (case point m of
        Start \<Rightarrow>
          let m = say Simulation_running (eval_top dut m);
              m = UnsetReset (m\<lparr>time_begin := steady_clock dut (outside m)\<rparr>);
              start = ucast (initial_reset_delay_cycles (ctrl m))
          in m\<lparr>start_reset_cycle := start, end_reset_cycle := start + ucast (reset_duration_cycles (ctrl m)),
               point := First_trace\<rparr>
      | First_trace \<Rightarrow> (Trace m)\<lparr>point := Turn\<rparr>
      | Turn \<Rightarrow> (loop_turn dut m)\<lparr>point := Turn_trace\<rparr>
      | Turn_trace \<Rightarrow> (Trace m)\<lparr>point := Check\<rparr>
      | Check \<Rightarrow>
          (case end_message dut m of None \<Rightarrow> m\<lparr>point := Turn\<rparr> | Some msg \<Rightarrow> (say msg m)\<lparr>point := Final\<rparr>)
      | Final \<Rightarrow>
          let m = m\<lparr>outside := top_final dut (outside m)\<rparr>;
              m = m\<lparr>time_end := steady_clock dut (outside m)\<rparr>
          in (if tracing_ever_enabled (ctrl m) then m\<lparr>tracer := tracer_close (tracer m)\<rparr> else m)\<lparr>point := Returned\<rparr>
      | Returned \<Rightarrow> m)"

text \<open>A run with signals at any points: \<open>running dut m n m'\<close> says that the machine can get from \<open>m\<close> to
  \<open>m'\<close> with \<open>n\<close> turns of the loop.\<close>

inductive running :: "'w toplevel \<Rightarrow> 'w machine \<Rightarrow> nat \<Rightarrow> 'w machine \<Rightarrow> bool" for dut m where
  here: "running dut m 0 m"
| turn: "running dut m n m' \<Longrightarrow> point m' = Turn \<Longrightarrow> running dut m (Suc n) (advance dut m')"
| other: "running dut m n m' \<Longrightarrow> point m' \<noteq> Turn \<Longrightarrow> running dut m n (advance dut m')"
| signal: "running dut m n m' \<Longrightarrow> running dut m n (on_ctrl (SignalHandler sig) m')"

text \<open>\<open>k\<close> steps of the program, with the signals of the schedule \<open>sched\<close> before each.\<close>

fun run_for :: "'w toplevel \<Rightarrow> (nat \<Rightarrow> signal list) \<Rightarrow> nat \<Rightarrow> 'w machine \<Rightarrow> 'w machine" where
  "run_for dut sched 0 m = m"
| "run_for dut sched (Suc k) m =
     advance dut (fold (\<lambda>sig. on_ctrl (SignalHandler sig)) (sched k) (run_for dut sched k m))"

text \<open>\<open>Run\<close> up to its first \<open>eval\<close>.\<close>

definition Run_start :: "'w machine \<Rightarrow> 'w machine res" where
  "Run_start m =
     (if \<not> has_top (ctrl m) then Inl Assert_failed
      else if tracing_possible (ctrl m)
      then res_bind (toplevel_trace 99 0 (traceEverOn (tracer m))) (\<lambda>t. Inr (m\<lparr>tracer := t, point := Start\<rparr>))
      else Inr (m\<lparr>point := Start\<rparr>))"

definition GetExecutionTimeMs :: "'w machine \<Rightarrow> u32" where
  "GetExecutionTimeMs m = word_of_int ((time_end m - time_begin m) div 1000000)"

text \<open>The result, and \<open>size_byte\<close>, which is an \<open>int\<close>.\<close>

definition FileSize :: "'w toplevel \<Rightarrow> string \<Rightarrow> 'w \<Rightarrow> bool \<times> int" where
  "FileSize dut filepath w =
     (case stat_size dut filepath w of
        None \<Rightarrow> (False, 0)
      | Some st_size \<Rightarrow> (True, sint (word_of_int st_size :: u32)))"

definition PrintStatistics :: "'w toplevel \<Rightarrow> 'w machine \<Rightarrow> 'w machine" where
  "PrintStatistics dut m =
     say (Statistics (sim_time (ctrl m) div 2) (GetExecutionTimeMs m)
       (if \<not> tracing_enabled (ctrl m) then None
        else case FileSize dut (GetTraceFileName (ctrl m)) (outside m) of (found, trace_size_byte) \<Rightarrow>
          if found then Some trace_size_byte else None)) m"

text \<open>\<open>RunSimulation\<close> before and after \<open>Run\<close>, and as a whole; \<open>None\<close> when \<open>k\<close> steps are not enough for \<open>Run\<close> to
  return.\<close>

definition before_run :: "'w machine \<Rightarrow> 'w machine" where
  "before_run m =
     (let m = (if tracing_possible (ctrl m) then say Kill_hint m else m)
      in m\<lparr>outside := fold PreExec (extension_array (ctrl m)) (outside m)\<rparr>)"

definition after_run :: "'w toplevel \<Rightarrow> 'w machine \<Rightarrow> 'w machine" where
  "after_run dut m =
     (let m = m\<lparr>outside := fold PostExec (extension_array (ctrl m)) (outside m)\<rparr>;
          m = PrintStatistics dut m
      in if tracing_ever_enabled (ctrl m) then say (View_hint (GetTraceFileName (ctrl m))) m else m)"

definition RunSimulation :: "'w toplevel \<Rightarrow> (nat \<Rightarrow> signal list) \<Rightarrow> nat \<Rightarrow> 'w machine \<Rightarrow> 'w machine res option" where
  "RunSimulation dut sched k m =
     (case Run_start (before_run m) of
        Inl e \<Rightarrow> Some (Inl e)
      | Inr r \<Rightarrow>
          let m = run_for dut sched k r
          in if point m \<noteq> Returned then None else Some (Inr (after_run dut m)))"

definition ParseCommandArgs :: "'w toplevel \<Rightarrow> string list \<Rightarrow> bool \<Rightarrow> ('w machine, bool \<times> bool) act" where
  "ParseCommandArgs dut argv exit_app m =
     (case ctrl_option_loop (getopt_long argv ctrl_optstring ctrl_options) exit_app (ctrl m) of
        (Some ret, exit_app, c) \<Rightarrow> (Inr (ret, exit_app), m\<lparr>ctrl := c\<rparr>)
      | (None, exit_app, c) \<Rightarrow>
          (case parse_extensions argv (extension_array c) exit_app (command_args dut argv (outside m)) of
             (r, w) \<Rightarrow> (r, m\<lparr>ctrl := c, outside := w\<rparr>)))"

definition Exec ::
  "'w toplevel \<Rightarrow> (nat \<Rightarrow> signal list) \<Rightarrow> nat \<Rightarrow> string list \<Rightarrow> 'w machine \<Rightarrow> ((nat \<times> bool) \<times> 'w machine) res option" where
  "Exec dut sched k argv m =
     (case ParseCommandArgs dut argv False m of
        (Inl e, m) \<Rightarrow> Some (Inl e)
      | (Inr (good_cmdline, exit_app), m) \<Rightarrow>
          if exit_app then Some (Inr ((if good_cmdline then 0 else 1, False), m))
          else map_option (\<lambda>r. res_bind r (\<lambda>m.
            Inr ((if simulation_success (ctrl m) then 0 else 1, True), m))) (RunSimulation dut sched k m))"

section \<open>Facts about the steps\<close>

text \<open>What no step of a run changes.\<close>

definition settings :: "'w sim_ctrl \<Rightarrow> VerilatorSimCtrlFlags \<times> string \<times> bool \<times> u32 \<times> u32 \<times> u64 \<times> 'w extension list" where
  "settings c = (flags c, trace_file_path c, tracing_possible c, initial_reset_delay_cycles c, reset_duration_cycles c,
     term_after_cycles c, extension_array c)"

lemma settings_update [simp]:
  "settings (c\<lparr>sim_time := t\<rparr>) = settings c" "settings (c\<lparr>tracing_enabled_changed := b\<rparr>) = settings c"
  by (simp_all add: settings_def)

lemma handler_fields [simp]:
  "settings (SignalHandler sig c) = settings c" "sim_time (SignalHandler sig c) = sim_time c"
  by (cases sig; simp add: SignalHandler_def RequestStop_def TraceOn_def TraceOff_def Let_def settings_def)+

lemma handler_machine [simp]:
  "sig_clk (on_ctrl f m) = sig_clk m" "sig_rst (on_ctrl f m) = sig_rst m" "tracer (on_ctrl f m) = tracer m"
  "outside (on_ctrl f m) = outside m" "start_reset_cycle (on_ctrl f m) = start_reset_cycle m"
  "end_reset_cycle (on_ctrl f m) = end_reset_cycle m" "point (on_ctrl f m) = point m" "ctrl (on_ctrl f m) = f (ctrl m)"
  by (simp_all add: on_ctrl_def)

lemma say_fields [simp]:
  "sig_clk (say msg m) = sig_clk m" "sig_rst (say msg m) = sig_rst m" "tracer (say msg m) = tracer m"
  "outside (say msg m) = outside m" "start_reset_cycle (say msg m) = start_reset_cycle m"
  "end_reset_cycle (say msg m) = end_reset_cycle m" "point (say msg m) = point m" "ctrl (say msg m) = ctrl m"
  "time_begin (say msg m) = time_begin m" "time_end (say msg m) = time_end m" "printed (say msg m) = printed m @ [msg]"
  by (simp_all add: say_def)

lemma before_run_fields [simp]:
  "ctrl (before_run m) = ctrl m" "tracer (before_run m) = tracer m"
  "printed (before_run m) = printed m @ (if tracing_possible (ctrl m) then [Kill_hint] else [])"
  by (simp_all add: before_run_def Let_def)

lemma after_run_ctrl [simp]: "ctrl (after_run dut m) = ctrl m"
  by (simp add: after_run_def PrintStatistics_def Let_def)

lemma Run_start_fields:
  assumes "Run_start m = Inr r"
  shows "ctrl r = ctrl m" "point r = Start" "outside r = outside m" "printed r = printed m"
  using assms by (auto simp: Run_start_def split: if_splits)

lemma Run_start_total:
  "has_top (ctrl m) \<Longrightarrow> trace_compiled (tracer m) = tracing_possible (ctrl m) \<Longrightarrow> \<exists>r. Run_start m = Inr r"
  by (simp add: Run_start_def toplevel_trace_def traceEverOn_def forward_def)

text \<open>When \<open>RunSimulation\<close> returns.\<close>

lemma RunSimulation_return:
  "RunSimulation dut sched k m = Some (Inr m') \<longleftrightarrow>
    (\<exists>r. Run_start (before_run m) = Inr r \<and> point (run_for dut sched k r) = Returned \<and>
      m' = after_run dut (run_for dut sched k r))"
  by (auto simp: RunSimulation_def Let_def split: sum.split)

lemma Trace_fields [simp]:
  "sig_clk (Trace m) = sig_clk m" "sig_rst (Trace m) = sig_rst m" "outside (Trace m) = outside m"
  "start_reset_cycle (Trace m) = start_reset_cycle m" "end_reset_cycle (Trace m) = end_reset_cycle m"
  "point (Trace m) = point m" "settings (ctrl (Trace m)) = settings (ctrl m)" "sim_time (ctrl (Trace m)) = sim_time (ctrl m)"
  "request_stop (ctrl (Trace m)) = request_stop (ctrl m)" "simulation_success (ctrl (Trace m)) = simulation_success (ctrl m)"
  "tracing_enabled (ctrl (Trace m)) = tracing_enabled (ctrl m)"
  "tracing_ever_enabled (ctrl (Trace m)) = tracing_ever_enabled (ctrl m)"
  by (simp_all add: Trace_def Let_def settings_def)

text \<open>The loop ends.\<close>

definition loop_ends :: "'w toplevel \<Rightarrow> 'w machine \<Rightarrow> bool" where
  "loop_ends dut m \<longleftrightarrow> end_message dut m \<noteq> None"

lemma loop_ends_iff: "loop_ends dut m \<longleftrightarrow>
    request_stop (ctrl m) \<or> got_finish dut (outside m) \<or>
    (term_after_cycles (ctrl m) \<noteq> 0 \<and> term_after_cycles (ctrl m) \<le> sim_time (ctrl m) div 2)"
  by (simp add: loop_ends_def end_message_def)

lemma Trace_tracer: "tracer (Trace m) =
    (if tracing_enabled (ctrl m)
     then tracer_dump (sim_time (ctrl m))
       (if tracer_isOpen (tracer m) then tracer m else tracer_open (trace_file_path (ctrl m)) (tracer m))
     else tracer m)"
  by (simp_all add: Trace_def Let_def GetTraceFileName_def)

lemma eval_fields [simp]:
  "sig_clk (eval_top dut m) = sig_clk m" "sig_rst (eval_top dut m) = sig_rst m" "tracer (eval_top dut m) = tracer m"
  "start_reset_cycle (eval_top dut m) = start_reset_cycle m"
  "end_reset_cycle (eval_top dut m) = end_reset_cycle m" "point (eval_top dut m) = point m"
  "settings (ctrl (eval_top dut m)) = settings (ctrl m)" "sim_time (ctrl (eval_top dut m)) = sim_time (ctrl m)"
  "tracing_enabled (ctrl (eval_top dut m)) = tracing_enabled (ctrl m)"
  "tracing_ever_enabled (ctrl (eval_top dut m)) = tracing_ever_enabled (ctrl m)"
  by (simp_all add: eval_top_def vl_stop_def Let_def RequestStop_def settings_def split: prod.split)

lemma eval_stop: "request_stop (ctrl m) \<Longrightarrow> request_stop (ctrl (eval_top dut m))"
  by (simp add: eval_top_def vl_stop_def Let_def RequestStop_def split: prod.split)

lemma turn_fields [simp]:
  "sig_clk (loop_turn dut m) = (if sig_clk m = 0 then 1 else 0)" "tracer (loop_turn dut m) = tracer m"
  "start_reset_cycle (loop_turn dut m) = start_reset_cycle m"
  "end_reset_cycle (loop_turn dut m) = end_reset_cycle m" "point (loop_turn dut m) = point m"
  "settings (ctrl (loop_turn dut m)) = settings (ctrl m)" "sim_time (ctrl (loop_turn dut m)) = sim_time (ctrl m) + 1"
  "tracing_enabled (ctrl (loop_turn dut m)) = tracing_enabled (ctrl m)"
  "tracing_ever_enabled (ctrl (loop_turn dut m)) = tracing_ever_enabled (ctrl m)"
  by (simp_all add: loop_turn_def Let_def SetReset_def UnsetReset_def)

lemma turn_reset:
  "sig_rst (loop_turn dut m) =
    (if sim_time (ctrl m) div 2 = start_reset_cycle m then (if flags (ctrl m) = ResetPolarityNegative then 0 else 1)
     else if sim_time (ctrl m) div 2 = end_reset_cycle m then (if flags (ctrl m) = ResetPolarityNegative then 1 else 0)
     else sig_rst m)"
  by (simp add: loop_turn_def Let_def SetReset_def UnsetReset_def)

lemma turn_stop: "request_stop (ctrl m) \<Longrightarrow> request_stop (ctrl (loop_turn dut m))"
  by (simp add: loop_turn_def Let_def SetReset_def UnsetReset_def eval_stop)

lemma unset_fields [simp]:
  "ctrl (UnsetReset m) = ctrl m" "sig_clk (UnsetReset m) = sig_clk m" "tracer (UnsetReset m) = tracer m"
  "outside (UnsetReset m) = outside m"
  "sig_rst (UnsetReset m) = (if flags (ctrl m) = ResetPolarityNegative then 1 else 0)"
  by (simp_all add: UnsetReset_def)

text \<open>One rule per program point.\<close>

lemma advance_points:
  "point m = Start \<Longrightarrow> advance dut m = (UnsetReset ((say Simulation_running (eval_top dut m))
       \<lparr>time_begin := steady_clock dut (outside (eval_top dut m))\<rparr>))
     \<lparr>start_reset_cycle := ucast (initial_reset_delay_cycles (ctrl (eval_top dut m))),
      end_reset_cycle := ucast (initial_reset_delay_cycles (ctrl (eval_top dut m))) +
        ucast (reset_duration_cycles (ctrl (eval_top dut m))),
      point := First_trace\<rparr>"
  "point m = First_trace \<Longrightarrow> advance dut m = (Trace m)\<lparr>point := Turn\<rparr>"
  "point m = Turn \<Longrightarrow> advance dut m = (loop_turn dut m)\<lparr>point := Turn_trace\<rparr>"
  "point m = Turn_trace \<Longrightarrow> advance dut m = (Trace m)\<lparr>point := Check\<rparr>"
  "point m = Returned \<Longrightarrow> advance dut m = m"
  by (simp_all add: advance_def Let_def)

lemma advance_Check:
  assumes "point m = Check"
  shows "ctrl (advance dut m) = ctrl m" "sig_clk (advance dut m) = sig_clk m" "sig_rst (advance dut m) = sig_rst m"
    "start_reset_cycle (advance dut m) = start_reset_cycle m" "outside (advance dut m) = outside m"
    "end_reset_cycle (advance dut m) = end_reset_cycle m" "tracer (advance dut m) = tracer m"
    "point (advance dut m) = (if loop_ends dut m then Final else Turn)"
    "printed (advance dut m) = printed m @ (case end_message dut m of None \<Rightarrow> [] | Some msg \<Rightarrow> [msg])"
    "loop_ends dut (advance dut m) = loop_ends dut m"
  using assms by (simp_all add: advance_def loop_ends_def end_message_def split: option.split)

lemma advance_Final:
  assumes "point m = Final"
  shows "ctrl (advance dut m) = ctrl m" "sig_clk (advance dut m) = sig_clk m" "sig_rst (advance dut m) = sig_rst m"
    "start_reset_cycle (advance dut m) = start_reset_cycle m"
    "end_reset_cycle (advance dut m) = end_reset_cycle m" "point (advance dut m) = Returned"
    "tracer (advance dut m) = (if tracing_ever_enabled (ctrl m) then tracer_close (tracer m) else tracer m)"
    "printed (advance dut m) = printed m" "outside (advance dut m) = top_final dut (outside m)"
  using assms by (simp_all add: advance_def Let_def)

lemmas advance_simps = advance_points advance_Check advance_Final

section \<open>The clock and the reset\<close>

text \<open>The cycles in which reset is to be asserted, by the number of turns done.\<close>

definition reset_on :: "u32 \<Rightarrow> u32 \<Rightarrow> nat \<Rightarrow> bool" where
  "reset_on delay duration n \<longleftrightarrow> n \<noteq> 0 \<and> unat delay \<le> (n - 1) div 2 \<and>
     (duration = 0 \<or> (n - 1) div 2 < unat delay + unat duration)"

lemma reset_on_Suc:
  "reset_on delay duration (Suc n) =
    (if n div 2 = unat delay then True else if n div 2 = unat delay + unat duration then False else reset_on delay duration n)"
proof (cases n)
  case (Suc k)
  have dur: "duration = 0 \<longleftrightarrow> unat duration = 0" by (simp add: unat_eq_0)
  have "Suc k div 2 = k div 2 \<or> Suc k div 2 = Suc (k div 2)" by presburger
  then show ?thesis unfolding Suc reset_on_def dur by (simp only: diff_Suc_1) (elim disjE; simp; linarith)
qed (auto simp: reset_on_def unat_eq_0)

definition run_state :: "'w machine \<Rightarrow> nat \<Rightarrow> 'w machine \<Rightarrow> bool" where
  "run_state m n m' \<longleftrightarrow>
     settings (ctrl m') = settings (ctrl m) \<and> sim_time (ctrl m') = of_nat n \<and>
     (point m' \<in> {Start, First_trace} \<longrightarrow> n = 0) \<and>
     sig_clk m' = (if n = 0 then sig_clk m else if (sig_clk m = 0) = odd n then 1 else 0) \<and>
     (point m' \<noteq> Start \<longrightarrow>
        start_reset_cycle m' = ucast (initial_reset_delay_cycles (ctrl m)) \<and>
        end_reset_cycle m' = ucast (initial_reset_delay_cycles (ctrl m)) + ucast (reset_duration_cycles (ctrl m)) \<and>
        sig_rst m' = (if (flags (ctrl m) = ResetPolarityNegative) =
          reset_on (initial_reset_delay_cycles (ctrl m)) (reset_duration_cycles (ctrl m)) n then 0 else 1))"

lemma cycle_compare:
  assumes "n < 2 ^ 64"
  shows "(of_nat n :: u64) div 2 = ucast (a :: u32) \<longleftrightarrow> n div 2 = unat a"
    and "(of_nat n :: u64) div 2 = ucast (a :: u32) + ucast (b :: u32) \<longleftrightarrow> n div 2 = unat a + unat b"
proof -
  have n: "unat ((of_nat n :: u64) div 2) = n div 2"
    using assms by (simp add: unat_div unsigned_of_nat take_bit_nat_eq_self)
  have ab: "unat a < 2 ^ 32" "unat b < 2 ^ 32" using unsigned_less [of a, where 'a = nat] unsigned_less [of b, where 'a = nat] by simp_all
  have "unat (ucast a :: u64) = unat a" "unat (ucast b :: u64) = unat b"
    using ab by (simp_all add: unsigned_ucast_eq take_bit_nat_eq_self)
  moreover from this have "unat (ucast a + ucast b :: u64) = unat a + unat b"
    using ab unat_add_lem [of "ucast a :: u64" "ucast b"] by simp
  ultimately show "(of_nat n :: u64) div 2 = ucast a \<longleftrightarrow> n div 2 = unat a"
    "(of_nat n :: u64) div 2 = ucast a + ucast b \<longleftrightarrow> n div 2 = unat a + unat b"
    using n by (metis word_unat_eq_iff)+
qed

lemma run_state_turn:
  assumes "run_state m n m'" and "n < 2 ^ 64" and "point m' = Turn"
  shows "run_state m (Suc n) (advance dut m')"
  using assms cycle_compare [OF assms(2)]
  by (auto simp: run_state_def advance_simps turn_reset reset_on_Suc settings_def [of "ctrl m'"] settings_def [of "ctrl m"] add.commute)

lemma run_state_other:
  assumes "run_state m n m'" and "point m' \<noteq> Turn"
  shows "run_state m n (advance dut m')"
proof (cases "point m'")
  case Start
  moreover have "settings (ctrl (eval_top dut m')) = settings (ctrl m)" using assms(1) by (simp add: run_state_def)
  then have "flags (ctrl (eval_top dut m')) = flags (ctrl m)"
    "initial_reset_delay_cycles (ctrl (eval_top dut m')) = initial_reset_delay_cycles (ctrl m)"
    "reset_duration_cycles (ctrl (eval_top dut m')) = reset_duration_cycles (ctrl m)" by (simp_all add: settings_def)
  ultimately show ?thesis using assms(1) by (simp add: run_state_def advance_simps reset_on_def)
qed (use assms in \<open>auto simp: run_state_def advance_simps\<close>)

lemma run_state_signal: "run_state m n m' \<Longrightarrow> run_state m n (on_ctrl (SignalHandler sig) m')"
  by (simp add: run_state_def)

lemma running_state:
  assumes "running dut m n m'" and "n \<le> 2 ^ 64" and "point m = Start" and "sim_time (ctrl m) = 0"
  shows "run_state m n m'"
  using assms(1,2)
proof (induction rule: running.induct)
  case here
  then show ?case using assms(3,4) by (simp add: run_state_def)
qed (auto intro: run_state_turn run_state_other run_state_signal)

section \<open>How a run ends\<close>

text \<open>The number of steps of the program after which a point is reached for the first time, with \<open>n\<close> turns
  done.\<close>

fun steps_to :: "pc \<Rightarrow> nat \<Rightarrow> nat" where
  "steps_to Start n = 0"
| "steps_to First_trace n = 1"
| "steps_to Turn n = 3 * n + 2"
| "steps_to Turn_trace n = 3 * n"
| "steps_to Check n = 3 * n + 1"
| "steps_to Final n = 3 * n + 2"
| "steps_to Returned n = 3 * n + 3"

lemma fold_signals:
  "running dut m n m' \<Longrightarrow> running dut m n (fold (\<lambda>sig. on_ctrl (SignalHandler sig)) sigs m')"
  "point (fold (\<lambda>sig. on_ctrl (SignalHandler sig)) sigs m') = point m'"
  by (induction sigs arbitrary: m') (auto intro: running.signal)

text \<open>A run under a schedule is a run.\<close>

lemma run_for_running:
  assumes "point m = Start"
  shows "\<exists>n. running dut m n (run_for dut sched k m) \<and>
    (if point (run_for dut sched k m) = Returned then steps_to Returned n \<le> k
     else k = steps_to (point (run_for dut sched k m)) n) \<and>
    (point (run_for dut sched k m) \<in> {Turn_trace, Check, Final} \<longrightarrow> n \<noteq> 0) \<and>
    (point (run_for dut sched k m) \<in> {Start, First_trace} \<longrightarrow> n = 0)"
proof (induction k)
  case 0
  show ?case using assms by (intro exI [of _ 0]) (auto intro: running.here)
next
  case (Suc k)
  define M where "M = fold (\<lambda>sig. on_ctrl (SignalHandler sig)) (sched k) (run_for dut sched k m)"
  obtain n where n: "running dut m n M"
    "if point M = Returned then steps_to Returned n \<le> k else k = steps_to (point M) n"
    "point M \<in> {Turn_trace, Check, Final} \<longrightarrow> n \<noteq> 0" "point M \<in> {Start, First_trace} \<longrightarrow> n = 0"
    using Suc fold_signals(1) unfolding M_def fold_signals(2) by blast
  have next_m: "run_for dut sched (Suc k) m = advance dut M" by (simp add: M_def)
  show ?case
  proof (cases "point M = Turn")
    case True
    have "running dut m (Suc n) (advance dut M)" by (rule running.turn [OF n(1) True])
    then show ?thesis unfolding next_m using n(2) True by (intro exI [of _ "Suc n"]) (simp add: advance_simps)
  next
    case False
    have "running dut m n (advance dut M)" by (rule running.other [OF n(1) False])
    then show ?thesis unfolding next_m using n(2-4) False
      by (intro exI [of _ n]) (cases "point M"; simp add: advance_simps split: if_splits)
  qed
qed

text \<open>With a timeout of \<open>t\<close> cycles.\<close>

definition before_timeout :: "nat \<Rightarrow> 'w machine \<Rightarrow> nat \<Rightarrow> bool" where
  "before_timeout t m n \<longleftrightarrow> (if point m = Turn then n < 2 * t else n \<le> 2 * t)"

lemma running_timeout:
  assumes "running dut m n m'" and "point m = Start" and "sim_time (ctrl m) = 0"
    and "term_after_cycles (ctrl m) \<noteq> 0" and "unat (term_after_cycles (ctrl m)) < 2 ^ 63"
  shows "before_timeout (unat (term_after_cycles (ctrl m))) m' n"
  using assms(1)
proof (induction rule: running.induct)
  let ?t = "unat (term_after_cycles (ctrl m))"
  have pos: "0 < ?t" using assms(4) by (simp add: unat_gt_0)
  case here
  then show ?case using assms(2) by (simp add: before_timeout_def)
next
  case (turn n m')
  then show ?case by (simp add: before_timeout_def advance_simps)
next
  case (other n m')
  let ?t = "unat (term_after_cycles (ctrl m))"
  have pos: "0 < ?t" using assms(4) by (simp add: unat_gt_0)
  have n: "n \<le> 2 * ?t" using other by (simp add: before_timeout_def)
  then have small: "n < 2 ^ 64" using assms(5) by simp
  have st: "run_state m n m'" using running_state [OF other(1) _ assms(2,3)] small by simp
  then have term_eq: "term_after_cycles (ctrl m') = term_after_cycles (ctrl m)" "sim_time (ctrl m') = of_nat n"
    by (simp_all add: run_state_def settings_def)
  have zero: "point m' = First_trace \<Longrightarrow> n = 0" using st by (simp add: run_state_def)
  have check: "n < 2 * ?t" if "point m' = Check" "\<not> loop_ends dut m'"
  proof -
    have "\<not> term_after_cycles (ctrl m) \<le> (of_nat n :: u64) div 2" using that(2) assms(4) by (simp add: loop_ends_iff term_eq)
    then have "n div 2 < ?t" using small by (simp add: word_le_nat_alt unat_div unsigned_of_nat take_bit_nat_eq_self)
    then show ?thesis by linarith
  qed
  show ?case
    using n check other(2) zero pos by (cases "point m'") (simp_all add: before_timeout_def advance_simps)
next
  case (signal n m' sig)
  then show ?case by (simp add: before_timeout_def)
qed

lemma running_end:
  assumes "running dut m n m'" and "point m' = Final" and "point m = Start"
  shows "loop_ends dut m'"
proof -
  have "point m' = Final \<longrightarrow> loop_ends dut m'"
    using assms(1)
  proof (induction rule: running.induct)
    case here
    then show ?case using assms(3) by simp
  next
    case (other n m')
    then show ?case by (cases "point m'") (auto simp: advance_simps loop_ends_iff)
  next
    case (signal n m' sig)
    have "request_stop c \<Longrightarrow> request_stop (SignalHandler sig c)" for c :: "'a sim_ctrl"
      by (cases sig; simp add: SignalHandler_def RequestStop_def TraceOn_def TraceOff_def Let_def)
    moreover have "settings (SignalHandler sig (ctrl m')) = settings (ctrl m')" by simp
    then have "term_after_cycles (SignalHandler sig (ctrl m')) = term_after_cycles (ctrl m')" by (simp add: settings_def)
    ultimately show ?case using signal by (auto simp: loop_ends_iff)
  qed (simp add: advance_simps)
  then show ?thesis using assms(2) by simp
qed

lemma run_for_timeout:
  assumes "point m = Start" and "sim_time (ctrl m) = 0" and "term_after_cycles (ctrl m) \<noteq> 0"
    and "unat (term_after_cycles (ctrl m)) < 2 ^ 63"
  shows "point (run_for dut sched (6 * unat (term_after_cycles (ctrl m)) + 3) m) = Returned"
proof (rule ccontr)
  let ?k = "6 * unat (term_after_cycles (ctrl m)) + 3"
  let ?m = "run_for dut sched ?k m"
  assume nr: "point ?m \<noteq> Returned"
  obtain n where n: "running dut m n ?m" "?k = steps_to (point ?m) n"
    using run_for_running [OF assms(1), of dut sched ?k] nr by auto
  have "before_timeout (unat (term_after_cycles (ctrl m))) ?m n" by (rule running_timeout [OF n(1) assms])
  then show False using n(2) nr by (cases "point ?m") (simp_all add: before_timeout_def)
qed

lemma RunSimulation_timeout:
  assumes "sim_time (ctrl m) = 0" and "term_after_cycles (ctrl m) \<noteq> 0" and "unat (term_after_cycles (ctrl m)) < 2 ^ 63"
  defines "k \<equiv> 6 * unat (term_after_cycles (ctrl m)) + 3"
  shows "RunSimulation dut sched k m \<noteq> None"
    and "has_top (ctrl m) \<Longrightarrow> trace_compiled (tracer m) = tracing_possible (ctrl m) \<Longrightarrow>
      \<exists>m'. RunSimulation dut sched k m = Some (Inr m')"
proof -
  have ends: "point (run_for dut sched k r) = Returned" if "Run_start (before_run m) = Inr r" for r
    using run_for_timeout [of r dut sched] Run_start_fields [OF that] assms by simp
  then show "RunSimulation dut sched k m \<noteq> None" by (simp add: RunSimulation_def Let_def split: sum.split)
  assume "has_top (ctrl m)" "trace_compiled (tracer m) = tracing_possible (ctrl m)"
  then obtain r where "Run_start (before_run m) = Inr r" using Run_start_total [of "before_run m"] by auto
  then show "\<exists>m'. RunSimulation dut sched k m = Some (Inr m')" using ends unfolding RunSimulation_return by blast
qed

text \<open>After a stop request.\<close>

lemma advance_stop:
  assumes "request_stop (ctrl m)"
  shows "request_stop (ctrl (advance dut m))" "point m = Check \<Longrightarrow> point (advance dut m) = Final"
  using assms by (cases "point m"; simp add: advance_simps eval_stop turn_stop loop_ends_iff)+

lemma running_stop:
  assumes "running dut m n m'" and "request_stop (ctrl m)"
  shows "request_stop (ctrl m') \<and> (n = 0 \<or> n = 1 \<and> point m' \<in> {Turn_trace, Check, Final, Returned})"
  using assms(1)
proof (induction rule: running.induct)
  case (turn n m')
  then show ?case using advance_stop(1) [of m' dut] by (simp add: advance_simps)
next
  case (other n m')
  then show ?case using advance_stop [of m' dut] by (cases "point m'") (auto simp: advance_simps)
next
  case (signal n m' sig)
  then show ?case by (cases sig) (auto simp: SignalHandler_def RequestStop_def TraceOn_def TraceOff_def Let_def)
qed (use assms(2) in simp)

text \<open>Whether the simulation was successful: it was, unless the design called \<open>vl_stop\<close>.\<close>

definition never_stops :: "'w toplevel \<Rightarrow> bool" where
  "never_stops dut \<longleftrightarrow> (\<forall>clk rst w. \<not> snd (top_eval dut clk rst w))"

definition always_stops :: "'w toplevel \<Rightarrow> bool" where
  "always_stops dut \<longleftrightarrow> (\<forall>clk rst w. snd (top_eval dut clk rst w))"

lemma eval_success:
  "simulation_success (ctrl (eval_top dut m)) =
    (simulation_success (ctrl m) \<and> \<not> snd (top_eval dut (sig_clk m) (sig_rst m) (outside m)))"
  by (simp add: eval_top_def vl_stop_def Let_def RequestStop_def split: prod.split)

lemma handler_success [simp]: "simulation_success (SignalHandler sig c) = simulation_success c"
  by (cases sig; simp add: SignalHandler_def RequestStop_def TraceOn_def TraceOff_def Let_def)

lemma turn_success:
  "simulation_success (ctrl (loop_turn dut m)) \<Longrightarrow> simulation_success (ctrl m)"
  "never_stops dut \<Longrightarrow> simulation_success (ctrl m) \<Longrightarrow> simulation_success (ctrl (loop_turn dut m))"
  by (simp_all add: loop_turn_def Let_def SetReset_def UnsetReset_def eval_success never_stops_def split: if_splits)

lemma Trace_success [simp]: "simulation_success (ctrl (Trace m)) = simulation_success (ctrl m)"
  by (simp add: Trace_def Let_def)

lemma advance_ctrl:
  "simulation_success (ctrl (advance dut m)) = simulation_success (ctrl
    (if point m = Start then eval_top dut m else if point m = Turn then loop_turn dut m else m))"
  by (cases "point m"; simp add: advance_simps)

lemma advance_success:
  "simulation_success (ctrl (advance dut m)) \<Longrightarrow> simulation_success (ctrl m)"
  "never_stops dut \<Longrightarrow> simulation_success (ctrl m) \<Longrightarrow> simulation_success (ctrl (advance dut m))"
  "always_stops dut \<Longrightarrow> point m = Start \<Longrightarrow> \<not> simulation_success (ctrl (advance dut m))"
  using turn_success [of dut m] unfolding advance_ctrl
  by (auto simp: eval_success never_stops_def always_stops_def split: if_splits)

lemma running_success:
  assumes "running dut m n m'"
  shows "never_stops dut \<Longrightarrow> simulation_success (ctrl m) \<Longrightarrow> simulation_success (ctrl m')"
    and "always_stops dut \<Longrightarrow> point m = Start \<Longrightarrow> point m' \<noteq> Start \<Longrightarrow> \<not> simulation_success (ctrl m')"
proof -
  show "simulation_success (ctrl m')" if "never_stops dut" "simulation_success (ctrl m)"
    using assms by (induction rule: running.induct) (simp_all add: that advance_success)
  have "point m' = Start \<or> \<not> simulation_success (ctrl m')" if "always_stops dut" "point m = Start"
    using assms by (induction rule: running.induct) (auto simp: that advance_success(3) dest: advance_success(1))
  then show "always_stops dut \<Longrightarrow> point m = Start \<Longrightarrow> point m' \<noteq> Start \<Longrightarrow> \<not> simulation_success (ctrl m')" by blast
qed

lemma RunSimulation_success:
  assumes "RunSimulation dut sched k m = Some (Inr m')"
  shows "never_stops dut \<Longrightarrow> simulation_success (ctrl m) \<Longrightarrow> simulation_success (ctrl m')"
    and "always_stops dut \<Longrightarrow> \<not> simulation_success (ctrl m')"
proof -
  obtain r where r: "Run_start (before_run m) = Inr r" "point (run_for dut sched k r) = Returned"
    "m' = after_run dut (run_for dut sched k r)" using assms unfolding RunSimulation_return by blast
  note start = Run_start_fields [OF r(1)]
  obtain n where n: "running dut r n (run_for dut sched k r)" using run_for_running [OF start(2), of dut sched k] by auto
  show "simulation_success (ctrl m')" if "never_stops dut" "simulation_success (ctrl m)"
    using running_success(1) [OF n that(1)] that(2) by (simp add: r(3) start(1))
  show "\<not> simulation_success (ctrl m')" if "always_stops dut"
    using running_success(2) [OF n that start(2)] by (simp add: r)
qed

section \<open>Tracing\<close>

text \<open>The calls of the tracer: one recording, which is closed when the run has returned.\<close>

lemma handler_tracing:
  "trace_file_path (SignalHandler sig c) = trace_file_path c" "tracing_possible (SignalHandler sig c) = tracing_possible c"
  by (cases sig; simp add: SignalHandler_def RequestStop_def TraceOn_def TraceOff_def Let_def)+

lemma handler_ever:
  assumes "tracing_enabled c \<longrightarrow> tracing_ever_enabled c" and "tracing_ever_enabled c \<longrightarrow> tracing_possible c"
  shows "tracing_enabled (SignalHandler sig c) \<longrightarrow> tracing_ever_enabled (SignalHandler sig c)"
    "tracing_ever_enabled (SignalHandler sig c) \<longrightarrow> tracing_possible c"
    "tracing_ever_enabled c \<longrightarrow> tracing_ever_enabled (SignalHandler sig c)"
  using assms by (cases sig; simp add: SignalHandler_def RequestStop_def TraceOn_def TraceOff_def Let_def)+

definition trace_ok :: "'w machine \<Rightarrow> nat \<Rightarrow> bool" where
  "trace_ok m n \<longleftrightarrow>
     (tracing_enabled (ctrl m) \<longrightarrow> tracing_ever_enabled (ctrl m)) \<and>
     (tracing_ever_enabled (ctrl m) \<longrightarrow> tracing_possible (ctrl m)) \<and>
     trace_compiled (tracer m) = tracing_possible (ctrl m) \<and>
     (\<exists>ts closed. trace_calls (tracer m) = recording (tracing_possible (ctrl m)) (trace_file_path (ctrl m)) ts closed \<and>
        (ts \<noteq> [] \<longrightarrow> tracing_ever_enabled (ctrl m)) \<and> (closed \<longrightarrow> tracing_possible (ctrl m) \<and> point m = Returned) \<and>
        (ts \<noteq> [] \<and> point m = Returned \<longrightarrow> closed) \<and> (point m \<in> {Start, First_trace} \<longrightarrow> ts = []) \<and>
        sorted_wrt (<) (map unat ts) \<and> list_all (\<lambda>t. unat t < (if point m = Turn_trace then n else n + 1)) ts)"

lemma trace_ok_signal:
  assumes "trace_ok m n"
  shows "trace_ok (on_ctrl (SignalHandler sig) m) n"
proof -
  obtain ts closed where ok: "trace_calls (tracer m) = recording (tracing_possible (ctrl m)) (trace_file_path (ctrl m)) ts closed"
    "ts \<noteq> [] \<longrightarrow> tracing_ever_enabled (ctrl m)" "closed \<longrightarrow> tracing_possible (ctrl m) \<and> point m = Returned"
    "ts \<noteq> [] \<and> point m = Returned \<longrightarrow> closed" "point m \<in> {Start, First_trace} \<longrightarrow> ts = []"
    "sorted_wrt (<) (map unat ts)" "list_all (\<lambda>t. unat t < (if point m = Turn_trace then n else n + 1)) ts"
    using assms unfolding trace_ok_def by blast
  have flags: "tracing_enabled (ctrl m) \<longrightarrow> tracing_ever_enabled (ctrl m)" "tracing_ever_enabled (ctrl m) \<longrightarrow> tracing_possible (ctrl m)"
    "trace_compiled (tracer m) = tracing_possible (ctrl m)" using assms by (simp_all add: trace_ok_def)
  show ?thesis
    unfolding trace_ok_def handler_machine handler_tracing using flags ok handler_ever [of "ctrl m" sig] by blast
qed

lemma trace_ok_Trace:
  assumes "trace_ok m n" and time: "sim_time (ctrl m) = of_nat n" and n: "n < 2 ^ 64"
    and p: "point m = Turn_trace \<or> point m = First_trace" "p \<noteq> Turn_trace" "p \<noteq> Returned" "p \<notin> {Start, First_trace}"
  shows "trace_ok ((Trace m)\<lparr>point := p\<rparr>) n"
proof -
  obtain ts closed where ok: "trace_calls (tracer m) = recording (tracing_possible (ctrl m)) (trace_file_path (ctrl m)) ts closed"
    "ts \<noteq> [] \<longrightarrow> tracing_ever_enabled (ctrl m)" "closed \<longrightarrow> point m = Returned" "point m = First_trace \<longrightarrow> ts = []"
    "sorted_wrt (<) (map unat ts)" "list_all (\<lambda>t. unat t < (if point m = Turn_trace then n else n + 1)) ts"
    using assms(1) unfolding trace_ok_def by blast
  then have calls: "trace_calls (tracer m) = recording (tracing_possible (ctrl m)) (trace_file_path (ctrl m)) ts False" using p(1) by auto
  have fields: "trace_file_path (ctrl (Trace m)) = trace_file_path (ctrl m)" "tracing_possible (ctrl (Trace m)) = tracing_possible (ctrl m)"
    using Trace_fields(7) [of m] by (simp_all add: settings_def)
  have flags: "tracing_enabled (ctrl m) \<longrightarrow> tracing_ever_enabled (ctrl m)" "tracing_ever_enabled (ctrl m) \<longrightarrow> tracing_possible (ctrl m)"
    "trace_compiled (tracer m) = tracing_possible (ctrl m)" using assms(1) by (simp_all add: trace_ok_def)
  have unat_n: "unat (of_nat n :: u64) = n" using n by (simp add: unsigned_of_nat take_bit_nat_eq_self)
  have below: "list_all (\<lambda>t. unat t < n) ts" using ok(4,6) p(1) by (auto simp: list_all_iff)
  show ?thesis
  proof (cases "tracing_enabled (ctrl m)")
    case True
    then have on: "tracing_ever_enabled (ctrl m)" "tracing_possible (ctrl m)" "trace_compiled (tracer m)" using flags by simp_all
    have "tracer (Trace m) = (tracer m)\<lparr>trace_calls := recording (tracing_possible (ctrl m)) (trace_file_path (ctrl m)) (ts @ [of_nat n]) False\<rparr>"
      using True on(3) calls by (simp add: Trace_tracer time tracer_isOpen_def recording_is_open tracer_dump_def tracer_open_def
        forward_def recording_dump [symmetric])
    then show ?thesis using True on p below unat_n ok(5)
      by (auto simp: trace_ok_def fields sorted_wrt_append list_all_iff less_Suc_eq intro!: exI [of _ "ts @ [of_nat n]"] exI [of _ False])
  next
    case False
    then have "tracer (Trace m) = tracer m" by (simp add: Trace_tracer)
    then show ?thesis using False flags ok(2,5) calls p below
      by (auto simp: trace_ok_def fields list_all_iff less_Suc_eq intro!: exI [of _ ts] exI [of _ False])
  qed
qed

lemma trace_ok_Final:
  assumes "trace_ok m n" and "point m = Final"
  shows "trace_ok (advance dut m) n"
proof -
  obtain ts closed where "trace_calls (tracer m) = recording (tracing_possible (ctrl m)) (trace_file_path (ctrl m)) ts closed"
    "ts \<noteq> [] \<longrightarrow> tracing_ever_enabled (ctrl m)" "closed \<longrightarrow> point m = Returned" "sorted_wrt (<) (map unat ts)"
    "list_all (\<lambda>t. unat t < (if point m = Turn_trace then n else n + 1)) ts"
    using assms(1) unfolding trace_ok_def by blast
  then have ok: "trace_calls (tracer m) = recording (tracing_possible (ctrl m)) (trace_file_path (ctrl m)) ts closed"
    "ts \<noteq> [] \<longrightarrow> tracing_ever_enabled (ctrl m)" "\<not> closed" "sorted_wrt (<) (map unat ts)" "list_all (\<lambda>t. unat t < n + 1) ts"
    using assms(2) by auto
  have flags: "tracing_enabled (ctrl m) \<longrightarrow> tracing_ever_enabled (ctrl m)" "tracing_ever_enabled (ctrl m) \<longrightarrow> tracing_possible (ctrl m)"
    "trace_compiled (tracer m) = tracing_possible (ctrl m)" using assms(1) by (simp_all add: trace_ok_def)
  show ?thesis
  proof (cases "tracing_ever_enabled (ctrl m)")
    case True
    then have "tracer (advance dut m) = (tracer m)\<lparr>trace_calls := recording (tracing_possible (ctrl m)) (trace_file_path (ctrl m)) ts True\<rparr>"
      using flags ok(1,3) by (simp add: advance_Final [OF assms(2)] tracer_close_def forward_def recording_def)
    then show ?thesis using True flags ok advance_Final [OF assms(2), of dut]
      by (auto simp: trace_ok_def intro!: exI [of _ ts] exI [of _ True])
  next
    case False
    then show ?thesis using flags ok advance_Final [OF assms(2), of dut]
      by (auto simp: trace_ok_def intro!: exI [of _ "[]"] exI [of _ False])
  qed
qed

text \<open>The state in which the steps of \<open>Run\<close> start.\<close>

lemma Run_start_ok:
  assumes "has_top (ctrl m)" and "tracer m = VerilatedTracer (tracing_possible (ctrl m))"
    and "tracing_enabled (ctrl m) \<longrightarrow> tracing_ever_enabled (ctrl m)" and "tracing_ever_enabled (ctrl m) \<longrightarrow> tracing_possible (ctrl m)"
  shows "\<exists>r. Run_start m = Inr r \<and> ctrl r = ctrl m \<and> point r = Start \<and> trace_ok r 0"
proof (cases "tracing_possible (ctrl m)")
  case True
  then show ?thesis using assms
    by (auto simp: Run_start_def toplevel_trace_def traceEverOn_def forward_def VerilatedTracer_def trace_ok_def recording_def
      intro!: exI [of _ "[]"] exI [of _ False])
next
  case False
  then show ?thesis using assms
    by (auto simp: Run_start_def VerilatedTracer_def trace_ok_def recording_def intro!: exI [of _ "[]"] exI [of _ False])
qed

lemma trace_ok_recording:
  assumes "trace_ok m n"
  shows "\<exists>ts closed. trace_calls (tracer m) = recording (tracing_possible (ctrl m)) (trace_file_path (ctrl m)) ts closed \<and>
    sorted_wrt (<) (map unat ts) \<and> (\<not> tracing_possible (ctrl m) \<longrightarrow> ts = [] \<and> \<not> closed) \<and>
    (closed \<longrightarrow> point m = Returned) \<and> (ts \<noteq> [] \<and> point m = Returned \<longrightarrow> closed)"
  using assms unfolding trace_ok_def by metis

lemma running_trace:
  assumes "running dut m n m'" and "n < 2 ^ 64" and "point m = Start" and "sim_time (ctrl m) = 0" and "trace_ok m 0"
  shows "trace_ok m' n"
  using assms(1,2)
proof (induction rule: running.induct)
  case here
  then show ?case using assms(5) by simp
next
  case (turn n m')
  then have "trace_ok m' n" by simp
  moreover have "tracing_possible (ctrl (loop_turn dut m')) = tracing_possible (ctrl m')"
    "trace_file_path (ctrl (loop_turn dut m')) = trace_file_path (ctrl m')"
    using turn_fields(6) [of dut m'] by (simp_all add: settings_def)
  ultimately show ?case using turn(2) by (simp add: trace_ok_def advance_simps)
next
  case (other n m')
  then have ok: "trace_ok m' n" by simp
  have time: "sim_time (ctrl m') = of_nat n"
    using running_state [OF other(1) _ assms(3,4)] other.prems by (simp add: run_state_def)
  show ?case
  proof (cases "point m'")
    case Start
    have "tracing_possible (ctrl (eval_top dut m')) = tracing_possible (ctrl m')"
      "trace_file_path (ctrl (eval_top dut m')) = trace_file_path (ctrl m')"
      using eval_fields(7) [of dut m'] by (simp_all add: settings_def)
    then show ?thesis using ok Start by (simp add: trace_ok_def advance_simps)
  next
    case Check
    then show ?thesis using ok by (simp add: trace_ok_def advance_simps)
  next
    case Final
    then show ?thesis by (rule trace_ok_Final [OF ok])
  next
    case Returned
    then show ?thesis using ok by (simp add: advance_simps)
  qed (use other(2) trace_ok_Trace [OF ok time other.prems] in \<open>simp_all add: advance_simps\<close>)
next
  case (signal n m' sig)
  then show ?case by (simp add: trace_ok_signal)
qed

lemma read_ul_arg_dec:
  "read_ul_arg (dec_string n) old = (n < 2 ^ 64, if n < 2 ^ 64 then word_of_nat n else NOT 0)"
proof -
  have "hd (dec_string n) \<in> digit_char ` {0..<10}" using set_dec_string [of n] hd_in_set [of "dec_string n"] by auto
  then obtain d where d: "hd (dec_string n) = digit_char d" "d < 10" by auto
  have "CHR ''0'' \<le> digit_char d \<and> digit_char d \<le> CHR ''9''"
    using d(2) by (simp add: less_eq_char_def digit_char_def take_bit_nat_eq_self)
  then show ?thesis using d by (auto simp: read_ul_arg_def strtoul_dec)
qed

section \<open>Properties\<close>

text \<open>A counter, for the examples: the design counts the rising edges of the clock that it sees.\<close>

definition demo_dut :: "nat toplevel" where
  "demo_dut = \<lparr>top_eval = (\<lambda>clk rst w. (if clk = 1 then w + 1 else w, False)), top_final = (\<lambda>w. w),
     got_finish = (\<lambda>w. False), command_args = (\<lambda>argv w. w), steady_clock = (\<lambda>w. 1000000 * int w),
     stat_size = (\<lambda>file w. Some 4096)\<rparr>"

definition demo_machine :: "nat sim_ctrl \<Rightarrow> nat machine" where
  "demo_machine c = \<lparr>ctrl = c, sig_clk = 0, sig_rst = 0, tracer = VerilatedTracer (tracing_possible c), outside = 0,
     start_reset_cycle = 0, end_reset_cycle = 0, time_begin = 0, time_end = 0, printed = [], point = Start\<rparr>"

definition demo_ctrl :: "nat sim_ctrl" where
  "demo_ctrl = SetTop ResetPolarityNegative (SetInitialResetDelay 0 (SetTimeout 3 (VerilatorSimCtrl True False)))"

text \<open>C6: Clock and reset.  Whatever the design does and whenever signals arrive, after \<open>n\<close> turns of the loop
  the clock has changed \<open>n\<close> times and the reset is asserted, with the polarity that was set, exactly when
  the last turn was in a cycle from the initial delay on and before the delay plus the duration.  Only
  with a duration of 0 the reset is never released again.\<close>

theorem reset_window:
  assumes "running dut m n m'" and "n < 2 ^ 64" and "point m = Start" and "sim_time (ctrl m) = 0" and "point m' \<noteq> Start"
  shows "sig_rst m' = (if (flags (ctrl m) = ResetPolarityNegative) =
      reset_on (initial_reset_delay_cycles (ctrl m)) (reset_duration_cycles (ctrl m)) n then 0 else 1) \<and>
    sig_clk m' = (if n = 0 then sig_clk m else if (sig_clk m = 0) = odd n then 1 else 0) \<and>
    sim_time (ctrl m') = of_nat n"
  using running_state [OF assms(1) _ assms(3,4)] assms(2,5) by (simp add: run_state_def)

lemma demo_running:
  "running demo_dut (demo_machine demo_ctrl) 1
    (advance demo_dut (advance demo_dut (advance demo_dut (demo_machine demo_ctrl))))"
proof -
  have start: "point (demo_machine demo_ctrl) = Start" by (simp add: demo_machine_def)
  have first: "point (advance demo_dut (demo_machine demo_ctrl)) = First_trace" by (simp add: advance_simps start)
  have turn: "point (advance demo_dut (advance demo_dut (demo_machine demo_ctrl))) = Turn"
    by (simp add: advance_simps first)
  have "running demo_dut (demo_machine demo_ctrl) 0 (advance demo_dut (demo_machine demo_ctrl))"
    by (rule running.other [OF running.here]) (simp add: start)
  then have "running demo_dut (demo_machine demo_ctrl) 0 (advance demo_dut (advance demo_dut (demo_machine demo_ctrl)))"
    by (rule running.other) (simp add: first)
  from running.turn [OF this turn] show ?thesis by simp
qed

theorem reset_window_witness:
  "sig_rst (advance demo_dut (advance demo_dut (advance demo_dut (demo_machine demo_ctrl)))) =
     (if (flags demo_ctrl = ResetPolarityNegative) =
        reset_on (initial_reset_delay_cycles demo_ctrl) (reset_duration_cycles demo_ctrl) 1 then 0 else 1)"
  using reset_window [OF demo_running]
  by (simp add: demo_machine_def demo_ctrl_def VerilatorSimCtrl_def SetTop_def SetInitialResetDelay_def SetTimeout_def
      advance_def Let_def)

text \<open>C7: With a timeout of \<open>t\<close> cycles, \<open>Run\<close> returns: after at most \<open>6 * t + 3\<close> of its steps, whatever the
  design does and however many signals arrive.  No run makes more than \<open>2 * t\<close> turns, and when the loop is
  left, a stop was requested, the design has finished, or exactly \<open>2 * t\<close> turns have been made.\<close>

theorem run_terminates:
  assumes "point m = Start" and "sim_time (ctrl m) = 0" and "term_after_cycles (ctrl m) \<noteq> 0"
    and "unat (term_after_cycles (ctrl m)) < 2 ^ 63"
  shows "point (run_for dut sched (6 * unat (term_after_cycles (ctrl m)) + 3) m) = Returned \<and>
    (\<forall>n m'. running dut m n m' \<longrightarrow> n \<le> 2 * unat (term_after_cycles (ctrl m)) \<and>
       (point m' = Final \<longrightarrow> request_stop (ctrl m') \<or> got_finish dut (outside m') \<or>
          n = 2 * unat (term_after_cycles (ctrl m))))"
proof (intro conjI allI impI)
  let ?t = "unat (term_after_cycles (ctrl m))"
  show "point (run_for dut sched (6 * ?t + 3) m) = Returned" by (rule run_for_timeout [OF assms])
  fix n m'
  assume run: "running dut m n m'"
  have "before_timeout ?t m' n" by (rule running_timeout [OF run assms])
  then show n: "n \<le> 2 * ?t" by (simp add: before_timeout_def split: if_splits)
  assume final: "point m' = Final"
  have small: "n < 2 ^ 64" using n assms(4) by simp
  then have st: "run_state m n m'" using running_state [OF run _ assms(1,2)] by simp
  then have fields: "term_after_cycles (ctrl m') = term_after_cycles (ctrl m)" "sim_time (ctrl m') = of_nat n"
    by (simp_all add: run_state_def settings_def)
  have "term_after_cycles (ctrl m) \<le> (of_nat n :: u64) div 2 \<Longrightarrow> n = 2 * ?t"
    using n small by (simp add: word_le_nat_alt unat_div unsigned_of_nat take_bit_nat_eq_self)
  then show "request_stop (ctrl m') \<or> got_finish dut (outside m') \<or> n = 2 * ?t"
    using running_end [OF run final assms(1)] unfolding loop_ends_iff fields by blast
qed

theorem run_terminates_witness:
  "point (run_for demo_dut (\<lambda>k. [SIGUSR1]) 21 (demo_machine demo_ctrl)) = Returned"
proof -
  have prem: "point (demo_machine demo_ctrl) = Start" "sim_time (ctrl (demo_machine demo_ctrl)) = 0"
    "term_after_cycles (ctrl (demo_machine demo_ctrl)) \<noteq> 0" "unat (term_after_cycles (ctrl (demo_machine demo_ctrl))) < 2 ^ 63"
    "unat (term_after_cycles (ctrl (demo_machine demo_ctrl))) = 3"
    by (simp_all add: demo_machine_def demo_ctrl_def VerilatorSimCtrl_def SetTop_def SetInitialResetDelay_def SetTimeout_def)
  show ?thesis using run_terminates [OF prem(1-4), of demo_dut "\<lambda>k. [SIGUSR1]"] unfolding prem(5) by simp
qed

text \<open>C30: A requested stop stays requested, and at most one more turn of the loop is made.\<close>

theorem stop_request_honoured:
  assumes "running dut m n m'" and "request_stop (ctrl m)"
  shows "request_stop (ctrl m') \<and> n \<le> 1"
  using running_stop [OF assms] by auto

theorem stop_request_honoured_witness:
  "request_stop (SignalHandler SIGINT (RequestStop True demo_ctrl))"
proof -
  have "running demo_dut (demo_machine (RequestStop True demo_ctrl)) 0
      (on_ctrl (SignalHandler SIGINT) (demo_machine (RequestStop True demo_ctrl)))"
    by (rule running.signal [OF running.here])
  from stop_request_honoured [OF this] show ?thesis by (simp add: demo_machine_def RequestStop_def)
qed

text \<open>C31: The trace file.  What Verilator's tracing is called with is at any time one recording: when tracing was
  compiled in, the design is attached once, before anything else; the file that was set is opened once,
  before the first dump, the times of the dumps are strictly increasing, and the file is closed when \<open>Run\<close>
  returns.  When tracing was not compiled in, nothing is called and no assertion fails.\<close>

theorem trace_dumps:
  assumes "has_top (ctrl m)" and "sim_time (ctrl m) = 0" and "tracer m = VerilatedTracer (tracing_possible (ctrl m))"
    and "tracing_enabled (ctrl m) \<longrightarrow> tracing_ever_enabled (ctrl m)" and "tracing_ever_enabled (ctrl m) \<longrightarrow> tracing_possible (ctrl m)"
  shows "\<exists>r. Run_start m = Inr r \<and> (\<forall>n m'. running dut r n m' \<and> n < 2 ^ 64 \<longrightarrow>
    (\<exists>ts closed. trace_calls (tracer m') = recording (tracing_possible (ctrl m)) (trace_file_path (ctrl m)) ts closed \<and>
       sorted_wrt (<) (map unat ts) \<and> (\<not> tracing_possible (ctrl m) \<longrightarrow> ts = [] \<and> \<not> closed) \<and>
       (closed \<longrightarrow> point m' = Returned) \<and> (ts \<noteq> [] \<and> point m' = Returned \<longrightarrow> closed)))"
proof -
  obtain r where r: "Run_start m = Inr r" "ctrl r = ctrl m" "point r = Start" "trace_ok r 0"
    using Run_start_ok [OF assms(1,3-5)] by blast
  have time: "sim_time (ctrl r) = 0" using r(2) assms(2) by simp
  have "\<exists>ts closed. trace_calls (tracer m') = recording (tracing_possible (ctrl m)) (trace_file_path (ctrl m)) ts closed \<and>
       sorted_wrt (<) (map unat ts) \<and> (\<not> tracing_possible (ctrl m) \<longrightarrow> ts = [] \<and> \<not> closed) \<and>
       (closed \<longrightarrow> point m' = Returned) \<and> (ts \<noteq> [] \<and> point m' = Returned \<longrightarrow> closed)"
    if run: "running dut r n m'" and n: "n < 2 ^ 64" for n m'
  proof -
    have ok: "trace_ok m' n" by (rule running_trace [OF run n r(3) time r(4)])
    have kept: "tracing_possible (ctrl m') = tracing_possible (ctrl m)" "trace_file_path (ctrl m') = trace_file_path (ctrl m)"
      using running_state [OF run _ r(3) time] n by (simp_all add: run_state_def settings_def r(2))
    show ?thesis using trace_ok_recording [OF ok] unfolding kept .
  qed
  then show ?thesis using r(1) by blast
qed

theorem trace_dumps_witness:
  "\<exists>r. Run_start (demo_machine (TraceOn demo_ctrl)) = Inr r \<and>
    (\<exists>ts closed. trace_calls (tracer (advance demo_dut r)) = recording True ''sim.vcd'' ts closed)"
proof -
  let ?m = "demo_machine (TraceOn demo_ctrl)"
  have prem: "has_top (ctrl ?m)" "sim_time (ctrl ?m) = 0" "tracer ?m = VerilatedTracer (tracing_possible (ctrl ?m))"
    "tracing_enabled (ctrl ?m) \<longrightarrow> tracing_ever_enabled (ctrl ?m)" "tracing_ever_enabled (ctrl ?m) \<longrightarrow> tracing_possible (ctrl ?m)"
    by (simp_all add: demo_machine_def demo_ctrl_def VerilatorSimCtrl_def SetTop_def SetInitialResetDelay_def SetTimeout_def TraceOn_def Let_def)
  have path: "tracing_possible (ctrl ?m) = True" "trace_file_path (ctrl ?m) = ''sim.vcd''"
    by (simp_all add: demo_machine_def demo_ctrl_def VerilatorSimCtrl_def SetTop_def SetInitialResetDelay_def SetTimeout_def TraceOn_def Let_def)
  from trace_dumps [OF prem, of demo_dut] obtain r where r: "Run_start ?m = Inr r"
    "\<And>n m'. running demo_dut r n m' \<Longrightarrow> n < 2 ^ 64 \<Longrightarrow>
      \<exists>ts closed. trace_calls (tracer m') = recording True ''sim.vcd'' ts closed"
    unfolding path by blast
  have "point r = Start" by (rule Run_start_fields(2) [OF r(1)])
  then have "running demo_dut r 0 (advance demo_dut r)" by (intro running.other [OF running.here]) simp
  then show ?thesis using r by fastforce
qed

text \<open>The argument of \<open>--term-after-cycles\<close>: the decimal numeral of a number is accepted, with its value,
  exactly when the number fits into 64 bits.\<close>

theorem read_ul_arg_decimal:
  "read_ul_arg (dec_string n) old = (n < 2 ^ 64, if n < 2 ^ 64 then word_of_nat n else NOT 0)"
  by (rule read_ul_arg_dec)

lemma scan_timeout:
  "getopt_long [prog, ''--term-after-cycles='' @ num] ctrl_optstring ctrl_options = [Opt CHR ''c'' (Some num)]"
proof -
  have "find_long ctrl_options ''term-after-cycles'' = Some (''term-after-cycles'', required_argument, CHR ''c'')"
    by (rule find_long_exact) (simp_all add: ctrl_options_def)
  from scan_long_value [OF this, of "tl ctrl_optstring" num "[]"] show ?thesis
    by (simp add: getopt_long_def del: getopt_scan.simps(3))
qed

text \<open>The message documents the options that the controller accepts: \<open>--trace\<close> only when tracing is possible,
  and giving it then only ends the program.\<close>

theorem ctrl_help_documents_options:
  assumes "CHR 0x0A \<notin> set top_name"
  shows "documented (SimCtrl_PrintHelp top_name c) =
    map (accepted ctrl_optstring) (filter (\<lambda>p. fst p = ''trace'' \<longrightarrow> tracing_possible c)
      [ctrl_options ! 1, ctrl_options ! 0, ctrl_options ! 2])"
proof -
  have "CHR 0x0A \<notin> set (''Execute a simulation model for '' @ GetName top_name c)"
    using assms by (simp add: GetName_def)
  from split_lines_nl [OF this]
  have first: "documented ((''Execute a simulation model for '' @ GetName top_name c) @ nl @ rest) = documented rest" for rest
    by (simp add: documented_def)
  have rest: "documented (nl @ ''-t|--trace'' @ nl @ ''   --trace=FILE'' @ nl @ ''  Write a trace file from the start'' @ nl @ nl @ usage) =
      (Some CHR ''t'', ''trace'', False) # documented usage"
    "documented (nl @ usage) = documented usage" for usage
    by (simp_all add: documented_def nl_def)
  have usage: "documented (''-c|--term-after-cycles=N'' @ nl @ ''  Terminate simulation after N cycles. 0 means no timeout.'' @ nl @ nl @
      ''-h|--help'' @ nl @ ''  Show help'' @ nl @ nl @
      ''All arguments are passed to the design and can be used in the design, e.g. by DPI modules.'' @ nl @ nl) =
      [(Some CHR ''c'', ''term-after-cycles'', True), (Some CHR ''h'', ''help'', False)]"
    by code_simp
  have tables: "map (accepted ctrl_optstring) [ctrl_options ! 1, ctrl_options ! 0, ctrl_options ! 2] =
      [(Some CHR ''t'', ''trace'', False), (Some CHR ''c'', ''term-after-cycles'', True), (Some CHR ''h'', ''help'', False)]"
    by code_simp
  have message: "SimCtrl_PrintHelp top_name c = (''Execute a simulation model for '' @ GetName top_name c) @ nl @ nl @
     (if tracing_possible c
      then ''-t|--trace'' @ nl @ ''   --trace=FILE'' @ nl @ ''  Write a trace file from the start'' @ nl @ nl
      else []) @
     ''-c|--term-after-cycles=N'' @ nl @ ''  Terminate simulation after N cycles. 0 means no timeout.'' @ nl @ nl @
     ''-h|--help'' @ nl @ ''  Show help'' @ nl @ nl @
     ''All arguments are passed to the design and can be used in the design, e.g. by DPI modules.'' @ nl @ nl"
    unfolding SimCtrl_PrintHelp_def append_assoc ..
  show ?thesis
  proof (cases "tracing_possible c")
    case True
    then show ?thesis
      unfolding message first if_P [OF True] unfolding append_assoc rest(1) usage
      using tables by (simp add: ctrl_options_def)
  next
    case False
    then show ?thesis
      unfolding message first if_not_P [OF False] append_Nil rest(2) usage
      using tables by (simp add: ctrl_options_def)
  qed
qed

text \<open>The program called with \<open>--term-after-cycles=N\<close> and a positive number ends, whatever the design and
  the extensions do and whenever signals arrive.\<close>

theorem exec_terminates:
  assumes "has_top (ctrl m)" and "sim_time (ctrl m) = 0" and "0 < n" and "n < 2 ^ 63"
  shows "Exec dut sched (6 * n + 3) [prog, ''--term-after-cycles='' @ dec_string n] m \<noteq> None"
proof -
  let ?argv = "[prog, ''--term-after-cycles='' @ dec_string n]"
  let ?c = "(ctrl m)\<lparr>term_after_cycles := word_of_nat n\<rparr>"
  have n: "unat (word_of_nat n :: u64) = n" using assms(4) by (simp add: unsigned_of_nat take_bit_nat_eq_self)
  have pos: "(word_of_nat n :: u64) \<noteq> 0" using n assms(3) by (metis less_not_refl unat_0)
  have "n < 2 ^ 64" using assms(4) by simp
  then have opts: "ctrl_option_loop (getopt_long ?argv ctrl_optstring ctrl_options) False (ctrl m) = (None, False, ?c)"
    unfolding scan_timeout by (simp add: read_ul_arg_dec)
  let ?exts = "parse_extensions ?argv (extension_array (ctrl m)) False (command_args dut ?argv (outside m))"
  obtain r w where exts: "?exts = (r, w)" by (cases ?exts)
  have parse: "ParseCommandArgs dut ?argv False m = (r, m\<lparr>ctrl := ?c, outside := w\<rparr>)"
    by (simp only: ParseCommandArgs_def opts prod.case option.case) (simp add: exts [simplified])
  have "RunSimulation dut sched (6 * n + 3) (m\<lparr>ctrl := ?c, outside := w\<rparr>) \<noteq> None"
    using RunSimulation_timeout(1) [of "m\<lparr>ctrl := ?c, outside := w\<rparr>" dut sched] assms pos n by simp
  then show ?thesis using parse by (auto simp: Exec_def split: sum.split prod.split)
qed

text \<open>A memory option with its file in the same argument, such as \<open>-mhello.elf\<close>, is read by the controller
  as a group of options of its own when the file's name starts with \<open>h\<close>: the program prints the help and
  exits instead of running.\<close>

theorem attached_file_exits:
  "fst (snd (ctrl_option_loop (getopt_long (prog # (''-mh'' @ file) # args) ctrl_optstring ctrl_options) exit_app c))"
proof -
  have mono: "exit_app \<Longrightarrow> fst (snd (ctrl_option_loop es exit_app c))" for es exit_app and c :: "'a sim_ctrl"
    by (induction es exit_app c rule: ctrl_option_loop.induct) (auto simp: Let_def split: prod.split)
  have "getopt_long (prog # (''-mh'' @ file) # args) ctrl_optstring ctrl_options =
      Unrecognised # Opt CHR ''h'' None # getopt_scan (tl ctrl_optstring) ctrl_options file args"
    by (simp add: getopt_long_def ctrl_optstring_def)
  then show ?thesis using mono by simp
qed

end
