(* ===== verification/Sim_Report.thy ===== *)
theory Sim_Report
  imports Sim_Ctrl
begin

text \<open>
  What the controller prints while it runs: the messages of \<open>Run\<close>, \<open>Trace\<close>, \<open>PrintStatistics\<close> and
  \<open>RunSimulation\<close>.  The theory shows that a run is reported from its first message to the statistics,
  that the reason given for its end is true, that the messages on tracing tell its state, and which sizes of
  the trace file are printed as they are.
\<close>

section \<open>What is printed by each step\<close>

text \<open>The state of tracing that the messages tell.\<close>

definition told :: "message list \<Rightarrow> bool" where
  "told msgs = fold (\<lambda>msg b. case msg of Tracing_on \<Rightarrow> True | Tracing_off \<Rightarrow> False | _ \<Rightarrow> b) msgs False"

lemma told_simps [simp]:
  "told [] = False" "told (msgs @ [Tracing_on]) = True" "told (msgs @ [Tracing_off]) = False"
  "told (msgs @ [Writing_traces_to file]) = told msgs" "told (msgs @ [Simulation_running]) = told msgs"
  "told (msgs @ [Received_stop]) = told msgs" "told (msgs @ [Received_finish]) = told msgs"
  "told (msgs @ [Timeout_reached t]) = told msgs" "told (msgs @ [Kill_hint]) = told msgs"
  "told (msgs @ [Statistics c ms sz]) = told msgs" "told (msgs @ [Statistics c ms sz, View_hint file]) = told msgs"
  by (simp_all add: told_def)

definition trace_messages :: "'w machine \<Rightarrow> message list" where
  "trace_messages m =
     (if tracing_enabled_changed (ctrl m) then [if tracing_enabled (ctrl m) then Tracing_on else Tracing_off] else []) @
     (if tracing_enabled (ctrl m) \<and> \<not> tracer_isOpen (tracer m) then [Writing_traces_to (trace_file_path (ctrl m))] else [])"

lemma printed_ctrl [simp]: "printed (on_ctrl f m) = printed m"
  by (simp add: on_ctrl_def)

lemma printed_eval [simp]: "printed (eval_top dut m) = printed m"
  by (simp add: eval_top_def vl_stop_def Let_def split: prod.split)

lemma printed_turn [simp]: "printed (loop_turn dut m) = printed m"
  by (simp add: loop_turn_def Let_def SetReset_def UnsetReset_def)

lemma printed_unset [simp]: "printed (UnsetReset m) = printed m"
  by (simp add: UnsetReset_def)

lemma printed_Trace: "printed (Trace m) = printed m @ trace_messages m"
  by (simp add: Trace_def Let_def trace_messages_def GetTraceFileName_def)

lemma changed_Trace [simp]: "tracing_enabled_changed (ctrl (Trace m)) = False"
  by (simp add: Trace_def Let_def)

lemma changed_steps [simp]:
  "tracing_enabled_changed (ctrl (eval_top dut m)) = tracing_enabled_changed (ctrl m)"
  "tracing_enabled_changed (ctrl (loop_turn dut m)) = tracing_enabled_changed (ctrl m)"
proof -
  show "tracing_enabled_changed (ctrl (eval_top dut m)) = tracing_enabled_changed (ctrl m)" for m
    by (simp add: eval_top_def vl_stop_def Let_def RequestStop_def split: prod.split)
  then show "tracing_enabled_changed (ctrl (loop_turn dut m)) = tracing_enabled_changed (ctrl m)"
    by (simp add: loop_turn_def Let_def SetReset_def UnsetReset_def)
qed

text \<open>The messages on tracing are true, unless a signal has arrived that \<open>Trace\<close> has not yet seen.\<close>

definition tracing_told :: "'w machine \<Rightarrow> bool" where
  "tracing_told m \<longleftrightarrow> tracing_enabled_changed (ctrl m) \<or> told (printed m) = tracing_enabled (ctrl m)"

lemma told_Trace:
  assumes "tracing_told m"
  shows "told (printed (Trace m)) = tracing_enabled (ctrl m)"
  using assms by (auto simp: tracing_told_def printed_Trace trace_messages_def append_assoc [symmetric] simp del: append_assoc)

lemma tracing_told_signal: "tracing_told m \<Longrightarrow> tracing_told (on_ctrl (SignalHandler sig) m)"
  by (cases sig; auto simp: tracing_told_def SignalHandler_def RequestStop_def TraceOn_def TraceOff_def Let_def)

lemma after_run_fields:
  "\<exists>ms size. printed (after_run dut m) = printed m @ [Statistics (sim_time (ctrl m) div 2) ms size] @
      (if tracing_ever_enabled (ctrl m) then [View_hint (trace_file_path (ctrl m))] else []) \<and>
    (\<not> tracing_enabled (ctrl m) \<longrightarrow> size = None) \<and>
    outside (after_run dut m) = fold PostExec (extension_array (ctrl m)) (outside m)"
  by (auto simp: after_run_def PrintStatistics_def GetTraceFileName_def Let_def)

section \<open>The report of a run\<close>

definition trace_message :: "string \<Rightarrow> message \<Rightarrow> bool" where
  "trace_message file msg \<longleftrightarrow> msg = Tracing_on \<or> msg = Tracing_off \<or> msg = Writing_traces_to file"

lemma trace_messages_all: "list_all (trace_message (trace_file_path (ctrl m))) (trace_messages m)"
  by (simp add: trace_messages_def trace_message_def)

text \<open>The reason given for the end of the loop; the design had finished before \<open>final\<close> was called.\<close>

definition true_reason :: "'w toplevel \<Rightarrow> 'w machine \<Rightarrow> message \<Rightarrow> bool" where
  "true_reason dut m msg \<longleftrightarrow>
     msg = Received_stop \<and> request_stop (ctrl m) \<or>
     msg = Received_finish \<and> (\<exists>w. got_finish dut w \<and> outside m = (if point m = Returned then top_final dut w else w)) \<or>
     msg = Timeout_reached (term_after_cycles (ctrl m)) \<and> term_after_cycles (ctrl m) \<noteq> 0 \<and>
       term_after_cycles (ctrl m) \<le> sim_time (ctrl m) div 2"

lemma end_message_reason: "end_message dut m = Some msg \<Longrightarrow> p \<noteq> Returned \<Longrightarrow> true_reason dut (m\<lparr>printed := ps, point := p\<rparr>) msg"
  by (auto simp: end_message_def true_reason_def split: if_splits)

definition report_ok :: "'w toplevel \<Rightarrow> 'w machine \<Rightarrow> 'w machine \<Rightarrow> bool" where
  "report_ok dut r m \<longleftrightarrow> tracing_told m \<and> trace_file_path (ctrl m) = trace_file_path (ctrl r) \<and>
     (if point m = Start then printed m = printed r
      else \<exists>told_so reasons. printed m = printed r @ [Simulation_running] @ told_so @ reasons \<and>
        list_all (trace_message (trace_file_path (ctrl r))) told_so \<and>
        (if point m \<in> {Final, Returned} then \<exists>msg. reasons = [msg] \<and> true_reason dut m msg else reasons = []))"

lemma report_reason:
  assumes "tracing_told m" and "trace_file_path (ctrl m) = trace_file_path (ctrl r)" and "point m \<in> {Final, Returned}"
    and "printed m = printed r @ [Simulation_running] @ msgs @ [msg]"
    and "list_all (trace_message (trace_file_path (ctrl r))) msgs" and "true_reason dut m msg"
  shows "report_ok dut r m"
  using assms unfolding report_ok_def by auto

lemma report_signal:
  assumes "report_ok dut r m"
  shows "report_ok dut r (on_ctrl (SignalHandler sig) m)"
proof -
  have stop: "request_stop (ctrl m) \<Longrightarrow> request_stop (SignalHandler sig (ctrl m))"
    by (cases sig; simp add: SignalHandler_def RequestStop_def TraceOn_def TraceOff_def Let_def)
  have "settings (SignalHandler sig (ctrl m)) = settings (ctrl m)" by simp
  then have kept: "term_after_cycles (SignalHandler sig (ctrl m)) = term_after_cycles (ctrl m)" by (simp add: settings_def)
  have reason: "true_reason dut (on_ctrl (SignalHandler sig) m) msg" if "true_reason dut m msg" for msg
    using that stop by (auto simp: true_reason_def kept)
  have told: "tracing_told (on_ctrl (SignalHandler sig) m)" using assms tracing_told_signal [of m sig] unfolding report_ok_def by blast
  show ?thesis
  proof (cases "point m \<in> {Final, Returned}")
    case True
    then obtain msgs msg where "printed m = printed r @ [Simulation_running] @ msgs @ [msg]" "true_reason dut m msg"
      "list_all (trace_message (trace_file_path (ctrl r))) msgs" using assms by (auto simp: report_ok_def)
    then show ?thesis using True told assms reason [of msg] by (auto simp: report_ok_def handler_tracing)
  next
    case False
    then show ?thesis using told assms by (auto simp: report_ok_def handler_tracing)
  qed
qed

lemma report_Trace:
  assumes "report_ok dut r m" and "point m \<in> {First_trace, Turn_trace}" and "p \<in> {Turn, Check}"
  shows "report_ok dut r ((Trace m)\<lparr>point := p\<rparr>)"
proof -
  obtain msgs where msgs: "printed m = printed r @ [Simulation_running] @ msgs" "list_all (trace_message (trace_file_path (ctrl r))) msgs"
    using assms(1,2) by (auto simp: report_ok_def)
  have path: "trace_file_path (ctrl m) = trace_file_path (ctrl r)" and ok: "tracing_told m"
    using assms(1) by (simp_all add: report_ok_def)
  have "trace_file_path (ctrl (Trace m)) = trace_file_path (ctrl r)"
    using Trace_fields(7) [of m] path by (simp add: settings_def)
  moreover have "printed (Trace m) = printed r @ [Simulation_running] @ (msgs @ trace_messages m) @ []"
    by (simp add: printed_Trace msgs(1))
  moreover have "list_all (trace_message (trace_file_path (ctrl r))) (msgs @ trace_messages m)"
    using msgs(2) trace_messages_all [of m] path by simp
  ultimately show ?thesis using told_Trace [OF ok] assms(3) unfolding report_ok_def tracing_told_def by fastforce
qed

lemma report_Check:
  assumes "report_ok dut r m" and "point m = Check"
  shows "report_ok dut r (advance dut m)"
proof -
  obtain msgs where msgs: "printed m = printed r @ [Simulation_running] @ msgs" "list_all (trace_message (trace_file_path (ctrl r))) msgs"
    using assms by (auto simp: report_ok_def)
  have ok: "tracing_told m" "trace_file_path (ctrl m) = trace_file_path (ctrl r)" using assms(1) by (simp_all add: report_ok_def)
  show ?thesis
  proof (cases "end_message dut m")
    case None
    then show ?thesis using msgs ok assms(2) by (simp add: report_ok_def advance_def tracing_told_def)
  next
    case (Some msg)
    have "advance dut m = m\<lparr>printed := printed m @ [msg], point := Final\<rparr>" using Some assms(2) by (simp add: advance_def say_def)
    moreover have "told (printed m @ [msg]) = told (printed m)" using Some by (auto simp: end_message_def split: if_splits)
    ultimately show ?thesis
      using msgs ok end_message_reason [OF Some, where ps = "printed m @ [msg]" and p = Final]
      by (intro report_reason [where msgs = msgs and msg = msg]) (simp_all add: tracing_told_def)
  qed
qed

lemma running_report:
  assumes "running dut r n m" and "point r = Start" and "tracing_told r"
  shows "report_ok dut r m"
  using assms(1)
proof (induction rule: running.induct)
  case here
  then show ?case using assms(2,3) by (simp add: report_ok_def)
next
  case (turn n m)
  have "trace_file_path (ctrl (loop_turn dut m)) = trace_file_path (ctrl m)"
    using turn_fields(6) [of dut m] by (simp add: settings_def)
  then show ?case using turn by (auto simp: report_ok_def tracing_told_def advance_simps)
next
  case (other n m)
  show ?case
  proof (cases "point m")
    case Start
    have "trace_file_path (ctrl (eval_top dut m)) = trace_file_path (ctrl m)"
      using eval_fields(7) [of dut m] by (simp add: settings_def)
    then show ?thesis using other(3) Start by (auto simp: report_ok_def advance_simps tracing_told_def)
  next
    case First_trace
    then show ?thesis using report_Trace [OF other(3), of Turn] by (simp add: advance_simps)
  next
    case Turn_trace
    then show ?thesis using report_Trace [OF other(3), of Check] by (simp add: advance_simps)
  next
    case Check
    then show ?thesis by (rule report_Check [OF other(3)])
  next
    case Final
    have "true_reason dut m msg \<Longrightarrow> true_reason dut (advance dut m) msg" for msg
      using Final by (auto simp: true_reason_def advance_simps)
    then show ?thesis using other(3) Final by (auto simp: report_ok_def tracing_told_def advance_simps)
  next
    case Returned
    then show ?thesis using other(3) by (simp add: advance_simps)
  qed (use other(2) in simp)
next
  case (signal n m sig)
  then show ?case by (intro report_signal)
qed

section \<open>Properties\<close>

text \<open>C37: The report of a simulation.  When \<open>RunSimulation\<close> returns it has printed, in this order: the hint on
  tracing when tracing is possible, that the simulation runs, messages of the tracer, one reason for the
  end, the statistics with the executed cycles, and the name of the trace file if there is one.  The
  reason is true: a stop was requested, the design had finished, or the timeout that was set has passed;
  and the last message on tracing tells its state unless a signal has come since.\<close>

theorem run_report:
  assumes "RunSimulation dut sched k m = Some (Inr m')" and "tracing_told m"
  shows "\<exists>msgs reason ms size.
    printed m' = printed m @ (if tracing_possible (ctrl m) then [Kill_hint] else []) @ [Simulation_running] @ msgs @
      [reason, Statistics (sim_time (ctrl m') div 2) ms size] @
      (if tracing_ever_enabled (ctrl m') then [View_hint (trace_file_path (ctrl m))] else []) \<and>
    list_all (trace_message (trace_file_path (ctrl m))) msgs \<and>
    (reason = Received_stop \<and> request_stop (ctrl m') \<or>
     reason = Received_finish \<and>
       (\<exists>w. got_finish dut w \<and> outside m' = fold PostExec (extension_array (ctrl m')) (top_final dut w)) \<or>
     reason = Timeout_reached (term_after_cycles (ctrl m')) \<and> term_after_cycles (ctrl m') \<noteq> 0 \<and>
       term_after_cycles (ctrl m') \<le> sim_time (ctrl m') div 2) \<and>
    (tracing_enabled_changed (ctrl m') \<or> told (printed m') = tracing_enabled (ctrl m')) \<and>
    (\<not> tracing_enabled (ctrl m') \<longrightarrow> size = None)"
proof -
  obtain r where r: "Run_start (before_run m) = Inr r" "point (run_for dut sched k r) = Returned"
    "m' = after_run dut (run_for dut sched k r)" using assms(1) unfolding RunSimulation_return by blast
  let ?e = "run_for dut sched k r"
  note start = Run_start_fields [OF r(1)]
  have "tracing_told r" using assms(2) by (simp add: tracing_told_def start)
  moreover obtain n where "running dut r n ?e" using run_for_running [OF start(2), of dut sched k] by auto
  ultimately have "report_ok dut r ?e" by (intro running_report [OF _ start(2)])
  then obtain msgs reason where e: "printed ?e = printed r @ [Simulation_running] @ msgs @ [reason]"
    "list_all (trace_message (trace_file_path (ctrl m))) msgs" "true_reason dut ?e reason" "tracing_told ?e"
    "trace_file_path (ctrl ?e) = trace_file_path (ctrl m)"
    using r(2) by (auto simp: report_ok_def start)
  obtain ms size where m': "printed m' = printed ?e @ [Statistics (sim_time (ctrl ?e) div 2) ms size] @
      (if tracing_ever_enabled (ctrl ?e) then [View_hint (trace_file_path (ctrl m))] else [])"
    "\<not> tracing_enabled (ctrl ?e) \<longrightarrow> size = None" "outside m' = fold PostExec (extension_array (ctrl ?e)) (outside ?e)"
    unfolding r(3) using after_run_fields e(5) by metis
  have same: "ctrl m' = ctrl ?e" by (simp add: r(3))
  have "told (printed m') = told (printed ?e)" unfolding m'(1) by simp
  then have told: "tracing_enabled_changed (ctrl m') \<or> told (printed m') = tracing_enabled (ctrl m')"
    using e(4) by (simp add: tracing_told_def same)
  have why: "reason = Received_stop \<and> request_stop (ctrl m') \<or>
     reason = Received_finish \<and>
       (\<exists>w. got_finish dut w \<and> outside m' = fold PostExec (extension_array (ctrl m')) (top_final dut w)) \<or>
     reason = Timeout_reached (term_after_cycles (ctrl m')) \<and> term_after_cycles (ctrl m') \<noteq> 0 \<and>
       term_after_cycles (ctrl m') \<le> sim_time (ctrl m') div 2"
    using e(3) r(2) unfolding true_reason_def same m'(3) by auto
  show ?thesis
    using e(1,2) m'(1,2) told why by (intro exI [of _ msgs] exI [of _ reason] exI [of _ ms] exI [of _ size]) (simp add: same start)
qed

theorem run_report_witness:
  "\<exists>m' msgs reason ms size. RunSimulation demo_dut (\<lambda>k. [SIGUSR1]) 21 (demo_machine demo_ctrl) = Some (Inr m') \<and>
    printed m' = [Kill_hint, Simulation_running] @ msgs @ [reason, Statistics (sim_time (ctrl m') div 2) ms size] @
      (if tracing_ever_enabled (ctrl m') then [View_hint ''sim.vcd''] else []) \<and>
    list_all (trace_message ''sim.vcd'') msgs"
proof -
  note demo = demo_machine_def demo_ctrl_def VerilatorSimCtrl_def SetTop_def SetInitialResetDelay_def SetTimeout_def VerilatedTracer_def
  have term_eq: "6 * unat (term_after_cycles (ctrl (demo_machine demo_ctrl))) + 3 = 21" by (simp add: demo)
  obtain m' where m': "RunSimulation demo_dut (\<lambda>k. [SIGUSR1]) 21 (demo_machine demo_ctrl) = Some (Inr m')"
    using RunSimulation_timeout(2) [of "demo_machine demo_ctrl" demo_dut "\<lambda>k. [SIGUSR1]"] unfolding term_eq by (auto simp: demo)
  have told: "tracing_told (demo_machine demo_ctrl)" by (simp add: tracing_told_def demo)
  have kept: "printed (demo_machine demo_ctrl) = []" "tracing_possible (ctrl (demo_machine demo_ctrl)) = True"
    "trace_file_path (ctrl (demo_machine demo_ctrl)) = ''sim.vcd''" by (simp_all add: demo)
  show ?thesis using m' run_report [OF m' told] unfolding kept by auto
qed

text \<open>The size of the trace file is an \<open>int\<close>: below two gibibytes it is printed as it is, and from there to
  four gibibytes as a negative number.\<close>

theorem file_size_wraps:
  assumes "stat_size dut path w = Some n" and "0 \<le> n" and "n < 2 ^ 32"
  shows "FileSize dut path w = (True, if n < 2 ^ 31 then n else n - 2 ^ 32)"
proof -
  have "sint (word_of_int n :: u32) = signed_take_bit 31 n" by (simp add: signed_of_int)
  also have "\<dots> = (n + 2 ^ 31) mod 2 ^ 32 - 2 ^ 31" by (simp add: signed_take_bit_eq_take_bit_shift take_bit_eq_mod)
  also have "\<dots> = (if n < 2 ^ 31 then n else n - 2 ^ 32)"
  proof (cases "n < 2 ^ 31")
    case False
    then have "(n + 2 ^ 31) mod 2 ^ 32 = (n - 2 ^ 31 + 2 ^ 32) mod 2 ^ 32" by (simp add: add.commute)
    also have "\<dots> = n - 2 ^ 31" using False assms(3) by (simp only: mod_add_self2) (simp add: mod_pos_pos_trivial)
    finally show ?thesis using False by simp
  qed (use assms(2) in \<open>simp add: mod_pos_pos_trivial\<close>)
  finally show ?thesis using assms(1) by (simp add: FileSize_def)
qed

end
