(* ===== verification/Simple_System.thy ===== *)
theory Simple_System
  imports Verilator_Memutil Mem_Depth Sim_Ctrl Pcounts
begin

text \<open>
  \<open>ibex_simple_system.cc\<close> and its \<open>main\<close>: the program that puts the controller, the memory utilities and
  the design together.  The state outside the controller is that of the memory utilities and of the
  design.  The counters are read over the DPI in the current scope, so the functions \<open>hpm_num\<close> and
  \<open>hpm_get\<close> of the design take its state.
  The theory shows that \<open>--meminit\<close> puts a program into the memory of the design before it runs, and what
  the exit codes are.
\<close>

text \<open>The parameters of the design that the program asks for.\<close>

definition GetIsaString :: "bool \<Rightarrow> bool \<Rightarrow> u32 \<Rightarrow> string" where
  "GetIsaString rv32e rv32m rv32b =
     (let base = (if rv32e then ''rv32e'' else ''rv32i'');
          extensions = (if rv32m then ''m'' else []) @ ''c'' @
            (if rv32b = 1 then ''_Zba_Zbb_Zbs_XZbf_XZbt''
             else if rv32b = 2 then ''_Zba_Zbb_Zbc_Zbs_XZbf_XZbp_XZbr_XZbt''
             else if rv32b = 3 then ''_Zba_Zbb_Zbc_Zbs_XZbe_XZbf_XZbp_XZbr_XZbt''
             else [])
      in base @ extensions)"

type_synonym outer = "dpi_memutil \<times> sim"

definition SimpleSystem :: "string \<Rightarrow> u32 \<Rightarrow> mem_area res" where
  "SimpleSystem ram_hier_path ram_size_words = MemArea ram_hier_path ram_size_words 4"

definition memutil_extension :: "host \<Rightarrow> outer extension" where
  "memutil_extension h = SimCtrlExtension\<lparr>ParseCLI := ParseCLIArguments h\<rparr>"

text \<open>The value is that of \<open>ParseCommandArgs\<close> as an \<open>int\<close>, and \<open>exit_app\<close>.\<close>

definition Setup :: "host \<Rightarrow> outer toplevel \<Rightarrow> mem_area \<Rightarrow> string list \<Rightarrow> (outer machine, int \<times> bool) act" where
  "Setup h dut ram argv m =
     (let m = on_ctrl (SetTop ResetPolarityNegative) m in
      case RegisterMemoryArea ''ram'' 0 (Plain_area ram) (fst (outside m)) of
        (Inl e, d) \<Rightarrow> (Inl e, m\<lparr>outside := (d, snd (outside m))\<rparr>)
      | (Inr _, d) \<Rightarrow>
          let m = m\<lparr>outside := (d, snd (outside m))\<rparr>;
              m = on_ctrl (RegisterExtension (memutil_extension h)) m
          in act_bind (ParseCommandArgs dut argv False) (\<lambda>(good, exit_app).
             act_return (of_bool good, exit_app)) m)"

text \<open>The printed table and the file of comma-separated values, when the simulation was successful.\<close>

definition Finish :: "(sim \<Rightarrow> u32) \<Rightarrow> (sim \<Rightarrow> nat \<Rightarrow> u64) \<Rightarrow> outer machine \<Rightarrow> (string \<times> string) option \<times> outer machine" where
  "Finish hpm_num hpm_get m =
     (if \<not> simulation_success (ctrl m) then (None, m)
      else
        let (d, s) = outside m;
            scope = (if scope_exists s ''TOP.ibex_simple_system'' then Some ''TOP.ibex_simple_system'' else None);
            s = s\<lparr>cur_scope := scope\<rparr>
        in (Some (ibex_pcount_string (hpm_num s) (hpm_get s) False, ibex_pcount_string (hpm_num s) (hpm_get s) True),
            m\<lparr>outside := (d, s)\<rparr>))"

definition Run :: "outer toplevel \<Rightarrow> (nat \<Rightarrow> signal list) \<Rightarrow> nat \<Rightarrow> outer machine \<Rightarrow> outer machine res option" where
  "Run dut sched k m = RunSimulation dut sched k (say (Banner ''Simulation of Ibex'') m)"

text \<open>The exit code and what \<open>Finish\<close> has printed; \<open>None\<close> when \<open>k\<close> steps of \<open>Run\<close> are not enough.\<close>

definition Main ::
  "host \<Rightarrow> outer toplevel \<Rightarrow> (sim \<Rightarrow> u32) \<Rightarrow> (sim \<Rightarrow> nat \<Rightarrow> u64) \<Rightarrow> mem_area \<Rightarrow> (nat \<Rightarrow> signal list) \<Rightarrow> nat \<Rightarrow>
   string list \<Rightarrow> outer machine \<Rightarrow> (int \<times> (string \<times> string) option) res option" where
  "Main h dut hpm_num hpm_get ram sched k argv m =
     (case Setup h dut ram argv m of
        (Inl e, m) \<Rightarrow> Some (Inl e)
      | (Inr (ret_code, exit_app), m) \<Rightarrow>
          if exit_app then Some (Inr (ret_code, None))
          else map_option (\<lambda>r. res_bind r (\<lambda>m.
            case Finish hpm_num hpm_get m of
              (None, _) \<Rightarrow> Inr (1, None)
            | (Some out, _) \<Rightarrow> Inr (0, Some out))) (Run dut sched k m))"

definition main ::
  "host \<Rightarrow> outer toplevel \<Rightarrow> (sim \<Rightarrow> u32) \<Rightarrow> (sim \<Rightarrow> nat \<Rightarrow> u64) \<Rightarrow> (nat \<Rightarrow> signal list) \<Rightarrow> nat \<Rightarrow>
   string list \<Rightarrow> outer machine \<Rightarrow> (int \<times> (string \<times> string) option) res option" where
  "main h dut hpm_num hpm_get sched k argv m =
     (case SimpleSystem ''TOP.ibex_simple_system.u_ram.u_ram.gen_generic.u_impl_generic'' (1024 * 1024) of
        Inl e \<Rightarrow> Some (Inl e)
      | Inr ram \<Rightarrow> Main h dut hpm_num hpm_get ram sched k argv m)"

text \<open>The program when \<open>main\<close> starts.\<close>

definition fresh :: "bool \<Rightarrow> bool \<Rightarrow> u8 \<Rightarrow> u8 \<Rightarrow> sim \<Rightarrow> outer machine" where
  "fresh vm_trace saif clk rst s =
     \<lparr>ctrl = VerilatorSimCtrl vm_trace saif, sig_clk = clk, sig_rst = rst, tracer = VerilatedTracer vm_trace,
      outside = (DpiMemUtil, s), start_reset_cycle = 0, end_reset_cycle = 0, time_begin = 0, time_end = 0,
      printed = [], point = Start\<rparr>"

section \<open>Setting up\<close>

lemma register_ram:
  "\<exists>d. RegisterMemoryArea ''ram'' 0 (Plain_area ram) DpiMemUtil = (Inr (), d) \<and> registry_ok d \<and>
    mem_areas d = [Plain_area ram] \<and> names d = [''ram''] \<and> map_of (name_to_mem d) ''ram'' = Some 0"
proof -
  have "\<exists>m. RegisterMemoryArea ''ram'' 0 (Plain_area ram) DpiMemUtil = (Inr (), register_area ''ram'' 0 (Plain_area ram) m DpiMemUtil) \<and>
      registry_ok (register_area ''ram'' 0 (Plain_area ram) m DpiMemUtil)"
    by (rule RegisterMemoryArea_cases(4) [OF registry_empty]) (simp_all add: DpiMemUtil_def)
  then obtain m where m: "RegisterMemoryArea ''ram'' 0 (Plain_area ram) DpiMemUtil = (Inr (), register_area ''ram'' 0 (Plain_area ram) m DpiMemUtil)"
    "registry_ok (register_area ''ram'' 0 (Plain_area ram) m DpiMemUtil)" by blast
  then show ?thesis by (intro exI [of _ "register_area ''ram'' 0 (Plain_area ram) m DpiMemUtil"])
    (simp add: register_area_def DpiMemUtil_def)
qed

definition registered :: "mem_area \<Rightarrow> dpi_memutil" where
  "registered ram = snd (RegisterMemoryArea ''ram'' 0 (Plain_area ram) DpiMemUtil)"

lemma registered:
  "RegisterMemoryArea ''ram'' 0 (Plain_area ram) DpiMemUtil = (Inr (), registered ram)" "registry_ok (registered ram)"
  "mem_areas (registered ram) = [Plain_area ram]" "names (registered ram) = [''ram'']"
  "map_of (name_to_mem (registered ram)) ''ram'' = Some 0"
  using register_ram [of ram] by (auto simp: registered_def)

text \<open>The machine that parses the arguments.\<close>

definition set_up :: "host \<Rightarrow> mem_area \<Rightarrow> bool \<Rightarrow> bool \<Rightarrow> u8 \<Rightarrow> u8 \<Rightarrow> sim \<Rightarrow> outer machine" where
  "set_up h ram vm_trace saif clk rst s =
     (fresh vm_trace saif clk rst s)\<lparr>
       ctrl := (VerilatorSimCtrl vm_trace saif)\<lparr>has_top := True, flags := ResetPolarityNegative,
         extension_array := [memutil_extension h]\<rparr>,
       outside := (registered ram, s)\<rparr>"

lemma Setup_fresh:
  "Setup h dut ram argv (fresh vm_trace saif clk rst s) =
    act_bind (ParseCommandArgs dut argv False) (\<lambda>(good, exit_app). act_return (of_bool good, exit_app))
      (set_up h ram vm_trace saif clk rst s)"
  by (simp add: Setup_def fresh_def on_ctrl_def SetTop_def registered(1) RegisterExtension_def set_up_def
    VerilatorSimCtrl_def Let_def)

section \<open>Properties\<close>

lemma scan_long_unknown:
  assumes "find_long longs name = None" and "CHR ''='' \<notin> set name"
  shows "getopt_scan shorts longs [] ((''--'' @ name @ CHR ''='' # val) # args) =
    Unrecognised # getopt_scan shorts longs [] args"
proof -
  have "takeWhile (\<lambda>c. c \<noteq> CHR ''='') (name @ CHR ''='' # val) = name"
    using assms(2) by (auto simp: takeWhile_tail takeWhile_append2)
  then show ?thesis using assms(1) by (auto simp: Let_def)
qed

lemma ctrl_ignores_meminit:
  "getopt_long [prog, meminit p] ctrl_optstring ctrl_options = [Unrecognised]"
proof -
  have "find_long ctrl_options ''meminit'' = None" by (simp add: find_long_def ctrl_options_def)
  from scan_long_unknown [OF this] show ?thesis
    by (cases p) (simp add: getopt_long_def meminit_def del: getopt_scan.simps(3))
qed

text \<open>The file given for the memory of the design.\<close>

definition ram_image :: "string \<Rightarrow> load_arg" where
  "ram_image path = \<lparr>la_name = ''ram'', la_filepath = path, la_type = kMemImageElf\<rparr>"

lemma load_ram:
  assumes "FlattenElfFile h path = Inr bs" and "MemArea_Write ram (MemArea_methods ram) 0 bs s = (r, t)"
    and "\<And>e. r \<noteq> Inl (Throw (Scope_error e))"
  shows "load_file h (ram_image path) (registered ram, s) = (r, (registered ram, t))"
  using assms by (auto simp: LoadFileToNamedMem_def registered catch_scope_def area_Write_def load_file_def ram_image_def
    split: sum.splits fault.splits exn.splits)

lemma load_ram_within:
  assumes "backed ram home depth s" and "FlattenElfFile h path = Inr bs" and "length bs < 2 ^ 32 - 40"
    and "n = (length bs + unat (ma_width_byte ram) - 1) div unat (ma_width_byte ram)"
    and "n \<le> depth" and "n \<le> unat (ma_num_words ram)"
  shows "\<exists>t. load_file h (ram_image path) (registered ram, s) = (Inr (), (registered ram, t)) \<and> cur_scope t = cur_scope s \<and>
    MemArea_Read ram (MemArea_methods ram) 0 (word_of_nat n) t = (Inr (vec_resize bs (n * unat (ma_width_byte ram))), t)"
  using write_within [OF assms(1,3-6)] load_ram [OF assms(2)] by blast

text \<open>C5: Called with \<open>--meminit=ram,path,elf\<close>, the program registers its memory, loads the file, and does
  not exit: reading the memory gives the flattened ELF file, zeros completing the last word.\<close>

theorem setup_loads_ram:
  assumes "backed ram home depth s" and "field path" and "FlattenElfFile h path = Inr bs"
    and "length bs < 2 ^ 32 - 40" and "n = (length bs + unat (ma_width_byte ram) - 1) div unat (ma_width_byte ram)"
    and "n \<le> depth" and "n \<le> unat (ma_num_words ram)"
    and "command_args dut [prog, meminit (''ram'', path)] (registered ram, s) = (registered ram, s)"
  shows "\<exists>m t. Setup h dut ram [prog, meminit (''ram'', path)] (fresh vm_trace saif clk rst s) = (Inr (1, False), m) \<and>
    outside m = (registered ram, t) \<and> cur_scope t = cur_scope s \<and>
    MemArea_Read ram (MemArea_methods ram) 0 (word_of_nat n) t = (Inr (vec_resize bs (n * unat (ma_width_byte ram))), t)"
proof -
  obtain t where t: "load_file h (ram_image path) (registered ram, s) = (Inr (), (registered ram, t))" "cur_scope t = cur_scope s"
    "MemArea_Read ram (MemArea_methods ram) 0 (word_of_nat n) t = (Inr (vec_resize bs (n * unat (ma_width_byte ram))), t)"
    using load_ram_within [OF assms(1,3-7)] by blast
  have "list_all (\<lambda>p. field (fst p) \<and> field (snd p)) [(''ram'', path)]" using assms(2) by (simp add: field_def)
  from ParseCLIArguments_meminits [OF this, of h prog False "(registered ram, s)"] t(1)
  have parse: "ParseCLIArguments h [prog, meminit (''ram'', path)] False (registered ram, s) =
      (Inr (True, False), (registered ram, t))"
    by (simp add: act_bind_def act_return_def ram_image_def)
  have "ParseCommandArgs dut [prog, meminit (''ram'', path)] False (set_up h ram vm_trace saif clk rst s) =
      (Inr (True, False), (set_up h ram vm_trace saif clk rst s)\<lparr>outside := (registered ram, t)\<rparr>)"
    using parse assms(8)
    by (simp add: ParseCommandArgs_def ctrl_ignores_meminit set_up_def fresh_def memutil_extension_def SimCtrlExtension_def
      act_bind_def act_return_def)
  then show ?thesis using t(2,3)
    by (intro exI [of _ "(set_up h ram vm_trace saif clk rst s)\<lparr>outside := (registered ram, t)\<rparr>"] exI [of _ t])
      (simp add: Setup_fresh act_bind_def act_return_def)
qed

text \<open>A design for the examples, which does nothing.\<close>

definition idle_dut :: "outer toplevel" where
  "idle_dut = \<lparr>top_eval = (\<lambda>clk rst w. (w, False)), top_final = (\<lambda>w. w),
     got_finish = (\<lambda>w. False), command_args = (\<lambda>argv w. w), steady_clock = (\<lambda>w. 0), stat_size = (\<lambda>file w. None)\<rparr>"

lemma demo_flat: "FlattenElfFile (demo_host\<lparr>elf_getphdrnum := (\<lambda>_. Inr 1)\<rparr>) ''a.elf'' = Inr [1, 2, 3, 4, 5, 6]"
  by (simp add: FlattenElfFile_def demo_host_def ElfFile_def GetPhdrNum_def GetPhdrs_def bounds_step_def nth_phdr_def
    demo_phdrs_def PT_LOAD_def Let_def file_bytes_def flatten_step_def segment_bytes_def AddSegment_def StagedMem_def
    Emplace_def hit_bounds_def GetFlat_def flat_step_def vec_copy_def)

theorem setup_loads_ram_witness:
  "\<exists>m t. Setup (demo_host\<lparr>elf_getphdrnum := (\<lambda>_. Inr 1)\<rparr>) idle_dut demo_plain [''sim'', meminit (''ram'', ''a.elf'')]
      (fresh False False 0 0 (one_memory ''TOP.m'' 32 8 (replicate 40 0))) = (Inr (1, False), m) \<and>
    outside m = (registered demo_plain, t) \<and>
    MemArea_Read demo_plain (MemArea_methods demo_plain) 0 2 t = (Inr [1, 2, 3, 4, 5, 6, 0, 0], t)"
proof -
  let ?bs = "[1, 2, 3, 4, 5, 6 :: u8]"
  have env: "backed demo_plain ''TOP.m'' 8 (one_memory ''TOP.m'' 32 8 (replicate 40 0))"
    by (simp add: backed_def mem_present_one_memory demo_plain_def)
  have prem: "field ''a.elf''" "length ?bs < 2 ^ 32 - 40"
    "2 = (length ?bs + unat (ma_width_byte demo_plain) - 1) div unat (ma_width_byte demo_plain)"
    "(2 :: nat) \<le> 8" "2 \<le> unat (ma_num_words demo_plain)"
    "command_args idle_dut [''sim'', meminit (''ram'', ''a.elf'')]
      (registered demo_plain, one_memory ''TOP.m'' 32 8 (replicate 40 0)) =
      (registered demo_plain, one_memory ''TOP.m'' 32 8 (replicate 40 0))"
    by (simp_all add: field_def demo_plain_def idle_dut_def)
  have resize: "vec_resize ?bs (2 * unat (ma_width_byte demo_plain)) = [1, 2, 3, 4, 5, 6, 0, 0]"
  proof -
    have "2 * unat (ma_width_byte demo_plain) = 8" by (simp add: demo_plain_def)
    then show ?thesis by (simp add: vec_resize_def eval_nat_numeral)
  qed
  from setup_loads_ram [OF env prem(1) demo_flat prem(2-6)] show ?thesis unfolding resize by (auto simp: prod_eq_iff)
qed

lemma memutil_ignores_timeout:
  "getopt_long [prog, ''--term-after-cycles='' @ num] memutil_optstring memutil_options = [Unrecognised]"
proof -
  have "find_long memutil_options ''term-after-cycles'' = None" by (simp add: find_long_def memutil_options_def)
  from scan_long_unknown [OF this] show ?thesis by (simp add: getopt_long_def del: getopt_scan.simps(3))
qed

lemma ParseCLIArguments_timeout:
  "ParseCLIArguments h [prog, ''--term-after-cycles='' @ num] x st = (Inr (True, x), st)"
  by (cases st) (simp only: ParseCLIArguments_def memutil_ignores_timeout, simp add: act_bind_def act_return_def)

text \<open>The report of the counters of a design, in the scope of the system when there is one.\<close>

definition reports :: "(sim \<Rightarrow> u32) \<Rightarrow> (sim \<Rightarrow> nat \<Rightarrow> u64) \<Rightarrow> string \<times> string \<Rightarrow> bool" where
  "reports hpm_num hpm_get out \<longleftrightarrow> (\<exists>s. cur_scope s \<in> {None, Some ''TOP.ibex_simple_system''} \<and>
     out = (ibex_pcount_string (hpm_num s) (hpm_get s) False, ibex_pcount_string (hpm_num s) (hpm_get s) True))"

lemma Finish_cases:
  "if simulation_success (ctrl m) then \<exists>out m'. Finish hpm_num hpm_get m = (Some out, m') \<and> reports hpm_num hpm_get out
   else Finish hpm_num hpm_get m = (None, m)"
proof (cases "simulation_success (ctrl m)")
  case True
  obtain d s where ds: "outside m = (d, s)" by (cases "outside m")
  let ?s = "s\<lparr>cur_scope := if scope_exists s ''TOP.ibex_simple_system'' then Some ''TOP.ibex_simple_system'' else None\<rparr>"
  have "reports hpm_num hpm_get
      (ibex_pcount_string (hpm_num ?s) (hpm_get ?s) False, ibex_pcount_string (hpm_num ?s) (hpm_get ?s) True)"
    unfolding reports_def by (rule exI [of _ ?s]) simp
  then show ?thesis using True ds by (simp add: Finish_def Let_def)
qed (simp add: Finish_def)

text \<open>The program when setting up has not ended it and a timeout is set.\<close>

lemma Main_ends:
  assumes "Setup h dut ram argv m0 = (Inr (ret, False), m)" and "has_top (ctrl m)" and "sim_time (ctrl m) = 0"
    and "term_after_cycles (ctrl m) = word_of_nat n" and "0 < n" and "n < 2 ^ 63"
    and "trace_compiled (tracer m) = tracing_possible (ctrl m)" and "simulation_success (ctrl m)"
  shows "\<exists>code out. Main h dut hpm_num hpm_get ram sched (6 * n + 3) argv m0 = Some (Inr (code, out)) \<and>
    (code = 0 \<and> (\<exists>r. out = Some r \<and> reports hpm_num hpm_get r) \<or> code = 1 \<and> out = None) \<and>
    (never_stops dut \<longrightarrow> code = 0) \<and> (always_stops dut \<longrightarrow> code = 1)"
proof -
  let ?m = "say (Banner ''Simulation of Ibex'') m"
  have n: "unat (word_of_nat n :: u64) = n" using assms(6) by (simp add: unsigned_of_nat take_bit_nat_eq_self)
  have pos: "(word_of_nat n :: u64) \<noteq> 0" using n assms(5) by (metis less_not_refl unat_0)
  have "\<exists>m'. RunSimulation dut sched (6 * n + 3) ?m = Some (Inr m')"
    using RunSimulation_timeout(2) [of ?m dut sched] assms(2-4,6,7) pos n by simp
  then obtain m' where run: "RunSimulation dut sched (6 * n + 3) ?m = Some (Inr m')" by blast
  have ended: "Run dut sched (6 * n + 3) m = Some (Inr m')" using run by (simp add: Run_def)
  show ?thesis
  proof (cases "simulation_success (ctrl m')")
    case True
    then obtain out m'' where "Finish hpm_num hpm_get m' = (Some out, m'')" "reports hpm_num hpm_get out"
      using Finish_cases [of m' hpm_num hpm_get] by auto
    then show ?thesis using True RunSimulation_success [OF run]
      unfolding Main_def assms(1) prod.case sum.case by (cases out) (auto simp: ended)
  next
    case False
    then have "Finish hpm_num hpm_get m' = (None, m')" using Finish_cases [of m' hpm_num hpm_get] by auto
    then show ?thesis using False RunSimulation_success(1) [OF run] assms(8)
      unfolding Main_def assms(1) prod.case sum.case by (auto simp: ended)
  qed
qed

text \<open>The controller that has parsed the timeout, in the machine that was set up.\<close>

definition with_timeout :: "nat \<Rightarrow> outer \<Rightarrow> outer machine \<Rightarrow> outer machine" where
  "with_timeout n w m = m\<lparr>ctrl := (ctrl m)\<lparr>term_after_cycles := word_of_nat n\<rparr>, outside := w\<rparr>"

lemma with_timeout_fields:
  assumes "m = with_timeout n w (set_up h ram vm_trace saif clk rst s)"
  shows "has_top (ctrl m)" "sim_time (ctrl m) = 0" "term_after_cycles (ctrl m) = word_of_nat n"
    "trace_compiled (tracer m) = tracing_possible (ctrl m)" "simulation_success (ctrl m)" "outside m = w"
  by (simp_all add: assms with_timeout_def set_up_def fresh_def VerilatorSimCtrl_def VerilatedTracer_def)

text \<open>Parsing the arguments, when the controller finds the timeout and the memory utilities succeed.\<close>

lemma Setup_timeout:
  assumes "\<And>c :: outer sim_ctrl. ctrl_option_loop (getopt_long argv ctrl_optstring ctrl_options) False c =
      (None, False, c\<lparr>term_after_cycles := word_of_nat n\<rparr>)"
    and "ParseCLIArguments h argv False (command_args dut argv (registered ram, s)) = (Inr (True, False), w)"
  shows "Setup h dut ram argv (fresh vm_trace saif clk rst s) =
    (Inr (1, False), with_timeout n w (set_up h ram vm_trace saif clk rst s))"
proof -
  let ?m = "set_up h ram vm_trace saif clk rst s"
  let ?c = "(ctrl ?m)\<lparr>term_after_cycles := word_of_nat n\<rparr>"
  have "extension_array ?c = [memutil_extension h]" "outside ?m = (registered ram, s)" by (simp_all add: set_up_def)
  then have "ParseCommandArgs dut argv False ?m = (Inr (True, False), ?m\<lparr>ctrl := ?c, outside := w\<rparr>)"
    using assms(2) unfolding ParseCommandArgs_def assms(1) prod.case option.case
    by (simp add: memutil_extension_def SimCtrlExtension_def act_bind_def act_return_def)
  then show ?thesis by (simp add: Setup_fresh act_bind_def act_return_def with_timeout_def)
qed

text \<open>The arguments \<open>--meminit\<close> and \<open>--term-after-cycles\<close> are each read by one of the two parsers.\<close>

lemma ctrl_reads_timeout:
  assumes "n < 2 ^ 63"
  shows "ctrl_option_loop (getopt_long [prog, ''--term-after-cycles='' @ dec_string n] ctrl_optstring ctrl_options) False c =
      (None, False, c\<lparr>term_after_cycles := word_of_nat n\<rparr>)"
    and "ctrl_option_loop (getopt_long [prog, meminit p, ''--term-after-cycles='' @ dec_string n] ctrl_optstring ctrl_options) False c =
      (None, False, c\<lparr>term_after_cycles := word_of_nat n\<rparr>)"
proof -
  have timeout: "ctrl_option_loop [Opt CHR ''c'' (Some (dec_string n))] False c = (None, False, c\<lparr>term_after_cycles := word_of_nat n\<rparr>)"
    using assms by (simp add: read_ul_arg_dec)
  then show "ctrl_option_loop (getopt_long [prog, ''--term-after-cycles='' @ dec_string n] ctrl_optstring ctrl_options) False c =
      (None, False, c\<lparr>term_after_cycles := word_of_nat n\<rparr>)" unfolding scan_timeout .
  have "find_long ctrl_options ''meminit'' = None" by (simp add: find_long_def ctrl_options_def)
  from scan_long_unknown [OF this]
  have skip: "getopt_long [prog, meminit p, ''--term-after-cycles='' @ dec_string n] ctrl_optstring ctrl_options =
      Unrecognised # getopt_long [prog, ''--term-after-cycles='' @ dec_string n] ctrl_optstring ctrl_options"
    by (cases p) (simp add: getopt_long_def meminit_def del: getopt_scan.simps(3))
  show "ctrl_option_loop (getopt_long [prog, meminit p, ''--term-after-cycles='' @ dec_string n] ctrl_optstring ctrl_options) False c =
      (None, False, c\<lparr>term_after_cycles := word_of_nat n\<rparr>)"
    unfolding skip ctrl_option_loop.simps(4) scan_timeout by (rule timeout)
qed

lemma ParseCLIArguments_meminit_timeout:
  assumes "field path" and "load_file h (ram_image path) st = (Inr (), t)"
  shows "ParseCLIArguments h [prog, meminit (''ram'', path), ''--term-after-cycles='' @ num] x st = (Inr (True, x), t)"
proof -
  have field: "field ''ram''" by (simp add: field_def)
  have "getopt_long [prog, meminit (''ram'', path), ''--term-after-cycles='' @ num] memutil_optstring memutil_options =
      Opt CHR ''l'' (Some (''ram'' @ '','' @ path @ '',elf'')) #
        getopt_long [prog, ''--term-after-cycles='' @ num] memutil_optstring memutil_options"
    by (simp add: getopt_long_def scan_meminit del: getopt_scan.simps)
  also have "getopt_long [prog, ''--term-after-cycles='' @ num] memutil_optstring memutil_options = [Unrecognised]"
    by (rule memutil_ignores_timeout)
  finally have scan: "getopt_long [prog, meminit (''ram'', path), ''--term-after-cycles='' @ num] memutil_optstring memutil_options =
      [Opt CHR ''l'' (Some (''ram'' @ '','' @ path @ '',elf'')), Unrecognised]" .
  have "\<not> is_list (''ram'' @ '','' @ path @ '',elf'')" by (rule not_list) simp
  then have loop: "option_loop d x [Opt CHR ''l'' (Some (''ram'' @ '','' @ path @ '',elf'')), Unrecognised] [] False =
      Inr (Load_files [ram_image path] False)" for d
    using ParseMemArg_meminit [OF field assms(1)] by (simp add: Let_def ram_image_def del: append.simps)
  obtain d s where st: "st = (d, s)" by (cases st)
  show ?thesis
    using assms(2) unfolding ParseCLIArguments_def scan st prod.case loop sum.case options_end.case
    by (simp add: act_bind_def act_return_def)
qed

text \<open>C10: The whole program, called with \<open>--term-after-cycles=N\<close> and a positive number, ends: whatever the design
  does and whenever signals arrive, \<open>main\<close> returns 0 after it has printed the performance counters that the
  design shows, or 1 when the simulation was not successful.  It is 0 when the design never calls
  \<open>vl_stop\<close>, and 1 when its evaluations do.\<close>

theorem main_terminates:
  assumes "0 < n" and "n < 2 ^ 63"
  shows "\<exists>code out. main h dut hpm_num hpm_get sched (6 * n + 3) [prog, ''--term-after-cycles='' @ dec_string n]
      (fresh vm_trace saif clk rst s) = Some (Inr (code, out)) \<and>
    (code = 0 \<and> (\<exists>r. out = Some r \<and> reports hpm_num hpm_get r) \<or> code = 1 \<and> out = None) \<and>
    (never_stops dut \<longrightarrow> code = 0) \<and> (always_stops dut \<longrightarrow> code = 1)"
proof -
  obtain ram where ram: "SimpleSystem ''TOP.ibex_simple_system.u_ram.u_ram.gen_generic.u_impl_generic'' (1024 * 1024) = Inr ram"
    by (simp add: SimpleSystem_def MemArea_def SV_MEM_WIDTH_BYTES_40)
  note started = Setup_timeout [OF ctrl_reads_timeout(1) [OF assms(2)] ParseCLIArguments_timeout]
  show ?thesis
    unfolding main_def ram sum.case
    by (rule Main_ends [OF started with_timeout_fields(1-3) [OF refl] assms with_timeout_fields(4,5) [OF refl]])
qed

theorem main_terminates_witness:
  "\<exists>out. main demo_host idle_dut (\<lambda>s. 0) (\<lambda>s i. 7) (\<lambda>k. [SIGUSR1]) 63 [''sim'', ''--term-after-cycles='' @ dec_string 10]
      (fresh True False 0 0 (one_memory ''TOP.m'' 32 8 (replicate 40 0))) = Some (Inr (0, Some out)) \<and>
    reports (\<lambda>s. 0) (\<lambda>s i. 7) out"
proof -
  have "never_stops idle_dut" by (simp add: never_stops_def idle_dut_def)
  then show ?thesis
    using main_terminates [of 10 demo_host idle_dut "\<lambda>s. 0" "\<lambda>s i. 7" "\<lambda>k. [SIGUSR1]" "''sim''"] by fastforce
qed

text \<open>C39: The exit code after \<open>--help\<close> is 1, that of a failure, and after an option without its argument it
  is 0: \<open>Setup\<close> returns the success of the parser as the exit code.\<close>

theorem main_exit_code_inverted:
  "Main h dut hpm_num hpm_get ram sched k [prog, ''--help''] (fresh vm_trace saif clk rst s) = Some (Inr (1, None)) \<and>
   Main h dut hpm_num hpm_get ram sched k [prog, ''-c''] (fresh vm_trace saif clk rst s) = Some (Inr (0, None))"
proof -
  have helped: "getopt_long [prog, ''--help''] ctrl_optstring ctrl_options = [Opt CHR ''h'' None]"
    "getopt_long [prog, ''--help''] memutil_optstring memutil_options = [Opt CHR ''h'' None]"
    by (simp_all add: getopt_long_def find_long_def ctrl_options_def memutil_options_def)
  have missing: "getopt_long [prog, ''-c''] ctrl_optstring ctrl_options = [Missing_argument]"
    by (simp add: getopt_long_def ctrl_optstring_def)
  obtain d u where du: "command_args dut [prog, ''--help''] (registered ram, s) = (d, u)" by (cases "command_args dut [prog, ''--help''] (registered ram, s)")
  show ?thesis
    unfolding Main_def Setup_fresh using du
    by (simp add: ParseCommandArgs_def helped missing set_up_def fresh_def VerilatorSimCtrl_def
      memutil_extension_def SimCtrlExtension_def ParseCLIArguments_def act_bind_def act_return_def)
qed

end
