(* ===== verification/Ram_Load.thy ===== *)
theory Ram_Load
  imports Simple_System
begin

text \<open>
  The simple system as \<open>main\<close> puts it together, when it is called with an image for its memory.
  \<open>ibex_simple_system_main.cc\<close> registers 1024 * 1024 words, and the memory of the design (\<open>ram_2p\<close> in
  \<open>ibex_simple_system.sv\<close>) has 1024 * 1024 / 4 of them.  An image that fits into the memory is loaded and
  runs.  A longer one that fits into the registered words overwrites the memory before its loading fails,
  and the exit code is that of a success.
\<close>

text \<open>The memory area that \<open>main\<close> makes.\<close>

definition system_ram :: mem_area where
  "system_ram = \<lparr>ma_scope = ''TOP.ibex_simple_system.u_ram.u_ram.gen_generic.u_impl_generic'',
     ma_num_words = 1024 * 1024, ma_width_byte = 4\<rparr>"

lemma system_ram_fields:
  "unat (ma_width_byte system_ram) = 4" "unat (ma_num_words system_ram) = 1048576"
  by (simp_all add: system_ram_def)

lemma system_ram_width: "ma_width_byte system_ram = 4"
  by (simp add: system_ram_def)

lemma main_system_ram: "main h dut hpm_num hpm_get sched k argv m = Main h dut hpm_num hpm_get system_ram sched k argv m"
proof -
  have "SimpleSystem ''TOP.ibex_simple_system.u_ram.u_ram.gen_generic.u_impl_generic'' (1024 * 1024) = Inr system_ram"
    unfolding system_ram_def SimpleSystem_def MemArea_def SV_MEM_WIDTH_BYTES_40 by simp
  then show ?thesis unfolding main_def by (simp only: sum.case)
qed

text \<open>Loading that fails ends the program before it has run.\<close>

lemma Setup_load_fails:
  assumes "field path" and "load_file h (ram_image path) (registered ram, s) = (Inl e, w)"
    and "command_args dut [prog, meminit (''ram'', path)] (registered ram, s) = (registered ram, s)"
  shows "\<exists>m. outside m = w \<and> Setup h dut ram [prog, meminit (''ram'', path)] (fresh vm_trace saif clk rst s) =
    (case e of Throw x \<Rightarrow> Inr (0, True) | _ \<Rightarrow> Inl e, m)"
proof -
  have "list_all (\<lambda>p. field (fst p) \<and> field (snd p)) [(''ram'', path)]" using assms(1) by (simp add: field_def)
  from ParseCLIArguments_meminits [OF this, of h prog False "(registered ram, s)"] assms(2)
  have parse: "ParseCLIArguments h [prog, meminit (''ram'', path)] False (registered ram, s) =
      (case e of Throw x \<Rightarrow> Inr (False, False) | _ \<Rightarrow> Inl e, w)"
    by (auto simp: act_bind_def act_return_def ram_image_def split: fault.splits)
  have "ParseCommandArgs dut [prog, meminit (''ram'', path)] False (set_up h ram vm_trace saif clk rst s) =
      (case e of Throw x \<Rightarrow> Inr (False, True) | _ \<Rightarrow> Inl e, (set_up h ram vm_trace saif clk rst s)\<lparr>outside := w\<rparr>)"
    using parse assms(3)
    by (auto simp: ParseCommandArgs_def ctrl_ignores_meminit set_up_def fresh_def memutil_extension_def SimCtrlExtension_def
      act_bind_def act_return_def split: fault.splits)
  then show ?thesis
    by (intro exI [of _ "(set_up h ram vm_trace saif clk rst s)\<lparr>outside := w\<rparr>"])
      (auto simp: Setup_fresh act_bind_def act_return_def split: fault.splits)
qed

lemma Write_too_long:
  assumes "0 < ma_width_byte a" and "unat (ma_width_byte a) \<le> 40" and "length data < 2 ^ 32 - 40"
    and "unat (ma_num_words a) < (length data + unat (ma_width_byte a) - 1) div unat (ma_width_byte a)"
  shows "MemArea_Write a ms 0 data s = (Inl Assert_failed, s)"
proof -
  let ?n = "(length data + unat (ma_width_byte a) - 1) div unat (ma_width_byte a)"
  have "?n \<le> length data + unat (ma_width_byte a) - 1" by (rule div_le_dividend)
  then have "?n < 2 ^ 32" using assms(2,3) by linarith
  then have "\<not> (word_of_nat ?n :: u32) \<le> ma_num_words a"
    using assms(4) by (simp add: word_le_nat_alt unsigned_of_nat take_bit_nat_eq_self)
  then show ?thesis
    using assms(1,2) unfolding MemArea_Write_def Let_def by (auto simp: SV_MEM_WIDTH_BYTES_40 act_bind_def act_assert_def act_fail_def)
qed

section \<open>Properties\<close>

text \<open>C8: The whole program from its command line: with \<open>--meminit=ram,path,elf\<close>, an image of at most
  1 MiB and \<open>--term-after-cycles=N\<close>, the memory of the design holds the image when the simulation starts,
  zeros completing the last word, and the program ends, with 0 and the report of the counters when the design
  never stops it.\<close>

theorem program_loads_and_runs:
  assumes "backed system_ram home 262144 s" and "field path" and "FlattenElfFile h path = Inr bs" and "length bs \<le> 2 ^ 20"
    and "0 < n" and "n < 2 ^ 63" and "argv = [prog, meminit (''ram'', path), ''--term-after-cycles='' @ dec_string n]"
    and "command_args dut argv (registered system_ram, s) = (registered system_ram, s)"
  shows "\<exists>m t code out. Setup h dut system_ram argv (fresh vm_trace saif clk rst s) = (Inr (1, False), m) \<and>
    outside m = (registered system_ram, t) \<and>
    MemArea_Read system_ram (MemArea_methods system_ram) 0 (word_of_nat ((length bs + 3) div 4)) t =
      (Inr (vec_resize bs ((length bs + 3) div 4 * 4)), t) \<and>
    main h dut hpm_num hpm_get sched (6 * n + 3) argv (fresh vm_trace saif clk rst s) = Some (Inr (code, out)) \<and>
    (code = 0 \<and> (\<exists>r. out = Some r \<and> reports hpm_num hpm_get r) \<or> code = 1 \<and> out = None) \<and>
    (never_stops dut \<longrightarrow> code = 0) \<and> (always_stops dut \<longrightarrow> code = 1)"
proof -
  have words: "(length bs + 3) div 4 = (length bs + unat (ma_width_byte system_ram) - 1) div unat (ma_width_byte system_ram)"
    "(length bs + 3) div 4 \<le> 262144" "(length bs + 3) div 4 \<le> unat (ma_num_words system_ram)" "length bs < 2 ^ 32 - 40"
    using assms(4) by (simp_all add: system_ram_fields)
  obtain t where t: "load_file h (ram_image path) (registered system_ram, s) = (Inr (), (registered system_ram, t))"
    "MemArea_Read system_ram (MemArea_methods system_ram) 0 (word_of_nat ((length bs + 3) div 4)) t =
      (Inr (vec_resize bs ((length bs + 3) div 4 * 4)), t)"
    using load_ram_within [OF assms(1,3) words(4,1-3)] unfolding system_ram_fields(1) by blast
  have parse: "ParseCLIArguments h argv False (command_args dut argv (registered system_ram, s)) =
      (Inr (True, False), (registered system_ram, t))"
    unfolding assms(8) unfolding assms(7) by (rule ParseCLIArguments_meminit_timeout [OF assms(2) t(1)])
  have reads: "ctrl_option_loop (getopt_long argv ctrl_optstring ctrl_options) False c =
      (None, False, c\<lparr>term_after_cycles := word_of_nat n\<rparr>)" for c :: "outer sim_ctrl"
    unfolding assms(7) by (rule ctrl_reads_timeout(2) [OF assms(6)])
  note started = Setup_timeout [OF reads parse]
  note fields = with_timeout_fields [OF refl]
  have ended: "\<exists>code out. Main h dut hpm_num hpm_get system_ram sched (6 * n + 3) argv (fresh vm_trace saif clk rst s) =
      Some (Inr (code, out)) \<and> (code = 0 \<and> (\<exists>r. out = Some r \<and> reports hpm_num hpm_get r) \<or> code = 1 \<and> out = None) \<and>
    (never_stops dut \<longrightarrow> code = 0) \<and> (always_stops dut \<longrightarrow> code = 1)"
    by (rule Main_ends [OF started fields(1-3) assms(5,6) fields(4,5)])
  let ?m = "with_timeout n (registered system_ram, t) (set_up h system_ram vm_trace saif clk rst s)"
  have "outside ?m = (registered system_ram, t)" by (rule fields(6))
  then show ?thesis
    unfolding main_system_ram using started [of vm_trace saif clk rst] t(2) ended by (intro exI [of _ ?m] exI [of _ t]) simp
qed

lemma backed_system_ram:
  "backed system_ram (ma_scope system_ram) 262144 (one_memory (ma_scope system_ram) 32 262144 word)"
proof -
  have "ma_scope system_ram \<noteq> []" "hd (ma_scope system_ram) \<noteq> CHR ''.''" by (simp_all add: system_ram_def)
  then show ?thesis by (simp add: backed_def mem_present_one_memory system_ram_fields system_ram_width)
qed

theorem program_loads_and_runs_witness:
  "\<exists>m t out. Setup (demo_host\<lparr>elf_getphdrnum := (\<lambda>_. Inr 1)\<rparr>) idle_dut system_ram
      [''sim'', meminit (''ram'', ''a.elf''), ''--term-after-cycles='' @ dec_string 10]
      (fresh True False 0 0 (one_memory (ma_scope system_ram) 32 262144 (replicate 40 0))) = (Inr (1, False), m) \<and>
    outside m = (registered system_ram, t) \<and>
    MemArea_Read system_ram (MemArea_methods system_ram) 0 2 t = (Inr [1, 2, 3, 4, 5, 6, 0, 0], t) \<and>
    main (demo_host\<lparr>elf_getphdrnum := (\<lambda>_. Inr 1)\<rparr>) idle_dut (\<lambda>s. 0) (\<lambda>s i. 7) (\<lambda>k. []) 63
      [''sim'', meminit (''ram'', ''a.elf''), ''--term-after-cycles='' @ dec_string 10]
      (fresh True False 0 0 (one_memory (ma_scope system_ram) 32 262144 (replicate 40 0))) = Some (Inr (0, Some out))"
proof -
  have prem: "field ''a.elf''" "length [1, 2, 3, 4, 5, 6 :: u8] \<le> 2 ^ 20" "(0 :: nat) < 10" "(10 :: nat) < 2 ^ 63"
    "command_args idle_dut argv w = w" for argv w
    by (simp_all add: field_def idle_dut_def)
  have resize: "vec_resize [1, 2, 3, 4, 5, 6 :: u8] 8 = [1, 2, 3, 4, 5, 6, 0, 0]"
    by (simp add: vec_resize_def eval_nat_numeral)
  have "never_stops idle_dut" by (simp add: never_stops_def idle_dut_def)
  then show ?thesis
    using program_loads_and_runs [OF backed_system_ram [of "replicate 40 0"] prem(1) demo_flat prem(2-4) refl prem(5),
      where prog = "''sim''" and vm_trace = True and saif = False and clk = 0 and rst = 0 and hpm_num = "\<lambda>s. 0"
        and hpm_get = "\<lambda>s i. 7" and sched = "\<lambda>k. []"]
    by (simp add: resize) blast
qed

text \<open>A file of one segment.\<close>

definition one_segment :: "u8 list \<Rightarrow> host" where
  "one_segment raw = demo_host\<lparr>elf_getphdrnum := (\<lambda>_. Inr 1), elf_rawfile := (\<lambda>_. Some raw),
     elf32_getphdr := (\<lambda>_. Inr [\<lparr>p_type = 1, p_offset = 0, p_paddr = 0x100000, p_filesz = word_of_nat (length raw)\<rparr>])\<rparr>"

lemma one_segment_flat: "length raw = 1048577 \<Longrightarrow> FlattenElfFile (one_segment raw) path = Inr raw"
  by (cases "raw = []") (simp_all add: FlattenElfFile_def one_segment_def demo_host_def ElfFile_def GetPhdrNum_def GetPhdrs_def bounds_step_def
    nth_phdr_def PT_LOAD_def Let_def file_bytes_def flatten_step_def segment_bytes_def AddSegment_def StagedMem_def
    Emplace_def hit_bounds_def GetFlat_def flat_step_def vec_copy_def)

text \<open>C9: An image of more than 1 MiB, which \<open>main\<close> has registered room for, fills the memory of the design and
  is then rejected: setting the first word behind the memory throws.  The memory holds the beginning of
  the image, nothing runs, and the exit code is 0.  Only an image of more than 4 MiB fails an assertion,
  before anything is written.\<close>

theorem image_larger_than_memory:
  assumes "backed system_ram home 262144 s" and "field path" and "FlattenElfFile h path = Inr bs"
    and "2 ^ 20 < length bs" and "length bs < 2 ^ 32 - 40"
    and "command_args dut [prog, meminit (''ram'', path)] (registered system_ram, s) = (registered system_ram, s)"
  shows "if length bs \<le> 2 ^ 22
    then (\<exists>t. load_file h (ram_image path) (registered system_ram, s) =
            (Inl (Throw (Runtime_error (Could_not_set_memory 0x100000))), (registered system_ram, t)) \<and>
          MemArea_Read system_ram (MemArea_methods system_ram) 0 262144 t = (Inr (take (2 ^ 20) bs), t)) \<and>
        main h dut hpm_num hpm_get sched k [prog, meminit (''ram'', path)] (fresh vm_trace saif clk rst s) = Some (Inr (0, None))
    else load_file h (ram_image path) (registered system_ram, s) = (Inl Assert_failed, (registered system_ram, s)) \<and>
        main h dut hpm_num hpm_get sched k [prog, meminit (''ram'', path)] (fresh vm_trace saif clk rst s) = Some (Inl Assert_failed)"
proof -
  let ?ms = "MemArea_methods system_ram" and ?n = "(length bs + unat (ma_width_byte system_ram) - 1) div unat (ma_width_byte system_ram)"
  show ?thesis
  proof (cases "length bs \<le> 2 ^ 22")
    case True
    have words: "262144 < ?n" "?n \<le> unat (ma_num_words system_ram)"
      using assms(4) True by (simp_all add: system_ram_fields)
    obtain t where t: "MemArea_Write system_ram ?ms 0 bs s =
        (Inl (Throw (Runtime_error (Could_not_set_memory (word_of_nat 262144 * ma_width_byte system_ram)))), t)"
      "MemArea_Read system_ram ?ms 0 (word_of_nat 262144) t = (Inr (take (262144 * unat (ma_width_byte system_ram)) bs), t)"
      using write_past [OF assms(1) _ assms(5) refl words] by auto
    have load: "load_file h (ram_image path) (registered system_ram, s) =
        (Inl (Throw (Runtime_error (Could_not_set_memory 0x100000))), (registered system_ram, t))"
      using load_ram [OF assms(3) t(1)] by (simp add: system_ram_width)
    obtain m where "Setup h dut system_ram [prog, meminit (''ram'', path)] (fresh vm_trace saif clk rst s) = (Inr (0, True), m)"
      using Setup_load_fails [OF assms(2) load assms(6), of vm_trace saif clk rst] by auto
    then have "main h dut hpm_num hpm_get sched k [prog, meminit (''ram'', path)] (fresh vm_trace saif clk rst s) = Some (Inr (0, None))"
      unfolding main_system_ram Main_def by simp
    then show ?thesis using True load t(2) by (simp add: system_ram_fields)
  next
    case False
    then have "unat (ma_num_words system_ram) < ?n" by (simp add: system_ram_fields)
    then have "MemArea_Write system_ram ?ms 0 bs s = (Inl Assert_failed, s)"
      by (intro Write_too_long assms(5)) (simp_all add: system_ram_fields system_ram_width del: One_nat_def)
    from load_ram [OF assms(3) this]
    have load: "load_file h (ram_image path) (registered system_ram, s) = (Inl Assert_failed, (registered system_ram, s))" by simp
    obtain m where "Setup h dut system_ram [prog, meminit (''ram'', path)] (fresh vm_trace saif clk rst s) = (Inl Assert_failed, m)"
      using Setup_load_fails [OF assms(2) load assms(6), of vm_trace saif clk rst] by auto
    then have "main h dut hpm_num hpm_get sched k [prog, meminit (''ram'', path)] (fresh vm_trace saif clk rst s) = Some (Inl Assert_failed)"
      unfolding main_system_ram Main_def by simp
    then show ?thesis using False load by simp
  qed
qed

theorem image_larger_than_memory_witness:
  "main (one_segment (replicate 1048577 7)) idle_dut (\<lambda>s. 0) (\<lambda>s i. 7) (\<lambda>k. []) 63 [''sim'', meminit (''ram'', ''a.elf'')]
      (fresh True False 0 0 (one_memory (ma_scope system_ram) 32 262144 (replicate 40 0))) = Some (Inr (0, None))"
proof -
  have prem: "field ''a.elf''" "2 ^ 20 < length (replicate 1048577 (7 :: u8))" "length (replicate 1048577 (7 :: u8)) < 2 ^ 32 - 40"
    "length (replicate 1048577 (7 :: u8)) \<le> 2 ^ 22" "command_args idle_dut argv w = w" for argv w
    unfolding length_replicate by (simp_all add: field_def idle_dut_def)
  have flat: "FlattenElfFile (one_segment (replicate 1048577 7)) ''a.elf'' = Inr (replicate 1048577 7)"
    by (rule one_segment_flat) (rule length_replicate)
  from image_larger_than_memory [OF backed_system_ram [of "replicate 40 0"] prem(1) flat prem(2,3,5)] show ?thesis
    using prem(4) by (simp only: if_True)
qed

end
