(* ===== verification/Simple_System_Common.thy ===== *)
theory Simple_System_Common
  imports Decimal
begin

text \<open>
  \<open>simple_system_common.c\<close>, \<open>simple_system_common.h\<close> and \<open>hello_test.c\<close>: the library of the programs that run
  on the simulated system.  The state has the writes to the devices in order, the operations on control
  and status registers, and what reads of the devices give: \<open>dev_value n addr\<close> is the value of register
  \<open>addr\<close> when it is the \<open>n\<close>-th read.  A loop that may not end gives \<open>None\<close> when it does not.
  The theory shows what is printed, that a number is printed so that it can be read back, what the handler
  of exceptions reports, that the two halves of the timer are read consistently, that setting it raises no
  early interrupt, and what timer interrupts do one after the other.
\<close>

section \<open>The machine\<close>

datatype csr_op = Csrw string u32 | Csrs string u32 | Csrc string u32

record sw =
  dev_writes :: "(u32 \<times> u32) list"
  dev_value :: "nat \<Rightarrow> u32 \<Rightarrow> u32"
  reads_done :: nat
  csr_ops :: "csr_op list"
  csr :: "string \<Rightarrow> u32"
  time_elapsed :: u64
  time_increment :: u64

definition SIM_CTRL_BASE :: u32 where "SIM_CTRL_BASE = 0x20000"

definition SIM_CTRL_OUT :: u32 where "SIM_CTRL_OUT = 0x0"

definition SIM_CTRL_CTRL :: u32 where "SIM_CTRL_CTRL = 0x8"

definition TIMER_BASE :: u32 where "TIMER_BASE = 0x30000"

definition TIMER_MTIME :: u32 where "TIMER_MTIME = 0x0"

definition TIMER_MTIMEH :: u32 where "TIMER_MTIMEH = 0x4"

definition TIMER_MTIMECMP :: u32 where "TIMER_MTIMECMP = 0x8"

definition TIMER_MTIMECMPH :: u32 where "TIMER_MTIMECMPH = 0xC"

lemmas registers = SIM_CTRL_BASE_def SIM_CTRL_OUT_def SIM_CTRL_CTRL_def TIMER_BASE_def TIMER_MTIME_def
  TIMER_MTIMEH_def TIMER_MTIMECMP_def TIMER_MTIMECMPH_def

definition DEV_WRITE :: "u32 \<Rightarrow> u32 \<Rightarrow> sw \<Rightarrow> sw" where
  "DEV_WRITE addr v s = s\<lparr>dev_writes := dev_writes s @ [(addr, v)]\<rparr>"

definition DEV_READ :: "u32 \<Rightarrow> sw \<Rightarrow> u32 \<times> sw" where
  "DEV_READ addr s = (dev_value s (reads_done s) addr, s\<lparr>reads_done := reads_done s + 1\<rparr>)"

definition csr_do :: "csr_op \<Rightarrow> sw \<Rightarrow> sw" where
  "csr_do op s = s\<lparr>csr_ops := csr_ops s @ [op]\<rparr>"

section \<open>Printing\<close>

text \<open>\<open>(unsigned char)c\<close>, widened to the 32 bits of the register.\<close>

definition putchar :: "u32 \<Rightarrow> sw \<Rightarrow> u32 \<times> sw" where
  "putchar c s = (c, DEV_WRITE (SIM_CTRL_BASE + SIM_CTRL_OUT) (ucast (ucast c :: u8)) s)"

text \<open>The argument is the bytes in memory from the address on; \<open>char\<close> is unsigned on RISC-V.\<close>

fun puts :: "u8 list \<Rightarrow> sw \<Rightarrow> u32 \<times> sw" where
  "puts [] s = (0, s)"
| "puts (c # cs) s = (if c = 0 then (0, s) else puts cs (snd (putchar (ucast c) s)))"

definition bytes :: "string \<Rightarrow> u8 list" where
  "bytes str = map of_char str @ [0]"

fun puthex_loop :: "nat \<Rightarrow> u32 \<Rightarrow> sw \<Rightarrow> sw" where
  "puthex_loop 0 h s = s"
| "puthex_loop (Suc n) h s =
     (let cur_digit = drop_bit 28 h;
          s = snd (if cur_digit < 10 then putchar (of_char CHR ''0'' + cur_digit) s
                   else putchar (of_char CHR ''A'' - 10 + cur_digit) s)
      in puthex_loop n (push_bit 4 h) s)"

definition puthex :: "u32 \<Rightarrow> sw \<Rightarrow> sw" where
  "puthex h s = puthex_loop 8 h s"

definition sim_halt :: "sw \<Rightarrow> sw" where
  "sim_halt s = DEV_WRITE (SIM_CTRL_BASE + SIM_CTRL_CTRL) 1 s"

section \<open>Counters and exceptions\<close>

definition pcount_enable :: "bool \<Rightarrow> sw \<Rightarrow> sw" where
  "pcount_enable enable s =
     (let inhibit_val = (if enable then 0x0 else 0xFFFFFFFF) in csr_do (Csrw ''0x320'' inhibit_val) s)"

definition hpm_names :: "string \<Rightarrow> string list" where
  "hpm_names suffix = map (\<lambda>i. ''mhpmcounter'' @ dec_string i @ suffix) [3..<32]"

definition pcount_reset :: "sw \<Rightarrow> sw" where
  "pcount_reset s =
     fold (\<lambda>name. csr_do (Csrw name 0))
       ([''minstret'', ''mcycle''] @ hpm_names [] @ [''minstreth'', ''mcycleh''] @ hpm_names ''h'') s"

definition get_mepc :: "sw \<Rightarrow> u32" where
  "get_mepc s = csr s ''mepc''"

definition get_mcause :: "sw \<Rightarrow> u32" where
  "get_mcause s = csr s ''mcause''"

definition get_mtval :: "sw \<Rightarrow> u32" where
  "get_mtval s = csr s ''mtval''"

definition newline :: u32 where
  "newline = of_char CHR 0x0A"

text \<open>The state in which the handler goes on forever.\<close>

definition simple_exc_handler :: "sw \<Rightarrow> sw" where
  "simple_exc_handler s =
     (let s = snd (puts (bytes (''EXCEPTION!!!'' @ [CHR 0x0A])) s);
          s = snd (puts (bytes (''============'' @ [CHR 0x0A])) s);
          s = snd (puts (bytes ''MEPC:   0x'') s);
          s = puthex (get_mepc s) s;
          s = snd (puts (bytes (CHR 0x0A # ''MCAUSE: 0x'')) s);
          s = puthex (get_mcause s) s;
          s = snd (puts (bytes (CHR 0x0A # ''MTVAL:  0x'')) s);
          s = puthex (get_mtval s) s;
          s = snd (putchar newline s)
      in sim_halt s)"

definition icache_enable :: "bool \<Rightarrow> sw \<Rightarrow> sw" where
  "icache_enable enable s = csr_do (if enable then Csrs ''0x7c0'' 1 else Csrc ''0x7c0'' 1) s"

section \<open>The timer\<close>

text \<open>The loop of \<open>timer_read\<close> and the number it puts together.\<close>

partial_function (option) timer_read :: "sw \<Rightarrow> (u64 \<times> sw) option" where
  "timer_read s =
     (let (current_timeh, s) = DEV_READ (TIMER_BASE + TIMER_MTIMEH) s;
          (current_time, s) = DEV_READ (TIMER_BASE + TIMER_MTIME) s;
          (again, s) = DEV_READ (TIMER_BASE + TIMER_MTIMEH) s
      in if current_timeh \<noteq> again then timer_read s
         else Some (push_bit 32 (ucast current_timeh) OR ucast current_time, s))"

definition timecmp_update :: "u64 \<Rightarrow> sw \<Rightarrow> sw" where
  "timecmp_update new_time s =
     (let s = DEV_WRITE (TIMER_BASE + TIMER_MTIMECMP) (- 1) s;
          s = DEV_WRITE (TIMER_BASE + TIMER_MTIMECMPH) (ucast (drop_bit 32 new_time)) s
      in DEV_WRITE (TIMER_BASE + TIMER_MTIMECMP) (ucast new_time) s)"

definition increment_timecmp :: "u64 \<Rightarrow> sw \<Rightarrow> sw option" where
  "increment_timecmp time_base s =
     (case timer_read s of None \<Rightarrow> None
      | Some (current_time, s) \<Rightarrow> Some (timecmp_update (current_time + time_base) s))"

definition timer_enable :: "u64 \<Rightarrow> sw \<Rightarrow> sw option" where
  "timer_enable time_base s =
     map_option (\<lambda>s. csr_do (Csrs ''mstatus'' 0x8) (csr_do (Csrs ''mie'' 0x80) s))
       (increment_timecmp time_base (s\<lparr>time_elapsed := 0, time_increment := time_base\<rparr>))"

definition timer_disable :: "sw \<Rightarrow> sw" where
  "timer_disable s = csr_do (Csrc ''mie'' 0x80) s"

definition get_elapsed_time :: "sw \<Rightarrow> u64" where
  "get_elapsed_time s = time_elapsed s"

definition simple_timer_handler :: "sw \<Rightarrow> sw option" where
  "simple_timer_handler s =
     map_option (\<lambda>s. s\<lparr>time_elapsed := time_elapsed s + 1\<rparr>) (increment_timecmp (time_increment s) s)"

section \<open>\<open>hello_test.c\<close>\<close>

definition hello_main :: "sw \<Rightarrow> u32 \<times> sw" where
  "hello_main s =
     (let s = snd (puts (bytes (''Hello simple system'' @ [CHR 0x0A])) s);
          s = puthex 0xDEADBEEF s;
          s = snd (putchar newline s);
          s = puthex 0xBAADF00D s;
          s = snd (putchar newline s)
      in (0, s))"

section \<open>The console\<close>

text \<open>The characters that have been written to the simulator's log.\<close>

definition console :: "sw \<Rightarrow> string" where
  "console s = map (\<lambda>w. char_of (unat (snd w))) (filter (\<lambda>w. fst w = SIM_CTRL_BASE + SIM_CTRL_OUT) (dev_writes s))"

lemma console_write [simp]:
  "console (DEV_WRITE addr v s) = console s @ (if addr = SIM_CTRL_BASE + SIM_CTRL_OUT then [char_of (unat v)] else [])"
  by (simp add: console_def DEV_WRITE_def)

lemma of_char_u8 [simp]: "char_of (unat (of_char c :: u8)) = c"
proof -
  have "unat (word_of_nat (of_char c) :: u8) = of_char c"
    by (subst unsigned_of_nat) (simp add: take_bit_nat_eq_self)
  then have "unat (of_char c :: u8) = of_char c" by (simp only: of_nat_of_char)
  then show ?thesis by simp
qed

lemma unat_widen: "unat (ucast (b :: u8) :: u32) = unat b"
proof -
  have "unat b < 256" using unsigned_less [of b, where 'a = nat] by simp
  then show ?thesis by (simp add: unsigned_ucast_eq take_bit_nat_eq_self)
qed

lemma narrow_widen [simp]: "ucast (ucast (b :: u8) :: u32) = b"
  by (rule bit_word_eqI) (simp add: bit_ucast_iff)

lemma console_putchar [simp]: "console (snd (putchar c s)) = console s @ [char_of (unat (ucast c :: u8))]"
  unfolding putchar_def snd_conv console_write unat_widen by simp

lemma puts_result: "fst (puts str s) = 0"
  by (induction str s rule: puts.induct) auto

lemma console_puts:
  "CHR 0x00 \<notin> set str \<Longrightarrow> console (snd (puts (bytes str) s)) = console s @ str"
proof (induction str arbitrary: s)
  case (Cons c str)
  have "(of_char c :: u8) \<noteq> 0"
  proof
    assume "(of_char c :: u8) = 0"
    then have "c = char_of (unat (0 :: u8))" by (metis of_char_u8)
    then show False using Cons.prems by (simp add: char_of_def)
  qed
  then show ?case using Cons by (simp add: bytes_def)
qed (simp add: bytes_def)

section \<open>Numbers\<close>

fun hex_chars :: "nat \<Rightarrow> u32 \<Rightarrow> string" where
  "hex_chars 0 h = []"
| "hex_chars (Suc n) h =
     char_of (if unat h div 2 ^ 28 < 10 then 48 + unat h div 2 ^ 28 else 55 + unat h div 2 ^ 28) # hex_chars n (push_bit 4 h)"

lemma length_hex_chars [simp]: "length (hex_chars n h) = n"
  by (induction n h rule: hex_chars.induct) auto

lemma nibble: "unat (drop_bit 28 (h :: u32)) = unat h div 2 ^ 28" "unat (h :: u32) div 2 ^ 28 < 16"
proof -
  show "unat (drop_bit 28 h) = unat h div 2 ^ 28" by (simp add: drop_bit_eq_div unat_div)
  show "unat h div 2 ^ 28 < 16" using unsigned_less [of h, where 'a = nat] by (simp add: less_mult_imp_div_less)
qed

lemma console_puthex_loop: "console (puthex_loop n h s) = console s @ hex_chars n h"
proof (induction n arbitrary: h s)
  case (Suc n)
  let ?d = "drop_bit 28 h"
  have d: "unat ?d = unat h div 2 ^ 28" "unat ?d < 16" using nibble [of h] by simp_all
  have digit: "unat (ucast (48 + ?d :: u32) :: u8) = 48 + unat ?d"
    "unat (ucast (55 + ?d :: u32) :: u8) = 55 + unat ?d"
    using d(2) by (simp_all add: unsigned_ucast_eq unat_word_ariths take_bit_nat_eq_self)
  have less: "?d < 10 \<longleftrightarrow> unat ?d < 10" by (simp add: word_less_nat_alt)
  show ?case
    using Suc unfolding puthex_loop.simps Let_def hex_chars.simps d(1) [symmetric] less if_distrib [of snd]
    by (simp add: digit)
qed simp

lemma digits_value_Cons: "digits_value b (c # s) = digit_value c * b ^ length s + digits_value b s"
proof -
  let ?f = "\<lambda>v c. b * v + digit_value c"
  have "foldl ?f v s = v * b ^ length s + foldl ?f 0 s" for v
  proof (induction s arbitrary: v)
    case (Cons a s)
    have "foldl ?f v (a # s) = (b * v + digit_value a) * b ^ length s + foldl ?f 0 s"
      "foldl ?f 0 (a # s) = digit_value a * b ^ length s + foldl ?f 0 s"
      using Cons [of "b * v + digit_value a"] Cons [of "digit_value a"] by simp_all
    then show ?case by (simp only: length_Cons power_Suc) (simp add: algebra_simps)
  qed simp
  from this [of "digit_value c"] show ?thesis by (simp add: digits_value_def)
qed

lemma digits_hex_chars: "n \<le> 8 \<Longrightarrow> digits_value 16 (hex_chars n h) = unat h div 2 ^ (32 - 4 * n)"
proof (induction n arbitrary: h)
  case 0
  have "unat h < 2 ^ 32" using unsigned_less [of h, where 'a = nat] by simp
  then show ?case by (simp add: digits_value_def)
next
  case (Suc n)
  define q r where "q = unat h div 2 ^ 28" and "r = unat h mod 2 ^ 28"
  have h: "unat h = q * 2 ^ 28 + r" "r < 2 ^ 28" "q < 16" using nibble(2) [of h] by (simp_all add: q_def r_def)
  have digit: "digit_value (char_of (if q < 10 then 48 + q else 55 + q)) = q"
    using h(3) by (auto simp: digit_value_def)
  have "unat (push_bit 4 h) = (q * 2 ^ 28 + r) * 2 ^ 4 mod 2 ^ 32"
    by (simp add: push_bit_eq_mult unat_word_ariths h(1))
  also have "(q * 2 ^ 28 + r) * 2 ^ 4 = 2 ^ 4 * r + q * 2 ^ 32" by simp
  also have "(2 ^ 4 * r + q * 2 ^ 32) mod 2 ^ 32 = 2 ^ 4 * r" using h(2) by simp
  finally have push: "unat (push_bit 4 h) = 2 ^ 4 * r" .
  have split: "32 - 4 * n = 4 + (28 - 4 * n)" "32 - 4 * Suc n = 28 - 4 * n" "28 = 4 * n + (28 - 4 * n)"
    using Suc.prems by simp_all
  have low: "(2 ^ 4 * r) div 2 ^ (32 - 4 * n) = r div 2 ^ (28 - 4 * n)"
    unfolding split(1) power_add by (rule div_mult_mult1) simp
  have "(q * 2 ^ 28 + r) div 2 ^ (28 - 4 * n) = (r + (q * 2 ^ (4 * n)) * 2 ^ (28 - 4 * n)) div 2 ^ (28 - 4 * n)"
    by (subst split(3)) (simp only: power_add mult.assoc add.commute)
  also have "\<dots> = q * 2 ^ (4 * n) + r div 2 ^ (28 - 4 * n)" by (rule div_mult_self1) simp
  finally have high: "(q * 2 ^ 28 + r) div 2 ^ (28 - 4 * n) = q * 2 ^ (4 * n) + r div 2 ^ (28 - 4 * n)" .
  have "digits_value 16 (hex_chars (Suc n) h) = q * 16 ^ n + digits_value 16 (hex_chars n (push_bit 4 h))"
    unfolding hex_chars.simps digits_value_Cons q_def [symmetric] digit by simp
  also have "digits_value 16 (hex_chars n (push_bit 4 h)) = r div 2 ^ (28 - 4 * n)"
    using Suc.IH [of "push_bit 4 h"] Suc.prems unfolding push low by simp
  also have "(16 :: nat) ^ n = 2 ^ (4 * n)" by (simp add: power_mult)
  finally show ?case unfolding h(1) split(2) high .
qed

section \<open>Reading the timer\<close>

text \<open>The device counts: \<open>clock n\<close> is the 64-bit counter at the \<open>n\<close>-th read, and the two registers show
  its halves.\<close>

definition shows_clock :: "(nat \<Rightarrow> u64) \<Rightarrow> sw \<Rightarrow> bool" where
  "shows_clock clock s \<longleftrightarrow> (\<forall>n. dev_value s n (TIMER_BASE + TIMER_MTIMEH) = ucast (drop_bit 32 (clock n)) \<and>
     dev_value s n (TIMER_BASE + TIMER_MTIME) = ucast (clock n))"

definition high :: "u64 \<Rightarrow> nat" where
  "high t = unat t div 2 ^ 32"

lemma high_word: "unat (ucast (drop_bit 32 t) :: u32) = high t"
proof -
  have "unat t < 2 ^ 64" using unsigned_less [of t, where 'a = nat] by simp
  then have "unat t div 2 ^ 32 < 2 ^ 32" by (simp add: less_mult_imp_div_less)
  moreover have "unat (drop_bit 32 t) = unat t div 2 ^ 32" by (simp add: drop_bit_eq_div unat_div)
  ultimately show ?thesis by (simp add: high_def unsigned_ucast_eq take_bit_nat_eq_self)
qed

lemma high_mono: "t \<le> u \<Longrightarrow> high t \<le> high u"
  by (simp add: high_def word_le_nat_alt div_le_mono)

text \<open>One turn of the loop.\<close>

lemma timer_read_turn:
  assumes "shows_clock clock s"
  defines "n \<equiv> reads_done s"
  shows "timer_read s =
    (if high (clock n) = high (clock (n + 2))
     then Some (push_bit 32 (ucast (ucast (drop_bit 32 (clock n)) :: u32)) OR ucast (ucast (clock (n + 1)) :: u32),
       s\<lparr>reads_done := n + 3\<rparr>)
     else timer_read (s\<lparr>reads_done := n + 3\<rparr>))"
proof -
  have eq: "(ucast (drop_bit 32 (clock n)) :: u32) = ucast (drop_bit 32 (clock (n + 2))) \<longleftrightarrow> high (clock n) = high (clock (n + 2))"
    by (simp only: word_unat_eq_iff high_word)
  show ?thesis
    using assms(1) eq unfolding n_def shows_clock_def
    by (subst timer_read.simps) (simp add: DEV_READ_def Let_def numeral_3_eq_3)
qed

text \<open>The halves of a number whose high half is known.\<close>

lemma join_halves:
  assumes "high t = high u"
  shows "push_bit 32 (ucast (ucast (drop_bit 32 t) :: u32)) OR ucast (ucast u :: u32) = (u :: u64)"
proof -
  have "(ucast (drop_bit 32 t) :: u32) = ucast (drop_bit 32 u)"
    using assms by (simp only: word_unat_eq_iff high_word)
  then show ?thesis
    by (intro bit_word_eqI) (auto simp: bit_or_iff bit_push_bit_iff bit_ucast_iff bit_drop_bit_eq)
qed

lemma shows_clock_reads [simp]: "shows_clock clock (s\<lparr>reads_done := k\<rparr>) = shows_clock clock s"
  by (simp add: shows_clock_def)

text \<open>The high half can change only so often.\<close>

lemma timer_read_counter:
  assumes "shows_clock clock s" and mono: "\<And>m n. m \<le> n \<Longrightarrow> clock m \<le> clock n"
  shows "\<exists>k r. timer_read s = Some (clock k, s\<lparr>reads_done := r\<rparr>) \<and> reads_done s < k \<and> k + 2 = r"
  using assms(1)
proof (induction "2 ^ 32 - high (clock (reads_done s))" arbitrary: s rule: less_induct)
  case less
  let ?n = "reads_done s"
  have le: "high (clock ?n) \<le> high (clock (?n + 1))" "high (clock (?n + 1)) \<le> high (clock (?n + 2))"
    "high (clock (?n + 2)) \<le> high (clock (?n + 3))"
    by (simp_all add: high_mono mono)
  show ?case
  proof (cases "high (clock ?n) = high (clock (?n + 2))")
    case True
    then have "high (clock ?n) = high (clock (?n + 1))" using le by simp
    then show ?thesis using timer_read_turn [OF less.prems] True join_halves
      by (intro exI [of _ "?n + 1"] exI [of _ "?n + 3"]) simp
  next
    case False
    let ?s = "s\<lparr>reads_done := ?n + 3\<rparr>"
    have bound: "high (clock (?n + 3)) < 2 ^ 32"
      using unsigned_less [of "clock (?n + 3)", where 'a = nat] by (simp add: high_def less_mult_imp_div_less)
    have "high (clock ?n) < high (clock (?n + 3))" using False le by linarith
    then have "2 ^ 32 - high (clock (reads_done ?s)) < 2 ^ 32 - high (clock ?n)" using bound by (simp add: diff_less_mono2)
    from less.hyps [OF this] less.prems obtain k r where
      "timer_read ?s = Some (clock k, ?s\<lparr>reads_done := r\<rparr>)" "reads_done ?s < k" "k + 2 = r" by auto
    then show ?thesis using timer_read_turn [OF less.prems] False by auto
  qed
qed

section \<open>Setting the timer\<close>

text \<open>The compare register after writes to its halves.\<close>

definition compare_step :: "u32 \<times> u32 \<Rightarrow> nat \<Rightarrow> nat" where
  "compare_step w t =
     (if fst w = TIMER_BASE + TIMER_MTIMECMP then t div 2 ^ 32 * 2 ^ 32 + unat (snd w)
      else if fst w = TIMER_BASE + TIMER_MTIMECMPH then unat (snd w) * 2 ^ 32 + t mod 2 ^ 32
      else t)"

definition new_writes :: "sw \<Rightarrow> sw \<Rightarrow> (u32 \<times> u32) list" where
  "new_writes s t = drop (length (dev_writes s)) (dev_writes t)"

lemma new_writes_timecmp: "new_writes s (timecmp_update new_time s) =
    [(0x30008, - 1), (0x3000C, ucast (drop_bit 32 new_time)), (0x30008, ucast new_time)]"
  by (simp add: new_writes_def timecmp_update_def DEV_WRITE_def Let_def registers)

lemma compare_steps:
  "fold compare_step [(0x30008, - 1)] t = t div 2 ^ 32 * 2 ^ 32 + (2 ^ 32 - 1)"
  "fold compare_step [(0x30008, - 1), (0x3000C, h)] t = unat h * 2 ^ 32 + (2 ^ 32 - 1)"
  "fold compare_step [(0x30008, - 1), (0x3000C, h), (0x30008, l)] t = unat h * 2 ^ 32 + unat l"
proof -
  have l: "unat l < 2 ^ 32" "unat (- 1 :: u32) = 2 ^ 32 - 1"
    using unsigned_less [of l, where 'a = nat] by (simp_all add: unsigned_minus_1_eq_mask mask_eq_exp_minus_1)
  note step = compare_step_def registers
  have one: "compare_step (0x30008, - 1) t = t div 2 ^ 32 * 2 ^ 32 + (2 ^ 32 - 1)" for t
    unfolding step fst_conv snd_conv l(2) by simp
  have two: "compare_step (0x3000C, h) (x * 2 ^ 32 + (2 ^ 32 - 1)) = unat h * 2 ^ 32 + (2 ^ 32 - 1)" for x
    unfolding step fst_conv snd_conv by simp
  have three: "compare_step (0x30008, l) (unat h * 2 ^ 32 + (2 ^ 32 - 1)) = unat h * 2 ^ 32 + unat l"
    unfolding step fst_conv snd_conv by simp
  show "fold compare_step [(0x30008, - 1)] t = t div 2 ^ 32 * 2 ^ 32 + (2 ^ 32 - 1)"
    "fold compare_step [(0x30008, - 1), (0x3000C, h)] t = unat h * 2 ^ 32 + (2 ^ 32 - 1)"
    "fold compare_step [(0x30008, - 1), (0x3000C, h), (0x30008, l)] t = unat h * 2 ^ 32 + unat l"
    by (simp_all only: fold_simps one two three)
qed

lemma unat_halves: "unat (ucast (drop_bit 32 t) :: u32) * 2 ^ 32 + unat (ucast t :: u32) = unat (t :: u64)"
  unfolding high_word high_def by (simp add: unsigned_ucast_eq take_bit_eq_mod)

lemma timecmp_set: "fold compare_step (new_writes s (timecmp_update new_time s)) old = unat new_time"
  unfolding new_writes_timecmp compare_steps unat_halves ..

text \<open>Writes only ever come at the end, so what is written by two pieces of code is what each of them writes.\<close>

definition later :: "sw \<Rightarrow> sw \<Rightarrow> bool" where
  "later s t \<longleftrightarrow> take (length (dev_writes s)) (dev_writes t) = dev_writes s"

lemma laterE:
  assumes "later s t"
  obtains ws where "dev_writes t = dev_writes s @ ws"
  using assms append_take_drop_id [of "length (dev_writes s)" "dev_writes t"] unfolding later_def by metis

lemma new_writes_later: "later s t \<Longrightarrow> later t u \<Longrightarrow> new_writes s u = new_writes s t @ new_writes t u"
  by (elim laterE) (simp add: new_writes_def)

lemma later_trans: "later s t \<Longrightarrow> later t u \<Longrightarrow> later s u"
  by (elim laterE) (simp add: later_def)

lemma later_same: "dev_writes t = dev_writes s \<Longrightarrow> later s t"
  by (simp add: later_def)

lemma new_writes_same: "dev_writes s' = dev_writes s \<Longrightarrow> dev_writes t' = dev_writes t \<Longrightarrow> new_writes s' t' = new_writes s t"
  by (simp add: new_writes_def)

text \<open>Setting the timer relative to the present time.\<close>

lemma increment_timecmp_counter:
  assumes "shows_clock clock s" and "\<And>m n. m \<le> n \<Longrightarrow> clock m \<le> clock n"
  obtains k t where "increment_timecmp base s = Some t" and "reads_done s \<le> k" and "k < reads_done t"
    and "\<And>old. fold compare_step (new_writes s t) old = unat (clock k + base)"
    and "later s t" and "shows_clock clock t" and "csr_ops t = csr_ops s"
    and "time_elapsed t = time_elapsed s" and "time_increment t = time_increment s"
proof -
  obtain k r where k: "timer_read s = Some (clock k, s\<lparr>reads_done := r\<rparr>)" "reads_done s < k" "k + 2 = r"
    using timer_read_counter [OF assms] by auto
  let ?s = "s\<lparr>reads_done := r\<rparr>"
  let ?t = "timecmp_update (clock k + base) ?s"
  have "new_writes s ?t = new_writes ?s ?t" by (rule new_writes_same) simp_all
  then have "fold compare_step (new_writes s ?t) old = unat (clock k + base)" for old by (simp add: timecmp_set)
  moreover have "later s ?t" "csr_ops ?t = csr_ops s" "reads_done ?t = r" "time_elapsed ?t = time_elapsed s"
    "time_increment ?t = time_increment s"
    by (simp_all add: later_def timecmp_update_def DEV_WRITE_def Let_def)
  moreover have "shows_clock clock ?t"
    using assms(1) by (simp add: shows_clock_def timecmp_update_def DEV_WRITE_def Let_def)
  moreover have "increment_timecmp base s = Some ?t" using k(1) by (simp add: increment_timecmp_def)
  ultimately show thesis using that [of ?t k] k(2,3) by auto
qed

text \<open>Interrupts, one after the other.\<close>

primrec interrupts :: "nat \<Rightarrow> sw \<Rightarrow> sw option" where
  "interrupts 0 s = Some s"
| "interrupts (Suc n) s = Option.bind (interrupts n s) simple_timer_handler"

definition ticked :: "(nat \<Rightarrow> u64) \<Rightarrow> u64 \<Rightarrow> sw \<Rightarrow> nat \<Rightarrow> nat \<Rightarrow> sw \<Rightarrow> bool" where
  "ticked clock base s k n t \<longleftrightarrow> time_elapsed t = word_of_nat n \<and> time_increment t = base \<and> later s t \<and>
     shows_clock clock t \<and> csr_ops t = csr_ops s @ [Csrs ''mie'' 0x80, Csrs ''mstatus'' 0x8] \<and> k < reads_done t \<and>
     (\<forall>old. fold compare_step (new_writes s t) old = unat (clock k + base))"

lemma timer_enable_ticked:
  assumes "shows_clock clock s" and "\<And>m n. m \<le> n \<Longrightarrow> clock m \<le> clock n"
  shows "\<exists>t k. timer_enable base s = Some t \<and> ticked clock base s k 0 t \<and> reads_done s \<le> k"
proof -
  let ?s = "s\<lparr>time_elapsed := 0, time_increment := base\<rparr>"
  have "shows_clock clock ?s" using assms(1) by (simp add: shows_clock_def)
  from increment_timecmp_counter [OF this assms(2)] obtain k t where t:
    "increment_timecmp base ?s = Some t" "reads_done ?s \<le> k" "k < reads_done t"
    "\<And>old. fold compare_step (new_writes ?s t) old = unat (clock k + base)" "later ?s t" "shows_clock clock t"
    "csr_ops t = csr_ops ?s" "time_elapsed t = time_elapsed ?s" "time_increment t = time_increment ?s" by blast
  let ?t = "csr_do (Csrs ''mstatus'' 0x8) (csr_do (Csrs ''mie'' 0x80) t)"
  have "new_writes s ?t = new_writes ?s t" by (rule new_writes_same) (simp_all add: csr_do_def)
  then have "ticked clock base s k 0 ?t"
    using t by (simp add: ticked_def csr_do_def later_def shows_clock_def)
  then show ?thesis using t(1,2) by (auto simp: timer_enable_def)
qed

lemma handler_ticked:
  assumes "ticked clock base s k n u" and "\<And>m n. m \<le> n \<Longrightarrow> clock m \<le> clock n"
  shows "\<exists>t k. simple_timer_handler u = Some t \<and> ticked clock base s k (Suc n) t \<and> reads_done u \<le> k"
proof -
  note u = assms(1) [unfolded ticked_def]
  have "shows_clock clock u" using u by blast
  from increment_timecmp_counter [OF this assms(2)] obtain k t where t:
    "increment_timecmp base u = Some t" "reads_done u \<le> k" "k < reads_done t"
    "\<And>old. fold compare_step (new_writes u t) old = unat (clock k + base)" "later u t" "shows_clock clock t"
    "csr_ops t = csr_ops u" "time_elapsed t = time_elapsed u" "time_increment t = time_increment u" by blast
  let ?t = "t\<lparr>time_elapsed := time_elapsed t + 1\<rparr>"
  have s: "later s t" using u t(5) later_trans by blast
  have "new_writes s ?t = new_writes s t" by (rule new_writes_same) simp_all
  also have "\<dots> = new_writes s u @ new_writes u t" using u t(5) new_writes_later by blast
  finally have "ticked clock base s k (Suc n) ?t"
    using t u s by (simp add: ticked_def later_def shows_clock_def)
  then show ?thesis using t(1,2) u by (auto simp: simple_timer_handler_def)
qed

lemma interrupts_ticked:
  assumes "ticked clock base s k 0 u" and "\<And>m n. m \<le> n \<Longrightarrow> clock m \<le> clock n"
  shows "\<exists>t k. interrupts n u = Some t \<and> ticked clock base s k n t"
proof (induction n)
  case (Suc n)
  then obtain t k where t: "interrupts n u = Some t" "ticked clock base s k n t" by blast
  show ?case using handler_ticked [OF t(2) assms(2)] t(1) by auto
qed (use assms(1) in auto)

section \<open>Reporting an exception\<close>

definition hex :: "u32 \<Rightarrow> string" where
  "hex h = hex_chars 8 h"

lemma console_puthex: "console (puthex h s) = console s @ hex h"
  by (simp add: puthex_def console_puthex_loop hex_def)

lemma hex_digits: "length (hex h) = 8" "digits_value 16 (hex h) = unat h"
  by (simp_all add: hex_def digits_hex_chars)

text \<open>Printing leaves the registers alone and writes to the log only.\<close>

definition prints :: "sw \<Rightarrow> sw \<Rightarrow> bool" where
  "prints s t \<longleftrightarrow> csr t = csr s \<and> later s t \<and> list_all (\<lambda>w. fst w = SIM_CTRL_BASE + SIM_CTRL_OUT) (new_writes s t)"

lemma prints_refl [simp]: "prints s s"
  by (simp add: prints_def new_writes_def later_def)

lemma prints_trans: "prints s t \<Longrightarrow> prints t u \<Longrightarrow> prints s u"
  unfolding prints_def by (auto simp: new_writes_later intro: later_trans)

lemma prints_putchar: "prints s t \<Longrightarrow> prints s (snd (putchar c t))"
proof (erule prints_trans)
  show "prints t (snd (putchar c t))" by (simp add: prints_def putchar_def DEV_WRITE_def new_writes_def later_def)
qed

lemma prints_puts: "prints s t \<Longrightarrow> prints s (snd (puts str t))"
  by (induction str t rule: puts.induct) (auto intro: prints_putchar)

lemma prints_puthex: "prints s t \<Longrightarrow> prints s (puthex h t)"
proof -
  have "prints s t \<Longrightarrow> prints s (puthex_loop n h t)" for n
    by (induction n arbitrary: h t) (auto simp: Let_def intro: prints_putchar)
  then show "prints s t \<Longrightarrow> prints s (puthex h t)" by (simp add: puthex_def)
qed

lemmas printing = prints_putchar prints_puts prints_puthex

lemma prints_csr: "prints s t \<Longrightarrow> csr t = csr s"
  by (simp add: prints_def)

section \<open>Properties\<close>

text \<open>C21: The halves of the timer are read consistently.  When the device counts without wrapping around,
  \<open>timer_read\<close> returns, and what it returns is the value of the 64-bit counter at the moment of one of
  its reads, although it reads 32 bits at a time.\<close>

theorem timer_read_consistent:
  assumes "shows_clock clock s" and "\<And>m n. m \<le> n \<Longrightarrow> clock m \<le> clock n"
  shows "\<exists>k r. timer_read s = Some (clock k, s\<lparr>reads_done := r\<rparr>) \<and> reads_done s < k \<and> k + 2 = r"
  using assms by (rule timer_read_counter)

definition demo_clock :: "nat \<Rightarrow> u64" where
  "demo_clock n = (if n = 0 then 0xFFFFFFFF else 0x100000000)"

definition demo_sw :: sw where
  "demo_sw = \<lparr>dev_writes = [],
     dev_value = (\<lambda>n addr. if addr = TIMER_BASE + TIMER_MTIMEH then ucast (drop_bit 32 (demo_clock n)) else ucast (demo_clock n)),
     reads_done = 0, csr_ops = [], csr = (\<lambda>name. 0), time_elapsed = 0, time_increment = 0\<rparr>"

theorem timer_read_consistent_witness:
  "\<exists>k r. timer_read demo_sw = Some (demo_clock k, demo_sw\<lparr>reads_done := r\<rparr>) \<and> reads_done demo_sw < k \<and> k + 2 = r"
proof (rule timer_read_consistent)
  show "shows_clock demo_clock demo_sw" by (simp add: shows_clock_def demo_sw_def registers)
  show "demo_clock m \<le> demo_clock n" if "m \<le> n" for m n using that by (simp add: demo_clock_def)
qed

text \<open>C33: Setting the timer writes its halves in an order in which the compare value is never below both the
  old and the new one, so no interrupt is raised early, and the last write makes it the new one.\<close>

theorem timecmp_never_early:
  "fold compare_step (new_writes s (timecmp_update new_time s)) (unat (old :: u64)) = unat new_time \<and>
   list_all (\<lambda>k. min (unat old) (unat new_time) \<le> fold compare_step (take k (new_writes s (timecmp_update new_time s))) (unat old))
     [0..<4]"
proof -
  have old: "unat old \<le> unat old div 2 ^ 32 * 2 ^ 32 + (2 ^ 32 - 1)" for old :: u64
  proof -
    have "unat old mod 2 ^ 32 < 2 ^ 32" by simp
    then show ?thesis using div_mult_mod_eq [of "unat old" "2 ^ 32"] by linarith
  qed
  have new: "unat new_time \<le> unat (ucast (drop_bit 32 new_time) :: u32) * 2 ^ 32 + (2 ^ 32 - 1)"
    using old [of new_time] unfolding high_word high_def .
  have four: "[0..<4] = [0, 1, 2, 3 :: nat]" by (simp add: upt_rec)
  have take: "take 1 [a, b, c] = [a]" "take 2 [a, b, c] = [a, b]" "take 3 [a, b, c] = [a, b, c]" for a b c :: "u32 \<times> u32"
    by (simp_all add: numeral_2_eq_2 numeral_3_eq_3)
  show ?thesis
    unfolding new_writes_timecmp four list.pred_inject take take_0 compare_steps unat_halves
    using old [of old] new by (simp del: One_nat_def) (simp add: min_le_iff_disj)
qed

text \<open>C40: The handler of exceptions prints its message with the three registers that describe the exception,
  each as eight hexadecimal digits that are its value, and halts the simulation once, after everything
  has been printed.\<close>

theorem exception_reported:
  "\<exists>mepc mcause mtval.
    console (simple_exc_handler s) = console s @ ''EXCEPTION!!!'' @ [CHR 0x0A] @ ''============'' @ [CHR 0x0A] @
      ''MEPC:   0x'' @ mepc @ [CHR 0x0A] @ ''MCAUSE: 0x'' @ mcause @ [CHR 0x0A] @ ''MTVAL:  0x'' @ mtval @ [CHR 0x0A] \<and>
    map length [mepc, mcause, mtval] = [8, 8, 8] \<and>
    map (digits_value 16) [mepc, mcause, mtval] = map (\<lambda>r. unat (csr s r)) [''mepc'', ''mcause'', ''mtval''] \<and>
    (\<exists>ws. new_writes s (simple_exc_handler s) = ws @ [(0x20008, 1)] \<and> list_all (\<lambda>w. fst w = 0x20000) ws)"
proof (intro exI conjI)
  define s1 where "s1 = snd (puts (bytes ''MEPC:   0x'') (snd (puts (bytes (''============'' @ [CHR 0x0A]))
    (snd (puts (bytes (''EXCEPTION!!!'' @ [CHR 0x0A])) s)))))"
  define s2 where "s2 = snd (puts (bytes (CHR 0x0A # ''MCAUSE: 0x'')) (puthex (get_mepc s1) s1))"
  define s3 where "s3 = snd (puts (bytes (CHR 0x0A # ''MTVAL:  0x'')) (puthex (get_mcause s2) s2))"
  define s4 where "s4 = snd (putchar newline (puthex (get_mtval s3) s3))"
  have p1: "prints s s1" unfolding s1_def by (intro printing prints_refl)
  have p2: "prints s s2" unfolding s2_def by (intro printing p1)
  have p3: "prints s s3" unfolding s3_def by (intro printing p2)
  have p4: "prints s s4" unfolding s4_def by (intro printing p3)
  have csrs: "get_mepc s1 = csr s ''mepc''" "get_mcause s2 = csr s ''mcause''" "get_mtval s3 = csr s ''mtval''"
    using p1 p2 p3 by (simp_all add: get_mepc_def get_mcause_def get_mtval_def prints_csr)
  have handler: "simple_exc_handler s = sim_halt s4"
    by (simp add: simple_exc_handler_def Let_def s1_def s2_def s3_def s4_def)
  have nl: "char_of (unat (ucast newline :: u8)) = CHR 0x0A" by (simp add: newline_def char_of_def bit_0)
  have halt: "console (sim_halt t) = console t" for t by (simp add: sim_halt_def registers)
  have "console s1 = console s @ ''EXCEPTION!!!'' @ [CHR 0x0A] @ ''============'' @ [CHR 0x0A] @ ''MEPC:   0x''"
    by (simp add: s1_def console_puts)
  then show "console (simple_exc_handler s) = console s @ ''EXCEPTION!!!'' @ [CHR 0x0A] @ ''============'' @ [CHR 0x0A] @
      ''MEPC:   0x'' @ hex (csr s ''mepc'') @ [CHR 0x0A] @ ''MCAUSE: 0x'' @ hex (csr s ''mcause'') @ [CHR 0x0A] @
      ''MTVAL:  0x'' @ hex (csr s ''mtval'') @ [CHR 0x0A]"
    unfolding handler halt s4_def console_putchar console_puthex nl csrs(3)
    unfolding s3_def by (simp add: console_puts console_puthex csrs(2)) (simp add: s2_def console_puts console_puthex csrs(1))
  show "new_writes s (simple_exc_handler s) = new_writes s s4 @ [(0x20008, 1)]"
    using p4 unfolding handler prints_def
    by (auto simp: sim_halt_def DEV_WRITE_def registers new_writes_def elim: laterE)
  show "list_all (\<lambda>w. fst w = 0x20000) (new_writes s s4)" using p4 by (simp add: prints_def registers)
qed (simp_all add: hex_digits)

text \<open>C19: The timer of the programs.  After \<open>timer_enable\<close> with a time base and any number of timer interrupts
  the handler returns again, the number of interrupts is what \<open>get_elapsed_time\<close> gives, and the compare
  register, whatever it was at the beginning, is the time base after a value the counter had while the
  last handler ran.\<close>

theorem timer_interrupts:
  assumes "shows_clock clock s" and "\<And>m n. m \<le> n \<Longrightarrow> clock m \<le> clock n"
  shows "\<exists>u t k. Option.bind (timer_enable base s) (interrupts n) = Some u \<and> simple_timer_handler u = Some t \<and>
    get_elapsed_time t = word_of_nat (Suc n) \<and> reads_done u \<le> k \<and> k < reads_done t \<and>
    fold compare_step (new_writes s t) old = unat (clock k + base) \<and>
    csr_ops t = csr_ops s @ [Csrs ''mie'' 0x80, Csrs ''mstatus'' 0x8]"
proof -
  obtain t0 k0 where 0: "timer_enable base s = Some t0" "ticked clock base s k0 0 t0"
    using timer_enable_ticked [OF assms] by blast
  obtain u k where u: "interrupts n t0 = Some u" "ticked clock base s k n u"
    using interrupts_ticked [OF 0(2) assms(2)] by blast
  obtain t k where t: "simple_timer_handler u = Some t" "ticked clock base s k (Suc n) t" "reads_done u \<le> k"
    using handler_ticked [OF u(2) assms(2)] by blast
  show ?thesis
  proof (intro exI conjI)
    show "Option.bind (timer_enable base s) (interrupts n) = Some u" using 0(1) u(1) by simp
    show "get_elapsed_time t = word_of_nat (Suc n)" "k < reads_done t"
      "fold compare_step (new_writes s t) old = unat (clock k + base)"
      "csr_ops t = csr_ops s @ [Csrs ''mie'' 0x80, Csrs ''mstatus'' 0x8]"
      using t(2) unfolding ticked_def get_elapsed_time_def by blast+
  qed (use t in auto)
qed

theorem timer_interrupts_witness:
  "\<exists>u t k. Option.bind (timer_enable 1000 demo_sw) (interrupts 5) = Some u \<and> simple_timer_handler u = Some t \<and>
    get_elapsed_time t = word_of_nat (Suc 5) \<and> reads_done u \<le> k \<and> k < reads_done t \<and>
    fold compare_step (new_writes demo_sw t) 7 = unat (demo_clock k + 1000) \<and>
    csr_ops t = csr_ops demo_sw @ [Csrs ''mie'' 0x80, Csrs ''mstatus'' 0x8]"
proof (rule timer_interrupts)
  show "shows_clock demo_clock demo_sw" by (simp add: shows_clock_def demo_sw_def registers)
  show "demo_clock m \<le> demo_clock n" if "m \<le> n" for m n using that by (simp add: demo_clock_def)
qed

text \<open>What the test program prints.\<close>

theorem hello_prints:
  "console (snd (hello_main s)) = console s @ ''Hello simple system'' @ [CHR 0x0A] @ ''DEADBEEF'' @ [CHR 0x0A] @
     ''BAADF00D'' @ [CHR 0x0A]"
proof -
  have eight: "8 = Suc (Suc (Suc (Suc (Suc (Suc (Suc (Suc 0)))))))" by simp
  have "hex_chars 8 0xDEADBEEF = ''DEADBEEF''" "hex_chars 8 0xBAADF00D = ''BAADF00D''"
    unfolding eight by (simp_all add: char_of_def bit_0)
  moreover have "char_of (unat (ucast newline :: u8)) = CHR 0x0A" by (simp add: newline_def char_of_def bit_0)
  ultimately show ?thesis
    by (simp add: hello_main_def Let_def console_puts puthex_def console_puthex_loop)
qed

end
