(* ===== verification/Spec2Isabelle.thy ===== *)
theory Spec2Isabelle
  imports Outcome Ranged_Map Bytes Staged_Mem Xor_Linear Secded Prince Scramble Sim_State Sv_Scoped
    Mem_Area Mem_Depth Ecc32_Mem_Area Scrambled_Ecc32_Mem_Area Ordered_Map Dpi_Memutil
    Dpi_Session Elf_Load Verilated_Toplevel Getopt Verilator_Memutil Decimal Pcounts Sim_Ctrl Sim_Report
    Simple_System Ram_Load Simple_System_Common
begin

text \<open>
  \<^bold>\<open>The program.\<close>  verilog-power-analysis-workflows simulates an Ibex system with Verilator to record its
  switching activity.  The development models the C and C++ code of \<open>src/example\<close>: the harness around the
  simulated design, and the library of the programs that run on it.  The harness registers the memories
  of the design, loads ELF files into them over the DPI (plain memories, memories with check bits and
  scrambled memories), clocks and resets the design, records a trace and reports the performance
  counters.

  \<^bold>\<open>Parts, from the bottom up.\<close>
  \<^item> \<open>Outcome\<close>, \<open>Bytes\<close>, \<open>Xor_Linear\<close>, \<open>Ordered_Map\<close>, \<open>Decimal\<close>: the prelude.  \<open>fault + 'a\<close> is the outcome of
    code that may abort on an assertion, access memory outside an object, or throw; \<open>res_bind\<close> and \<open>foldM\<close>
    sequence it.  Byte vectors, functions linear over exclusive or, \<open>std::map\<close> with string keys, and the
    conversion of decimal numerals.
  \<^item> \<open>Ranged_Map\<close> (\<open>ranged_map.h\<close>): the map from disjoint address ranges; \<open>Emplace\<close> with its merge loop,
    \<open>EmplaceDisjoint\<close> and \<open>find\<close>.  The locale \<open>segment_merge\<close> is what it asks of the merge function.
  \<^item> \<open>Staged_Mem\<close> (\<open>StagedMem\<close> of \<open>dpi_memutil.h\<close>): segments staged for a memory, which implement a partial
    map from addresses to bytes.
  \<^item> \<open>Secded\<close> (\<open>secded_enc.c\<close>), \<open>Prince\<close> (\<open>prince_ref.h\<close>), \<open>Scramble\<close> (\<open>scramble_model.cc\<close>): the check bits,
    the block cipher and the scrambling of addresses and data.
  \<^item> \<open>Sim_State\<close> and \<open>Sv_Scoped\<close> (\<open>sv_scoped.cc\<close>): the design as the DPI shows it, namely the current scope and
    the memories, and the guard that switches the scope.  \<open>('s, 'a) act\<close> is code with a state, which is kept
    when it throws.
  \<^item> \<open>Mem_Area\<close>, \<open>Ecc32_Mem_Area\<close>, \<open>Scrambled_Ecc32_Mem_Area\<close>: the three memory classes.  Virtual methods are
    the record \<open>mem_methods\<close>.  The locales \<open>mem_codec\<close> and \<open>ecc_codec\<close> are the contract between the methods a
    class overrides and \<open>MemArea::Write\<close>, \<open>MemArea::Read\<close> and their variants with integrity bits; they are
    interpreted for each class.  \<open>Mem_Depth\<close>: areas whose number of words is not the depth of the memory.
  \<^item> \<open>Dpi_Memutil\<close>, \<open>Dpi_Session\<close>, \<open>Elf_Load\<close> (\<open>dpi_memutil.cc\<close>): the registry of memories, the flattening and
    staging of ELF files, and loading; what sequences of calls keep; and loading from the file to the words
    of all memories.
  \<^item> \<open>Getopt\<close>, \<open>Verilator_Memutil\<close> (\<open>verilator_memutil.cc\<close>): \<open>getopt_long\<close> and the command line of the memory
    utilities.
  \<^item> \<open>Verilated_Toplevel\<close>, \<open>Sim_Ctrl\<close>, \<open>Sim_Report\<close> (\<open>verilated_toplevel.h\<close>, \<open>verilator_sim_ctrl.cc\<close>): the
    controller.  \<open>Run\<close> is the step relation \<open>running\<close> over program points, with signals between any two of
    them; \<open>Sim_Report\<close> is about what is printed.
  \<^item> \<open>Pcounts\<close> (\<open>ibex_pcounts.cc\<close>), \<open>Simple_System\<close> (\<open>ibex_simple_system.cc\<close> and its \<open>main\<close>): the report and the
    program.  \<open>Ram_Load\<close>: the program as \<open>main\<close> configures it, with images of every size for its memory.
  \<^item> \<open>Simple_System_Common\<close> (\<open>simple_system_common.c\<close>, \<open>simple_system_common.h\<close>, \<open>hello_test.c\<close>): the library of
    the embedded programs.

  A definition has the name of the function it models, with the class in front of it where several
  classes have a method of the name.  A loop body that is a definition of its own is named after the
  function or its job (\<open>merge_step\<close>, \<open>stage_segment\<close>, \<open>loop_turn\<close>).

  \<^bold>\<open>What is shown.\<close>  Staging refines the overlay of byte maps, and flattening and staging an ELF file give
  the image of the file or throw.  Every word of every registered memory reads after a load as the image
  says.  What is written to a memory of any class is read back, flags of the integrity variants included,
  and flips of up to three stored bits are reported; for scrambled memories, loading and reading back have the
  hypothesis on key and nonce named below.  The cipher and the scrambling are inverted by their
  inverses, and address scrambling permutes the addresses.  The registry keeps its invariant under all
  sequences of calls.  The command line is parsed as documented and lets no exception through, and files
  are loaded in order.  The clock and the reset follow the configured window, a timeout or a stop request
  ends the run, the trace is one well-formed recording, a run is reported truthfully, and the whole program
  terminates when a timeout is given, after it has put an image that fits into the memory of the design;
  what it does with an image that does not fit is shown too.  The two halves of the timer are read and
  written consistently, its interrupts are counted and always set the next one, and an exception is
  reported with the registers that describe it.

  \<^bold>\<open>Bounds and fuel.\<close>  Machine integers are words of their width.  Loops are folds or structural recursion;
  \<open>timer_read\<close>, which may not end, is \<open>partial_function (option)\<close>, and its property says that it returns.
  \<open>RunSimulation\<close> takes a number of steps and gives \<open>None\<close> when they are not enough: a turn of the loop is
  three steps, a cycle has two turns, and three steps are outside the loop, so \<open>6 * t + 3\<close> steps are
  enough for a timeout of \<open>t\<close> cycles (\<open>run_terminates\<close>).  No claim on termination is made without a timeout,
  where the design decides.

  \<^bold>\<open>Assumptions.\<close>  Assertions are active (no \<open>NDEBUG\<close>).  A signal is handled between two program points of
  \<open>Run\<close>, not within one.  libelf, the file system, \<open>$readmemh\<close>, the generated class of the design and the DPI
  functions of the counters are parameters; \<open>libelf_ok\<close> is the only hypothesis about them.  A scope is
  identified with its full name, and the functions \<open>simutil_set_mem\<close> and \<open>simutil_get_mem\<close> of the design are
  those of \<open>prim_util_memload.svh\<close>.  The code reads key and nonce of scrambled
  memories from arrays that it has not initialised, which C++ leaves undefined; the model gives every call
  contents of its own, and the theorems that need all calls to find the same have the hypothesis
  \<open>same_contents\<close> or \<open>same_keys\<close>, which nothing in the program ensures.  The DPI functions of the counters
  return in every scope, also in the null scope, where Verilator would stop.

  \<^bold>\<open>Not modelled.\<close>  Error messages of the command line parsers and those of the loader when verbose; the
  speed in the statistics, a floating-point quotient of two integers that are modelled; the class that Verilator
  generates; the Verilog sources, scripts and build files.  Allocation is taken to succeed.
\<close>

end
